(* ===== verification/Prelude.thy ===== *)
theory Prelude
  imports Main "HOL-Library.Word" "HOL-Library.Monad_Syntax"
begin

text \<open>
  The vocabulary every component shares.  Go's \<open>int\<close> and \<open>int64\<close> are mathematical integers
  with the two's complement wrap-around of a 64-bit platform written out in each operation
  (\<open>add64\<close>, \<open>sub64\<close>, \<open>mul64\<close>, \<open>quot64\<close>).  A \<open>for range\<close> loop over a slice is
  \<open>forEach\<close>, and one that leaves at the first error and counts the iterations it
  completed is \<open>forEachErr\<close>; their body has an \<open>option\<close> result, where \<open>None\<close> is a call
  that never returns a value (a nil dereference or a deadlock).
\<close>

named_theorems go_int "facts that evaluate 64-bit arithmetic inside its range"

section \<open>64-bit integers\<close>

definition wrap64 :: "int \<Rightarrow> int" where
  "wrap64 x = (x + 2 ^ 63) mod 2 ^ 64 - 2 ^ 63"

definition int64_range :: "int \<Rightarrow> bool" where
  "int64_range x \<longleftrightarrow> - (2 ^ 63) \<le> x \<and> x < 2 ^ 63"

abbreviation MaxInt64 :: int where
  "MaxInt64 \<equiv> 9223372036854775807"

abbreviation MinInt64 :: int where
  "MinInt64 \<equiv> - 9223372036854775808"

definition add64 :: "int \<Rightarrow> int \<Rightarrow> int" where
  "add64 a b = wrap64 (a + b)"

definition sub64 :: "int \<Rightarrow> int \<Rightarrow> int" where
  "sub64 a b = wrap64 (a - b)"

definition mul64 :: "int \<Rightarrow> int \<Rightarrow> int" where
  "mul64 a b = wrap64 (a * b)"

text \<open>Integer division truncates towards zero.\<close>

definition quot :: "int \<Rightarrow> int \<Rightarrow> int" where
  "quot a b = sgn a * sgn b * (\<bar>a\<bar> div \<bar>b\<bar>)"

definition quot64 :: "int \<Rightarrow> int \<Rightarrow> int" where
  "quot64 a b = wrap64 (quot a b)"

section \<open>Loops over slices\<close>

fun forEach :: "('s \<Rightarrow> 'a \<Rightarrow> 's option) \<Rightarrow> 's \<Rightarrow> 'a list \<Rightarrow> 's option" where
  "forEach f st [] = Some st"
| "forEach f st (x # xs) = Option.bind (f st x) (\<lambda>st'. forEach f st' xs)"

fun forEachErr ::
  "('s \<Rightarrow> 'a \<Rightarrow> ('e option \<times> 's) option) \<Rightarrow> 's \<Rightarrow> 'a list \<Rightarrow> nat \<Rightarrow> ('e option \<times> nat \<times> 's) option"
where
  "forEachErr f st [] n = Some (None, n, st)"
| "forEachErr f st (x # xs) n =
     Option.bind (f st x)
       (\<lambda>(err, st'). case err of
           Some e \<Rightarrow> Some (Some e, n, st')
         | None \<Rightarrow> forEachErr f st' xs (Suc n))"

section \<open>Strings\<close>

text \<open>The decimal form \<open>fmt\<close> prints for \<open>%d\<close>, and \<open>strings.Contains\<close>,
  \<open>strings.HasPrefix\<close>, \<open>strings.Index\<close>.\<close>

fun nat_digits :: "nat \<Rightarrow> string" where
  "nat_digits n =
    (if n < 10 then [char_of (48 + n)] else nat_digits (n div 10) @ [char_of (48 + n mod 10)])"

declare nat_digits.simps [simp del]

definition itoa :: "int \<Rightarrow> string" where
  "itoa i = (if i < 0 then ''-'' @ nat_digits (nat (- i)) else nat_digits (nat i))"

definition hasPrefix :: "string \<Rightarrow> string \<Rightarrow> bool" where
  "hasPrefix s p \<longleftrightarrow> take (length p) s = p"

fun strContains :: "string \<Rightarrow> string \<Rightarrow> bool" where
  "strContains [] p = (p = [])"
| "strContains (c # s) p = (hasPrefix (c # s) p \<or> strContains s p)"

text \<open>The index of the first occurrence; \<open>None\<close> is the code's -1.\<close>

fun strIndex :: "string \<Rightarrow> string \<Rightarrow> nat option" where
  "strIndex [] p = (if p = [] then Some 0 else None)"
| "strIndex (c # s) p =
     (if hasPrefix (c # s) p then Some 0 else map_option Suc (strIndex s p))"

section \<open>Facts on 64-bit integers\<close>

lemma wrap64_id [go_int]: "int64_range x \<Longrightarrow> wrap64 x = x"
  by (simp add: wrap64_def int64_range_def)

lemma int64_range_wrap64 [simp]: "int64_range (wrap64 x)"
  by (simp add: wrap64_def int64_range_def)

lemma wrap64_wrap64 [simp]: "wrap64 (wrap64 x) = wrap64 x"
  by (simp add: wrap64_id)

lemma int64_range_add64 [simp]: "int64_range (add64 a b)"
  by (simp add: add64_def)

lemma int64_range_sub64 [simp]: "int64_range (sub64 a b)"
  by (simp add: sub64_def)

lemma wrap64_cong:
  obtains k where "wrap64 x = x - k * 2 ^ 64"
proof
  show "wrap64 x = x - ((x + 2 ^ 63) div 2 ^ 64) * 2 ^ 64"
    by (simp add: wrap64_def minus_div_mult_eq_mod [symmetric])
qed

lemma wrap64_add_multiple: "wrap64 (x + k * 2 ^ 64) = wrap64 x"
proof -
  have "(x + k * 2 ^ 64 + 2 ^ 63) mod 2 ^ 64 = (x + 2 ^ 63) mod (2 ^ 64 :: int)"
    using mod_mult_self1 [of "x + 2 ^ 63" k "2 ^ 64 :: int"] by (simp add: algebra_simps)
  then show ?thesis by (simp add: wrap64_def)
qed

text \<open>Subtraction undoes addition, whether or not the addition wrapped.\<close>

lemma sub64_add64: "int64_range a \<Longrightarrow> sub64 (add64 a b) b = a"
proof -
  assume a: "int64_range a"
  obtain k where k: "wrap64 (a + b) = (a + b) - k * 2 ^ 64" by (rule wrap64_cong)
  have "sub64 (add64 a b) b = wrap64 (a + (- k) * 2 ^ 64)"
    by (simp add: sub64_def add64_def k)
  also have "\<dots> = a"
    by (subst wrap64_add_multiple) (simp add: wrap64_id a)
  finally show ?thesis .
qed

lemma add64_exact [go_int]: "int64_range (a + b) \<Longrightarrow> add64 a b = a + b"
  by (simp add: add64_def wrap64_id)

lemma sub64_exact [go_int]: "int64_range (a - b) \<Longrightarrow> sub64 a b = a - b"
  by (simp add: sub64_def wrap64_id)

lemma mul64_exact [go_int]: "int64_range (a * b) \<Longrightarrow> mul64 a b = a * b"
  by (simp add: mul64_def wrap64_id)

lemma quot_nonneg [simp]: "0 \<le> a \<Longrightarrow> 0 < b \<Longrightarrow> quot a b = a div b"
  by (cases "a = 0") (auto simp: quot_def)

lemma quot_mult_cancel: "b \<noteq> 0 \<Longrightarrow> quot (a * b) b = a"
proof -
  assume b: "b \<noteq> 0"
  then have "quot (a * b) b = (sgn a * \<bar>a\<bar>) * (sgn b * sgn b)"
    by (simp add: quot_def abs_mult sgn_mult mult.assoc mult.left_commute)
  also have "sgn b * sgn b = 1" using b by (simp add: sgn_if)
  finally show ?thesis by (simp add: sgn_mult_abs)
qed

text \<open>The remainder of a truncated division is smaller than the divisor.\<close>

lemma quot_remainder: "b \<noteq> 0 \<Longrightarrow> \<bar>a - quot a b * b\<bar> < \<bar>b\<bar>"
proof -
  assume b: "b \<noteq> 0"
  have ab: "\<bar>a\<bar> = \<bar>a\<bar> div \<bar>b\<bar> * \<bar>b\<bar> + \<bar>a\<bar> mod \<bar>b\<bar>" by simp
  have "a - quot a b * b = sgn a * (\<bar>a\<bar> mod \<bar>b\<bar>)"
  proof -
    have "quot a b * b = sgn a * (\<bar>a\<bar> div \<bar>b\<bar>) * (sgn b * b)"
      by (simp add: quot_def mult.assoc mult.commute mult.left_commute)
    also have "sgn b * b = \<bar>b\<bar>" by (simp add: abs_sgn mult.commute)
    finally have "quot a b * b = sgn a * (\<bar>a\<bar> div \<bar>b\<bar> * \<bar>b\<bar>)" by (simp add: mult.assoc)
    moreover have "a = sgn a * \<bar>a\<bar>" by (simp add: sgn_mult_abs)
    ultimately show ?thesis
      using ab by (metis add_diff_cancel_left' right_diff_distrib)
  qed
  then have "\<bar>a - quot a b * b\<bar> \<le> \<bar>a\<bar> mod \<bar>b\<bar>"
    using b pos_mod_sign [of "\<bar>b\<bar>" "\<bar>a\<bar>"] by (simp add: abs_mult sgn_if)
  also have "\<dots> < \<bar>b\<bar>" using b by simp
  finally show ?thesis .
qed

section \<open>Facts on strings\<close>

lemma hasPrefix_append [simp]: "hasPrefix (p @ s) p"
  by (simp add: hasPrefix_def)

lemma strContains_set: "strContains s p \<Longrightarrow> set p \<subseteq> set s"
proof (induction s)
  case (Cons c s)
  then show ?case
    using set_take_subset [of "length p" "c # s"] by (auto simp: hasPrefix_def)
qed simp

lemma strContains_append: "strContains (s @ p @ t) p"
proof (induction s)
  case Nil
  have "hasPrefix (p @ t) p" by simp
  then show ?case by (cases "p @ t") auto
qed simp

lemma nat_digits_are_digits:
  "c \<in> set (nat_digits n) \<Longrightarrow> 48 \<le> (of_char c :: nat) \<and> (of_char c :: nat) \<le> 57"
proof (induction n rule: nat_digits.induct)
  case (1 n)
  then show ?case
    by (subst (asm) nat_digits.simps) (auto split: if_splits)
qed

lemma itoa_chars:
  "c \<in> set (itoa i) \<Longrightarrow> c = CHR ''-'' \<or> 48 \<le> (of_char c :: nat) \<and> (of_char c :: nat) \<le> 57"
  by (auto simp: itoa_def dest: nat_digits_are_digits split: if_splits)

lemma dot_notin_itoa: "CHR ''.'' \<notin> set (itoa i)"
  using itoa_chars [of "CHR ''.''" i] by auto

section \<open>Facts on loops\<close>

lemma forEach_append:
  "forEach f st (xs @ ys) = Option.bind (forEach f st xs) (\<lambda>st'. forEach f st' ys)"
  by (induction xs arbitrary: st) (auto split: Option.bind_splits)

lemma forEach_invariant:
  assumes "forEach f st xs = Some st'" and "P st"
    and "\<And>s x s'. x \<in> set xs \<Longrightarrow> P s \<Longrightarrow> f s x = Some s' \<Longrightarrow> P s'"
  shows "P st'"
  using assms
proof (induction xs arbitrary: st)
  case Nil
  then show ?case by simp
next
  case (Cons x xs)
  then obtain s where s: "f st x = Some s" "forEach f s xs = Some st'"
    by (auto split: Option.bind_splits)
  then have "P s" using Cons.prems(2,3) by auto
  then show ?case using Cons.IH [OF s(2)] Cons.prems(3) by auto
qed

section \<open>The length of a number in bits\<close>

fun bit_length :: "nat \<Rightarrow> nat" where
  "bit_length n = (if n = 0 then 0 else Suc (bit_length (n div 2)))"

declare bit_length.simps [simp del]

lemma bit_length_le: "n < 2 ^ k \<Longrightarrow> bit_length n \<le> k"
proof (induction n arbitrary: k rule: bit_length.induct)
  case (1 n)
  show ?case
  proof (cases "n = 0")
    case True
    then show ?thesis by (simp add: bit_length.simps)
  next
    case False
    then obtain k' where k: "k = Suc k'" using 1(2) by (cases k) auto
    then have "n div 2 < 2 ^ k'" using 1(2) by auto
    then show ?thesis using 1(1) [OF False] False k by (subst bit_length.simps) simp
  qed
qed

end
