(* ===== verification/Limits.thy ===== *)
theory Limits
  imports Prelude
begin

text \<open>
  Resource limits (p2p/host/resource-manager/limit.go and limit\_defaults.go): the concrete
  limits a scope is checked against (\<open>BaseLimit\<close>), the partial limits of a configuration
  with their sentinel values (\<open>ResourceLimits\<close>), the overlay and build operations that turn
  one into the other, and the fixed limiter the manager asks for the limits of each scope.
  A Go map is a partial function: a nil map and an empty one read alike and are identified.
\<close>

type_synonym peerID = string
type_synonym protocolID = string

text \<open>network.Direction, an integer in the code; only \<open>DirInbound\<close> is ever singled out.\<close>

datatype Direction = DirUnknown | DirInbound | DirOutbound

section \<open>Concrete limits\<close>

record BaseLimit =
  Streams :: int
  StreamsInbound :: int
  StreamsOutbound :: int
  Conns :: int
  ConnsInbound :: int
  ConnsOutbound :: int
  FD :: int
  Memory :: int

definition GetStreamLimit :: "BaseLimit \<Rightarrow> Direction \<Rightarrow> int" where
  "GetStreamLimit l dir = (if dir = DirInbound then StreamsInbound l else StreamsOutbound l)"

definition GetStreamTotalLimit :: "BaseLimit \<Rightarrow> int" where
  "GetStreamTotalLimit l = Streams l"

definition GetConnLimit :: "BaseLimit \<Rightarrow> Direction \<Rightarrow> int" where
  "GetConnLimit l dir = (if dir = DirInbound then ConnsInbound l else ConnsOutbound l)"

definition GetConnTotalLimit :: "BaseLimit \<Rightarrow> int" where
  "GetConnTotalLimit l = Conns l"

definition GetFDLimit :: "BaseLimit \<Rightarrow> int" where
  "GetFDLimit l = FD l"

definition GetMemoryLimit :: "BaseLimit \<Rightarrow> int" where
  "GetMemoryLimit l = Memory l"

definition BaseLimit_Apply :: "BaseLimit \<Rightarrow> BaseLimit \<Rightarrow> BaseLimit" where
  "BaseLimit_Apply l l2 =
    \<lparr>Streams = (if Streams l = 0 then Streams l2 else Streams l),
     StreamsInbound = (if StreamsInbound l = 0 then StreamsInbound l2 else StreamsInbound l),
     StreamsOutbound = (if StreamsOutbound l = 0 then StreamsOutbound l2 else StreamsOutbound l),
     Conns = (if Conns l = 0 then Conns l2 else Conns l),
     ConnsInbound = (if ConnsInbound l = 0 then ConnsInbound l2 else ConnsInbound l),
     ConnsOutbound = (if ConnsOutbound l = 0 then ConnsOutbound l2 else ConnsOutbound l),
     FD = (if FD l = 0 then FD l2 else FD l),
     Memory = (if Memory l = 0 then Memory l2 else Memory l)\<rparr>"

section \<open>Partial limits with sentinel values\<close>

text \<open>\<open>LimitVal\<close> and \<open>LimitVal64\<close> are integers with three values set apart.\<close>

type_synonym LimitVal = int

definition DefaultLimit :: LimitVal where "DefaultLimit = 0"
definition Unlimited :: LimitVal where "Unlimited = - 1"
definition BlockAllLimit :: LimitVal where "BlockAllLimit = - 2"

definition LimitVal_Build :: "LimitVal \<Rightarrow> int \<Rightarrow> int" where
  "LimitVal_Build l defaultVal =
    (if l = DefaultLimit then defaultVal
     else if l = Unlimited then MaxInt64
     else if l = BlockAllLimit then 0
     else l)"

definition LimitVal64_Build :: "LimitVal \<Rightarrow> int \<Rightarrow> int" where
  "LimitVal64_Build l defaultVal =
    (if l = DefaultLimit then defaultVal
     else if l = Unlimited then MaxInt64
     else if l = BlockAllLimit then 0
     else l)"

definition valueOrBlockAll :: "int \<Rightarrow> LimitVal" where
  "valueOrBlockAll n =
    (if n = 0 then BlockAllLimit else if n = MaxInt64 then Unlimited else n)"

definition valueOrBlockAll64 :: "int \<Rightarrow> LimitVal" where
  "valueOrBlockAll64 n =
    (if n = 0 then BlockAllLimit else if n = MaxInt64 then Unlimited else n)"

record ResourceLimits =
  rlStreams :: LimitVal
  rlStreamsInbound :: LimitVal
  rlStreamsOutbound :: LimitVal
  rlConns :: LimitVal
  rlConnsInbound :: LimitVal
  rlConnsOutbound :: LimitVal
  rlFD :: LimitVal
  rlMemory :: LimitVal

definition ToResourceLimits :: "BaseLimit \<Rightarrow> ResourceLimits" where
  "ToResourceLimits l =
    \<lparr>rlStreams = valueOrBlockAll (Streams l),
     rlStreamsInbound = valueOrBlockAll (StreamsInbound l),
     rlStreamsOutbound = valueOrBlockAll (StreamsOutbound l),
     rlConns = valueOrBlockAll (Conns l),
     rlConnsInbound = valueOrBlockAll (ConnsInbound l),
     rlConnsOutbound = valueOrBlockAll (ConnsOutbound l),
     rlFD = valueOrBlockAll (FD l),
     rlMemory = valueOrBlockAll64 (Memory l)\<rparr>"

text \<open>A nil receiver counts as default, hence the \<open>option\<close>.\<close>

definition IsDefault :: "ResourceLimits option \<Rightarrow> bool" where
  "IsDefault p = (case p of None \<Rightarrow> True
    | Some l \<Rightarrow> rlStreams l = DefaultLimit \<and> rlStreamsInbound l = DefaultLimit
        \<and> rlStreamsOutbound l = DefaultLimit \<and> rlConns l = DefaultLimit
        \<and> rlConnsInbound l = DefaultLimit \<and> rlConnsOutbound l = DefaultLimit
        \<and> rlFD l = DefaultLimit \<and> rlMemory l = DefaultLimit)"

definition ToMaybeNilPtr :: "ResourceLimits option \<Rightarrow> ResourceLimits option" where
  "ToMaybeNilPtr p = (if IsDefault p then None else p)"

definition ResourceLimits_Apply :: "ResourceLimits \<Rightarrow> ResourceLimits \<Rightarrow> ResourceLimits" where
  "ResourceLimits_Apply l l2 =
    \<lparr>rlStreams = (if rlStreams l = DefaultLimit then rlStreams l2 else rlStreams l),
     rlStreamsInbound =
       (if rlStreamsInbound l = DefaultLimit then rlStreamsInbound l2 else rlStreamsInbound l),
     rlStreamsOutbound =
       (if rlStreamsOutbound l = DefaultLimit then rlStreamsOutbound l2 else rlStreamsOutbound l),
     rlConns = (if rlConns l = DefaultLimit then rlConns l2 else rlConns l),
     rlConnsInbound =
       (if rlConnsInbound l = DefaultLimit then rlConnsInbound l2 else rlConnsInbound l),
     rlConnsOutbound =
       (if rlConnsOutbound l = DefaultLimit then rlConnsOutbound l2 else rlConnsOutbound l),
     rlFD = (if rlFD l = DefaultLimit then rlFD l2 else rlFD l),
     rlMemory = (if rlMemory l = DefaultLimit then rlMemory l2 else rlMemory l)\<rparr>"

definition ResourceLimits_Build :: "ResourceLimits option \<Rightarrow> BaseLimit \<Rightarrow> BaseLimit" where
  "ResourceLimits_Build p defaults = (case p of
      None \<Rightarrow>
       \<lparr>Streams = GetStreamTotalLimit defaults,
        StreamsInbound = GetStreamLimit defaults DirInbound,
        StreamsOutbound = GetStreamLimit defaults DirOutbound,
        Conns = GetConnTotalLimit defaults,
        ConnsInbound = GetConnLimit defaults DirInbound,
        ConnsOutbound = GetConnLimit defaults DirOutbound,
        FD = GetFDLimit defaults,
        Memory = GetMemoryLimit defaults\<rparr>
    | Some l \<Rightarrow>
       \<lparr>Streams = LimitVal_Build (rlStreams l) (GetStreamTotalLimit defaults),
        StreamsInbound = LimitVal_Build (rlStreamsInbound l) (GetStreamLimit defaults DirInbound),
        StreamsOutbound =
          LimitVal_Build (rlStreamsOutbound l) (GetStreamLimit defaults DirOutbound),
        Conns = LimitVal_Build (rlConns l) (GetConnTotalLimit defaults),
        ConnsInbound = LimitVal_Build (rlConnsInbound l) (GetConnLimit defaults DirInbound),
        ConnsOutbound = LimitVal_Build (rlConnsOutbound l) (GetConnLimit defaults DirOutbound),
        FD = LimitVal_Build (rlFD l) (GetFDLimit defaults),
        Memory = LimitVal64_Build (rlMemory l) (GetMemoryLimit defaults)\<rparr>)"

section \<open>Configurations\<close>

record PartialLimitConfig =
  System :: ResourceLimits
  Transient :: ResourceLimits
  AllowlistedSystem :: ResourceLimits
  AllowlistedTransient :: ResourceLimits
  ServiceDefault :: ResourceLimits
  Service :: "string \<rightharpoonup> ResourceLimits"
  ServicePeerDefault :: ResourceLimits
  ServicePeer :: "string \<rightharpoonup> ResourceLimits"
  ProtocolDefault :: ResourceLimits
  Protocol :: "protocolID \<rightharpoonup> ResourceLimits"
  ProtocolPeerDefault :: ResourceLimits
  ProtocolPeer :: "protocolID \<rightharpoonup> ResourceLimits"
  PeerDefault :: ResourceLimits
  Peer :: "peerID \<rightharpoonup> ResourceLimits"
  Conn :: ResourceLimits
  Stream :: ResourceLimits

record ConcreteLimitConfig =
  c_system :: BaseLimit
  c_transient :: BaseLimit
  c_allowlistedSystem :: BaseLimit
  c_allowlistedTransient :: BaseLimit
  c_serviceDefault :: BaseLimit
  c_service :: "string \<rightharpoonup> BaseLimit"
  c_servicePeerDefault :: BaseLimit
  c_servicePeer :: "string \<rightharpoonup> BaseLimit"
  c_protocolDefault :: BaseLimit
  c_protocol :: "protocolID \<rightharpoonup> BaseLimit"
  c_protocolPeerDefault :: BaseLimit
  c_protocolPeer :: "protocolID \<rightharpoonup> BaseLimit"
  c_peerDefault :: BaseLimit
  c_peer :: "peerID \<rightharpoonup> BaseLimit"
  c_conn :: BaseLimit
  c_stream :: BaseLimit

definition applyResourceLimitsMap ::
  "('k \<rightharpoonup> ResourceLimits) \<Rightarrow> ('k \<rightharpoonup> ResourceLimits) \<Rightarrow> ResourceLimits \<Rightarrow> ('k \<rightharpoonup> ResourceLimits)"
where
  "applyResourceLimitsMap this other fallbackDefault = (\<lambda>k. case this k of
      Some l \<Rightarrow>
        Some (ResourceLimits_Apply l (case other k of Some l2 \<Rightarrow> l2 | None \<Rightarrow> fallbackDefault))
    | None \<Rightarrow> other k)"

definition PartialLimitConfig_Apply ::
  "PartialLimitConfig \<Rightarrow> PartialLimitConfig \<Rightarrow> PartialLimitConfig"
where
  "PartialLimitConfig_Apply cfg c =
    (let cfg1 = cfg
      \<lparr>System := ResourceLimits_Apply (System cfg) (System c),
       Transient := ResourceLimits_Apply (Transient cfg) (Transient c),
       AllowlistedSystem := ResourceLimits_Apply (AllowlistedSystem cfg) (AllowlistedSystem c),
       AllowlistedTransient :=
         ResourceLimits_Apply (AllowlistedTransient cfg) (AllowlistedTransient c),
       ServiceDefault := ResourceLimits_Apply (ServiceDefault cfg) (ServiceDefault c),
       ServicePeerDefault := ResourceLimits_Apply (ServicePeerDefault cfg) (ServicePeerDefault c),
       ProtocolDefault := ResourceLimits_Apply (ProtocolDefault cfg) (ProtocolDefault c),
       ProtocolPeerDefault :=
         ResourceLimits_Apply (ProtocolPeerDefault cfg) (ProtocolPeerDefault c),
       PeerDefault := ResourceLimits_Apply (PeerDefault cfg) (PeerDefault c),
       Conn := ResourceLimits_Apply (Conn cfg) (Conn c),
       Stream := ResourceLimits_Apply (Stream cfg) (Stream c)\<rparr>
     in cfg1
      \<lparr>Service := applyResourceLimitsMap (Service cfg1) (Service c) (ServiceDefault cfg1),
       ServicePeer :=
         applyResourceLimitsMap (ServicePeer cfg1) (ServicePeer c) (ServicePeerDefault cfg1),
       Protocol := applyResourceLimitsMap (Protocol cfg1) (Protocol c) (ProtocolDefault cfg1),
       ProtocolPeer :=
         applyResourceLimitsMap (ProtocolPeer cfg1) (ProtocolPeer c) (ProtocolPeerDefault cfg1),
       Peer := applyResourceLimitsMap (Peer cfg1) (Peer c) (PeerDefault cfg1)\<rparr>)"

definition buildMapWithDefault ::
  "('k \<rightharpoonup> ResourceLimits) \<Rightarrow> ('k \<rightharpoonup> BaseLimit) \<Rightarrow> BaseLimit \<Rightarrow> ('k \<rightharpoonup> BaseLimit)"
where
  "buildMapWithDefault definedLimits defaults fallbackDefault = (\<lambda>k. case definedLimits k of
      None \<Rightarrow> defaults k
    | Some l \<Rightarrow> (case defaults k of
        Some defaultForKey \<Rightarrow> Some (ResourceLimits_Build (Some l) defaultForKey)
      | None \<Rightarrow> Some (ResourceLimits_Build (Some l) fallbackDefault)))"

definition PartialLimitConfig_Build ::
  "PartialLimitConfig \<Rightarrow> ConcreteLimitConfig \<Rightarrow> ConcreteLimitConfig"
where
  "PartialLimitConfig_Build cfg defaults =
    (let out = defaults
      \<lparr>c_system := ResourceLimits_Build (Some (System cfg)) (c_system defaults),
       c_transient := ResourceLimits_Build (Some (Transient cfg)) (c_transient defaults),
       c_allowlistedSystem :=
         ResourceLimits_Build (Some (AllowlistedSystem cfg)) (c_allowlistedSystem defaults),
       c_allowlistedTransient :=
         ResourceLimits_Build (Some (AllowlistedTransient cfg)) (c_allowlistedTransient defaults),
       c_serviceDefault :=
         ResourceLimits_Build (Some (ServiceDefault cfg)) (c_serviceDefault defaults),
       c_servicePeerDefault :=
         ResourceLimits_Build (Some (ServicePeerDefault cfg)) (c_servicePeerDefault defaults),
       c_protocolDefault :=
         ResourceLimits_Build (Some (ProtocolDefault cfg)) (c_protocolDefault defaults),
       c_protocolPeerDefault :=
         ResourceLimits_Build (Some (ProtocolPeerDefault cfg)) (c_protocolPeerDefault defaults),
       c_peerDefault := ResourceLimits_Build (Some (PeerDefault cfg)) (c_peerDefault defaults),
       c_conn := ResourceLimits_Build (Some (Conn cfg)) (c_conn defaults),
       c_stream := ResourceLimits_Build (Some (Stream cfg)) (c_stream defaults)\<rparr>
     in out
      \<lparr>c_service := buildMapWithDefault (Service cfg) (c_service defaults) (c_serviceDefault out),
       c_servicePeer :=
         buildMapWithDefault (ServicePeer cfg) (c_servicePeer defaults) (c_servicePeerDefault out),
       c_protocol :=
         buildMapWithDefault (Protocol cfg) (c_protocol defaults) (c_protocolDefault out),
       c_protocolPeer :=
         buildMapWithDefault (ProtocolPeer cfg) (c_protocolPeer defaults)
           (c_protocolPeerDefault out),
       c_peer := buildMapWithDefault (Peer cfg) (c_peer defaults) (c_peerDefault out)\<rparr>)"

definition resourceLimitsMapFromBaseLimitMap ::
  "('k \<rightharpoonup> BaseLimit) \<Rightarrow> ('k \<rightharpoonup> ResourceLimits)"
where
  "resourceLimitsMapFromBaseLimitMap baseLimitMap =
    (\<lambda>k. map_option ToResourceLimits (baseLimitMap k))"

definition ToPartialLimitConfig :: "ConcreteLimitConfig \<Rightarrow> PartialLimitConfig" where
  "ToPartialLimitConfig cfg =
    \<lparr>System = ToResourceLimits (c_system cfg),
     Transient = ToResourceLimits (c_transient cfg),
     AllowlistedSystem = ToResourceLimits (c_allowlistedSystem cfg),
     AllowlistedTransient = ToResourceLimits (c_allowlistedTransient cfg),
     ServiceDefault = ToResourceLimits (c_serviceDefault cfg),
     Service = resourceLimitsMapFromBaseLimitMap (c_service cfg),
     ServicePeerDefault = ToResourceLimits (c_servicePeerDefault cfg),
     ServicePeer = resourceLimitsMapFromBaseLimitMap (c_servicePeer cfg),
     ProtocolDefault = ToResourceLimits (c_protocolDefault cfg),
     Protocol = resourceLimitsMapFromBaseLimitMap (c_protocol cfg),
     ProtocolPeerDefault = ToResourceLimits (c_protocolPeerDefault cfg),
     ProtocolPeer = resourceLimitsMapFromBaseLimitMap (c_protocolPeer cfg),
     PeerDefault = ToResourceLimits (c_peerDefault cfg),
     Peer = resourceLimitsMapFromBaseLimitMap (c_peer cfg),
     Conn = ToResourceLimits (c_conn cfg),
     Stream = ToResourceLimits (c_stream cfg)\<rparr>"

section \<open>The fixed limiter\<close>

type_synonym fixedLimiter = ConcreteLimitConfig

definition GetSystemLimits :: "fixedLimiter \<Rightarrow> BaseLimit" where
  "GetSystemLimits l = c_system l"

definition GetTransientLimits :: "fixedLimiter \<Rightarrow> BaseLimit" where
  "GetTransientLimits l = c_transient l"

definition GetAllowlistedSystemLimits :: "fixedLimiter \<Rightarrow> BaseLimit" where
  "GetAllowlistedSystemLimits l = c_allowlistedSystem l"

definition GetAllowlistedTransientLimits :: "fixedLimiter \<Rightarrow> BaseLimit" where
  "GetAllowlistedTransientLimits l = c_allowlistedTransient l"

definition GetServiceLimits :: "fixedLimiter \<Rightarrow> string \<Rightarrow> BaseLimit" where
  "GetServiceLimits l svc =
    (case c_service l svc of None \<Rightarrow> c_serviceDefault l | Some sl \<Rightarrow> sl)"

definition GetServicePeerLimits :: "fixedLimiter \<Rightarrow> string \<Rightarrow> BaseLimit" where
  "GetServicePeerLimits l svc =
    (case c_servicePeer l svc of None \<Rightarrow> c_servicePeerDefault l | Some pl \<Rightarrow> pl)"

definition GetProtocolLimits :: "fixedLimiter \<Rightarrow> protocolID \<Rightarrow> BaseLimit" where
  "GetProtocolLimits l p =
    (case c_protocol l p of None \<Rightarrow> c_protocolDefault l | Some pl \<Rightarrow> pl)"

definition GetProtocolPeerLimits :: "fixedLimiter \<Rightarrow> protocolID \<Rightarrow> BaseLimit" where
  "GetProtocolPeerLimits l p =
    (case c_protocolPeer l p of None \<Rightarrow> c_protocolPeerDefault l | Some pl \<Rightarrow> pl)"

definition GetPeerLimits :: "fixedLimiter \<Rightarrow> peerID \<Rightarrow> BaseLimit" where
  "GetPeerLimits l p = (case c_peer l p of None \<Rightarrow> c_peerDefault l | Some pl \<Rightarrow> pl)"

definition GetStreamLimits :: "fixedLimiter \<Rightarrow> peerID \<Rightarrow> BaseLimit" where
  "GetStreamLimits l p = c_stream l"

definition GetConnLimits :: "fixedLimiter \<Rightarrow> BaseLimit" where
  "GetConnLimits l = c_conn l"

section \<open>Facts\<close>

lemmas limit_vals = DefaultLimit_def Unlimited_def BlockAllLimit_def
lemmas limit_getters =
  GetStreamLimit_def GetStreamTotalLimit_def GetConnLimit_def GetConnTotalLimit_def
  GetFDLimit_def GetMemoryLimit_def

lemma Build_valueOrBlockAll [simp]:
  "0 \<le> n \<Longrightarrow> LimitVal_Build (valueOrBlockAll n) d = n"
  "0 \<le> n \<Longrightarrow> LimitVal64_Build (valueOrBlockAll64 n) d = n"
  by (auto simp: LimitVal_Build_def LimitVal64_Build_def valueOrBlockAll_def
      valueOrBlockAll64_def limit_vals)

text \<open>Limits a configuration can name: none of the sentinel values.\<close>

definition nonneg_limit :: "BaseLimit \<Rightarrow> bool" where
  "nonneg_limit l \<longleftrightarrow> 0 \<le> Streams l \<and> 0 \<le> StreamsInbound l \<and> 0 \<le> StreamsOutbound l
     \<and> 0 \<le> Conns l \<and> 0 \<le> ConnsInbound l \<and> 0 \<le> ConnsOutbound l \<and> 0 \<le> FD l \<and> 0 \<le> Memory l"

definition nonneg_map :: "('k \<rightharpoonup> BaseLimit) \<Rightarrow> bool" where
  "nonneg_map m \<longleftrightarrow> (\<forall>l \<in> ran m. nonneg_limit l)"

definition nonneg_config :: "ConcreteLimitConfig \<Rightarrow> bool" where
  "nonneg_config c \<longleftrightarrow>
     (\<forall>l \<in> {c_system c, c_transient c, c_allowlistedSystem c, c_allowlistedTransient c,
            c_serviceDefault c, c_servicePeerDefault c, c_protocolDefault c,
            c_protocolPeerDefault c, c_peerDefault c, c_conn c, c_stream c}. nonneg_limit l)
     \<and> nonneg_map (c_service c) \<and> nonneg_map (c_servicePeer c) \<and> nonneg_map (c_protocol c)
     \<and> nonneg_map (c_protocolPeer c) \<and> nonneg_map (c_peer c)"

lemma Build_ToResourceLimits [simp]:
  "nonneg_limit l \<Longrightarrow> ResourceLimits_Build (Some (ToResourceLimits l)) d = l"
  by (simp add: ResourceLimits_Build_def ToResourceLimits_def nonneg_limit_def)

lemma buildMap_overlay:
  "nonneg_map m \<Longrightarrow>
     buildMapWithDefault (resourceLimitsMapFromBaseLimitMap m) defaults fb = defaults ++ m"
  by (rule ext) (auto simp: buildMapWithDefault_def resourceLimitsMapFromBaseLimitMap_def
      nonneg_map_def map_add_def ran_def split: option.splits)

lemma LimitVal_Build_layered:
  "LimitVal_Build (if a = DefaultLimit then b else a) d = LimitVal_Build a (LimitVal_Build b d)"
  "LimitVal64_Build (if a = DefaultLimit then b else a) d =
     LimitVal64_Build a (LimitVal64_Build b d)"
  by (auto simp: LimitVal_Build_def LimitVal64_Build_def limit_vals)

text \<open>C19: Turning a concrete configuration into a partial one and building it again over any
  defaults gives the configuration back; a per-name map keeps the defaults' entries for the
  names the configuration does not mention, as \<open>buildMapWithDefault\<close> copies them.\<close>

theorem config_roundtrip:
  assumes "nonneg_config cfg"
  shows "PartialLimitConfig_Build (ToPartialLimitConfig cfg) defaults = cfg
    \<lparr>c_service := c_service defaults ++ c_service cfg,
     c_servicePeer := c_servicePeer defaults ++ c_servicePeer cfg,
     c_protocol := c_protocol defaults ++ c_protocol cfg,
     c_protocolPeer := c_protocolPeer defaults ++ c_protocolPeer cfg,
     c_peer := c_peer defaults ++ c_peer cfg\<rparr>"
  using assms
  by (simp add: nonneg_config_def PartialLimitConfig_Build_def ToPartialLimitConfig_def Let_def
      buildMap_overlay)

text \<open>C20: Overlaying one partial limit on another and then building it over defaults is the
  same as building the lower one first and using the result as the defaults of the upper
  one.\<close>

theorem build_apply_layered:
  "ResourceLimits_Build (Some (ResourceLimits_Apply l l2)) d =
     ResourceLimits_Build (Some l) (ResourceLimits_Build (Some l2) d)"
  by (simp add: ResourceLimits_Build_def ResourceLimits_Apply_def limit_getters
      LimitVal_Build_layered)

definition example_limit :: BaseLimit where
  "example_limit =
    \<lparr>Streams = 4, StreamsInbound = 2, StreamsOutbound = 3, Conns = 4, ConnsInbound = 2,
     ConnsOutbound = 3, FD = 2, Memory = 1024\<rparr>"

definition example_config :: ConcreteLimitConfig where
  "example_config =
    \<lparr>c_system = example_limit, c_transient = example_limit,
     c_allowlistedSystem = example_limit, c_allowlistedTransient = example_limit,
     c_serviceDefault = example_limit, c_service = [''relay'' \<mapsto> example_limit],
     c_servicePeerDefault = example_limit, c_servicePeer = Map.empty,
     c_protocolDefault = example_limit, c_protocol = Map.empty,
     c_protocolPeerDefault = example_limit, c_protocolPeer = Map.empty,
     c_peerDefault = example_limit, c_peer = Map.empty,
     c_conn = example_limit, c_stream = example_limit\<rparr>"

lemma nonneg_example_config: "nonneg_config example_config"
  by (simp add: nonneg_config_def nonneg_map_def nonneg_limit_def example_config_def
      example_limit_def)

theorem config_roundtrip_witness:
  "nonneg_config example_config \<and>
   GetServiceLimits
     (PartialLimitConfig_Build (ToPartialLimitConfig example_config) example_config) ''relay''
     = example_limit"
  using nonneg_example_config config_roundtrip [OF nonneg_example_config, of example_config]
  by (simp add: GetServiceLimits_def example_config_def)

end
