(* ===== verification/Resources.thy ===== *)
theory Resources
  imports Limits
begin

text \<open>
  The resource counters of one scope (the \<open>resources\<close> struct of
  p2p/host/resource-manager/scope.go): what is in use, the limit it is checked against, and
  the reservation and release operations with their overflow-checked arithmetic.  A failed
  reservation is \<open>Inl\<close> of the error and leaves the counters as they were, since the code
  returns before it writes them.
\<close>

section \<open>Errors\<close>

text \<open>
  Which check refused a stream, connection or descriptor reservation: in the code this is the
  message of the error wrapped in \<open>ErrStreamOrConnLimitExceeded\<close>.
\<close>

datatype limit_check =
  StreamInboundCheck | StreamOutboundCheck | StreamTotalCheck
  | ConnInboundCheck | ConnOutboundCheck | ConnTotalCheck | FDCheck

datatype rcmgr_error =
    ErrNegativeMemory int
  | ErrMemoryLimitExceeded int int int "8 word"
  | ErrStreamOrConnLimitExceeded limit_check int int int
  | ErrResourceScopeClosed
  | WrapError string rcmgr_error

section \<open>Overflow-checked arithmetic\<close>

definition addInt64WithOverflow :: "int \<Rightarrow> int \<Rightarrow> int \<times> bool" where
  "addInt64WithOverflow a b = (let c = add64 a b in (c, (c > a) = (b > 0)))"

definition mulInt64WithOverflow :: "int \<Rightarrow> int \<Rightarrow> int \<times> bool" where
  "mulInt64WithOverflow a b =
    (let c = mul64 a b in
     if a = 0 \<or> b = 0 \<or> a = 1 \<or> b = 1 then (c, True)
     else if a = MinInt64 \<or> b = MinInt64 then (c, False)
     else (c, quot64 c b = a))"

section \<open>Counters\<close>

record resources =
  limit :: BaseLimit
  nconnsIn :: int
  nconnsOut :: int
  nstreamsIn :: int
  nstreamsOut :: int
  nfd :: int
  memory :: int

record ScopeStat =
  NumStreamsInbound :: int
  NumStreamsOutbound :: int
  NumConnsInbound :: int
  NumConnsOutbound :: int
  NumFD :: int
  MemoryStat :: int

definition empty_resources :: "BaseLimit \<Rightarrow> resources" where
  "empty_resources l =
    \<lparr>limit = l, nconnsIn = 0, nconnsOut = 0, nstreamsIn = 0, nstreamsOut = 0, nfd = 0,
     memory = 0\<rparr>"

definition empty_stat :: ScopeStat where
  "empty_stat =
    \<lparr>NumStreamsInbound = 0, NumStreamsOutbound = 0, NumConnsInbound = 0,
     NumConnsOutbound = 0, NumFD = 0, MemoryStat = 0\<rparr>"

text \<open>The threshold is the share (1 + prio) / 256 of the limit; when the product does not fit
  into 64 bits the code recomputes it with unbounded integers.\<close>

definition checkMemory :: "resources \<Rightarrow> int \<Rightarrow> 8 word \<Rightarrow> rcmgr_error option" where
  "checkMemory rc rsvp prio =
    (if rsvp < 0 then Some (ErrNegativeMemory rsvp)
     else
       let lim = GetMemoryLimit (limit rc) in
       if lim = MaxInt64 then None
       else
         let (newmem, addOk) = addInt64WithOverflow (memory rc) rsvp;
             (product, mulOk) = mulInt64WithOverflow (1 + uint prio) lim;
             threshold =
               (if \<not> mulOk then wrap64 ((lim * (1 + uint prio)) div 256) else quot64 product 256)
         in if \<not> addOk \<or> newmem > threshold
            then Some (ErrMemoryLimitExceeded (memory rc) rsvp lim prio)
            else None)"

definition reserveMemory :: "resources \<Rightarrow> int \<Rightarrow> 8 word \<Rightarrow> rcmgr_error + resources" where
  "reserveMemory rc sz prio = (case checkMemory rc sz prio of
      Some err \<Rightarrow> Inl err
    | None \<Rightarrow> Inr (rc\<lparr>memory := add64 (memory rc) sz\<rparr>))"

definition releaseMemory :: "resources \<Rightarrow> int \<Rightarrow> resources" where
  "releaseMemory rc sz =
    (let m = sub64 (memory rc) sz in rc\<lparr>memory := (if m < 0 then 0 else m)\<rparr>)"

definition addStreams :: "resources \<Rightarrow> int \<Rightarrow> int \<Rightarrow> rcmgr_error + resources" where
  "addStreams rc incount outcount =
    (let limIn = GetStreamLimit (limit rc) DirInbound;
         limOut = GetStreamLimit (limit rc) DirOutbound;
         limTotal = GetStreamTotalLimit (limit rc)
     in if incount > 0 \<and> add64 (nstreamsIn rc) incount > limIn
        then Inl (ErrStreamOrConnLimitExceeded StreamInboundCheck (nstreamsIn rc) incount limIn)
        else if outcount > 0 \<and> add64 (nstreamsOut rc) outcount > limOut
        then Inl (ErrStreamOrConnLimitExceeded StreamOutboundCheck (nstreamsOut rc) outcount limOut)
        else if add64 (add64 (add64 (nstreamsIn rc) incount) (nstreamsOut rc)) outcount > limTotal
        then Inl (ErrStreamOrConnLimitExceeded StreamTotalCheck
                    (add64 (nstreamsIn rc) (nstreamsOut rc)) (add64 incount outcount) limTotal)
        else Inr (rc\<lparr>nstreamsIn := add64 (nstreamsIn rc) incount,
                     nstreamsOut := add64 (nstreamsOut rc) outcount\<rparr>))"

definition addStream :: "resources \<Rightarrow> Direction \<Rightarrow> rcmgr_error + resources" where
  "addStream rc dir = (if dir = DirInbound then addStreams rc 1 0 else addStreams rc 0 1)"

definition removeStreams :: "resources \<Rightarrow> int \<Rightarrow> int \<Rightarrow> resources" where
  "removeStreams rc incount outcount =
    (let i = sub64 (nstreamsIn rc) incount; out = sub64 (nstreamsOut rc) outcount
     in rc\<lparr>nstreamsIn := (if i < 0 then 0 else i), nstreamsOut := (if out < 0 then 0 else out)\<rparr>)"

definition removeStream :: "resources \<Rightarrow> Direction \<Rightarrow> resources" where
  "removeStream rc dir = (if dir = DirInbound then removeStreams rc 1 0 else removeStreams rc 0 1)"

definition addConns :: "resources \<Rightarrow> int \<Rightarrow> int \<Rightarrow> int \<Rightarrow> rcmgr_error + resources" where
  "addConns rc incount outcount fdcount =
    (let limIn = GetConnLimit (limit rc) DirInbound;
         limOut = GetConnLimit (limit rc) DirOutbound;
         connLimit = GetConnTotalLimit (limit rc);
         limFD = GetFDLimit (limit rc)
     in if incount > 0 \<and> add64 (nconnsIn rc) incount > limIn
        then Inl (ErrStreamOrConnLimitExceeded ConnInboundCheck (nconnsIn rc) incount limIn)
        else if outcount > 0 \<and> add64 (nconnsOut rc) outcount > limOut
        then Inl (ErrStreamOrConnLimitExceeded ConnOutboundCheck (nconnsOut rc) outcount limOut)
        else if add64 (add64 (add64 (nconnsIn rc) incount) (nconnsOut rc)) outcount > connLimit
        then Inl (ErrStreamOrConnLimitExceeded ConnTotalCheck
                    (add64 (nconnsIn rc) (nconnsOut rc)) (add64 incount outcount) connLimit)
        else if fdcount > 0 \<and> add64 (nfd rc) fdcount > limFD
        then Inl (ErrStreamOrConnLimitExceeded FDCheck (nfd rc) fdcount limFD)
        else Inr (rc\<lparr>nconnsIn := add64 (nconnsIn rc) incount,
                     nconnsOut := add64 (nconnsOut rc) outcount,
                     nfd := add64 (nfd rc) fdcount\<rparr>))"

definition addConn :: "resources \<Rightarrow> Direction \<Rightarrow> bool \<Rightarrow> rcmgr_error + resources" where
  "addConn rc dir usefd =
    (let fd = (if usefd then 1 else 0)
     in if dir = DirInbound then addConns rc 1 0 fd else addConns rc 0 1 fd)"

definition removeConns :: "resources \<Rightarrow> int \<Rightarrow> int \<Rightarrow> int \<Rightarrow> resources" where
  "removeConns rc incount outcount fdcount =
    (let i = sub64 (nconnsIn rc) incount; out = sub64 (nconnsOut rc) outcount;
         fd = sub64 (nfd rc) fdcount
     in rc\<lparr>nconnsIn := (if i < 0 then 0 else i), nconnsOut := (if out < 0 then 0 else out),
           nfd := (if fd < 0 then 0 else fd)\<rparr>)"

definition removeConn :: "resources \<Rightarrow> Direction \<Rightarrow> bool \<Rightarrow> resources" where
  "removeConn rc dir usefd =
    (let fd = (if usefd then 1 else 0)
     in if dir = DirInbound then removeConns rc 1 0 fd else removeConns rc 0 1 fd)"

definition stat :: "resources \<Rightarrow> ScopeStat" where
  "stat rc =
    \<lparr>NumStreamsInbound = nstreamsIn rc, NumStreamsOutbound = nstreamsOut rc,
     NumConnsInbound = nconnsIn rc, NumConnsOutbound = nconnsOut rc, NumFD = nfd rc,
     MemoryStat = memory rc\<rparr>"

section \<open>The arithmetic is exact\<close>

lemma addInt64WithOverflow_exact:
  assumes "int64_range a" and "int64_range b"
  shows "snd (addInt64WithOverflow a b) \<longleftrightarrow> int64_range (a + b)"
proof -
  consider (fits) "int64_range (a + b)"
    | (over) "a + b \<ge> 2 ^ 63" "0 < b" | (under) "a + b < - (2 ^ 63)" "b < 0"
    using assms unfolding int64_range_def by linarith
  then show ?thesis
  proof cases
    case fits
    then show ?thesis by (auto simp: addInt64WithOverflow_def add64_exact)
  next
    case over
    then have "add64 a b = a + b - 2 ^ 64"
      using assms wrap64_add_multiple [of "a + b - 2 ^ 64" 1]
      by (simp add: add64_def wrap64_id int64_range_def)
    then show ?thesis
      using over assms by (simp add: addInt64WithOverflow_def int64_range_def)
  next
    case under
    then have "add64 a b = a + b + 2 ^ 64"
      using assms wrap64_add_multiple [of "a + b + 2 ^ 64" "- 1"]
      by (simp add: add64_def wrap64_id int64_range_def)
    then show ?thesis
      using under assms by (simp add: addInt64WithOverflow_def int64_range_def)
  qed
qed

lemma quot_wrap_mult_neq:
  assumes "int64_range b" and "b \<noteq> 0" and "\<not> int64_range (a * b)"
  shows "quot (wrap64 (a * b)) b \<noteq> a"
proof
  assume eq: "quot (wrap64 (a * b)) b = a"
  obtain k where k: "wrap64 (a * b) = a * b - k * 2 ^ 64" by (rule wrap64_cong)
  have "k \<noteq> 0" using k assms(3) int64_range_wrap64 [of "a * b"] by auto
  then have "2 ^ 64 \<le> \<bar>k * 2 ^ 64\<bar>" by (simp add: abs_mult)
  moreover have "\<bar>wrap64 (a * b) - a * b\<bar> < \<bar>b\<bar>"
    using quot_remainder [OF assms(2), of "wrap64 (a * b)"] by (simp add: eq)
  ultimately show False using k assms(1) by (auto simp: int64_range_def)
qed

lemma quot_abs_half:
  assumes "b \<noteq> 0" and "b \<noteq> 1" and "b \<noteq> - 1"
  shows "\<bar>quot c b\<bar> \<le> \<bar>c\<bar> div 2"
proof -
  have "2 \<le> \<bar>b\<bar>" using assms by auto
  then have "\<bar>c\<bar> div \<bar>b\<bar> \<le> \<bar>c\<bar> div 2" by (intro zdiv_mono2) auto
  moreover have "0 \<le> \<bar>c\<bar> div \<bar>b\<bar>" using assms(1) by (simp add: pos_imp_zdiv_nonneg_iff)
  ultimately show ?thesis by (auto simp: quot_def abs_mult sgn_if)
qed

lemma mulInt64WithOverflow_exact:
  assumes "int64_range a" and "int64_range b"
  shows "snd (mulInt64WithOverflow a b) \<longleftrightarrow> int64_range (a * b)"
proof (cases "a = 0 \<or> b = 0 \<or> a = 1 \<or> b = 1")
  case True
  with assms show ?thesis
    by (auto simp: mulInt64WithOverflow_def Let_def int64_range_def)
next
  case False
  show ?thesis
  proof (cases "a = MinInt64 \<or> b = MinInt64")
    case True
    with assms False have "\<not> int64_range (a * b)"
      by (auto simp: int64_range_def)
    with True False show ?thesis by (auto simp: mulInt64WithOverflow_def Let_def)
  next
    case False2: False
    show ?thesis
    proof (cases "int64_range (a * b)")
      case True
      then have "quot64 (mul64 a b) b = a"
        using False assms by (simp add: quot64_def mul64_exact quot_mult_cancel wrap64_id)
      with True False False2 show ?thesis by (auto simp: mulInt64WithOverflow_def Let_def)
    next
      case False3: False
      let ?c = "wrap64 (a * b)"
      have ne: "quot ?c b \<noteq> a"
        using quot_wrap_mult_neq assms False False3 by auto
      have "b \<noteq> - 1"
        using False3 False2 assms(1) by (auto simp: int64_range_def)
      then have "int64_range (quot ?c b)"
        using False quot_abs_half [of b ?c] int64_range_wrap64 [of "a * b"]
        by (auto simp: int64_range_def)
      then have "quot64 (mul64 a b) b \<noteq> a"
        using ne by (simp add: quot64_def mul64_def wrap64_id)
      with False False2 False3 show ?thesis by (auto simp: mulInt64WithOverflow_def Let_def)
    qed
  qed
qed

section \<open>Well-formed counters\<close>

text \<open>Every counter is a non-negative 64-bit number.\<close>

definition counter_ok :: "int \<Rightarrow> bool" where
  "counter_ok n \<longleftrightarrow> 0 \<le> n \<and> n \<le> MaxInt64"

definition rc_wf :: "resources \<Rightarrow> bool" where
  "rc_wf rc \<longleftrightarrow> counter_ok (nconnsIn rc) \<and> counter_ok (nconnsOut rc)
     \<and> counter_ok (nstreamsIn rc) \<and> counter_ok (nstreamsOut rc)
     \<and> counter_ok (nfd rc) \<and> counter_ok (memory rc)"

definition within_limits :: "resources \<Rightarrow> bool" where
  "within_limits rc \<longleftrightarrow> (let l = limit rc in
     nstreamsIn rc \<le> StreamsInbound l \<and> nstreamsOut rc \<le> StreamsOutbound l
     \<and> nstreamsIn rc + nstreamsOut rc \<le> Streams l
     \<and> nconnsIn rc \<le> ConnsInbound l \<and> nconnsOut rc \<le> ConnsOutbound l
     \<and> nconnsIn rc + nconnsOut rc \<le> Conns l
     \<and> nfd rc \<le> FD l \<and> memory rc \<le> Memory l)"

lemma counter_ok_range [simp]: "counter_ok n \<Longrightarrow> int64_range n"
  by (simp add: counter_ok_def int64_range_def)

lemma counter_ok_0 [simp]: "counter_ok 0"
  by (simp add: counter_ok_def)

lemma counter_ok_clamp [simp]: "counter_ok (if sub64 a b < 0 then 0 else sub64 a b)"
  using int64_range_sub64 [of a b] by (auto simp: counter_ok_def int64_range_def)

lemma clamp_sub64_add64:
  "counter_ok n \<Longrightarrow> (if sub64 (add64 n k) k < 0 then 0 else sub64 (add64 n k) k) = n"
  by (simp add: sub64_add64 counter_ok_def int64_range_def)

lemma rc_wf_empty [simp]: "rc_wf (empty_resources l)"
  by (simp add: rc_wf_def empty_resources_def)

lemma within_limits_empty: "nonneg_limit l \<Longrightarrow> within_limits (empty_resources l)"
  by (simp add: within_limits_def empty_resources_def nonneg_limit_def)

lemmas resource_ops =
  reserveMemory_def releaseMemory_def addStreams_def addStream_def removeStreams_def
  removeStream_def addConns_def addConn_def removeConns_def removeConn_def Let_def

lemma rc_wf_release [simp]:
  "rc_wf rc \<Longrightarrow> rc_wf (releaseMemory rc k)"
  "rc_wf rc \<Longrightarrow> rc_wf (removeStreams rc i out)"
  "rc_wf rc \<Longrightarrow> rc_wf (removeConns rc i out fd)"
  by (simp_all add: rc_wf_def releaseMemory_def removeStreams_def removeConns_def Let_def
      del: if_split)

section \<open>The reservation contract\<close>

text \<open>
  What a scope relies on when it charges a reservation to its own counters, then to its
  parents, and takes it back when a parent refuses: releasing what was just reserved restores
  the counters exactly.
\<close>

locale reservable =
  fixes try_rc :: "resources \<Rightarrow> rcmgr_error + resources"
    and undo_rc :: "resources \<Rightarrow> resources"
  assumes undo_try: "rc_wf r \<Longrightarrow> try_rc r = Inr r' \<Longrightarrow> undo_rc r' = r"
    and try_limit: "try_rc r = Inr r' \<Longrightarrow> limit r' = limit r"
    and undo_limit: "limit (undo_rc r) = limit r"
    and undo_wf: "rc_wf r \<Longrightarrow> rc_wf (undo_rc r)"

interpretation mem: reservable "\<lambda>rc. reserveMemory rc sz prio" "\<lambda>rc. releaseMemory rc sz"
  for sz prio
proof
  fix r r'
  show "rc_wf r \<Longrightarrow> reserveMemory r sz prio = Inr r' \<Longrightarrow> releaseMemory r' sz = r"
    by (auto simp: resource_ops rc_wf_def sub64_add64 counter_ok_def int64_range_def
        split: option.splits)
  show "reserveMemory r sz prio = Inr r' \<Longrightarrow> limit r' = limit r"
    by (auto simp: resource_ops split: option.splits)
qed (simp_all add: releaseMemory_def Let_def rc_wf_def del: if_split)

lemma addStreams_limit: "addStreams r i out = Inr r' \<Longrightarrow> limit r' = limit r"
  by (auto simp: addStreams_def Let_def split: if_splits)

lemma addConns_limit: "addConns r i out fd = Inr r' \<Longrightarrow> limit r' = limit r"
  by (auto simp: addConns_def Let_def split: if_splits)

lemma removeStreams_addStreams:
  "rc_wf r \<Longrightarrow> addStreams r i out = Inr r' \<Longrightarrow> removeStreams r' i out = r"
  by (auto simp: addStreams_def removeStreams_def Let_def rc_wf_def sub64_add64
      counter_ok_def int64_range_def split: if_split_asm)

lemma removeConns_addConns:
  "rc_wf r \<Longrightarrow> addConns r i out fd = Inr r' \<Longrightarrow> removeConns r' i out fd = r"
  by (auto simp: addConns_def removeConns_def Let_def rc_wf_def sub64_add64
      counter_ok_def int64_range_def split: if_split_asm)

lemma remove_limit [simp]:
  "limit (releaseMemory r k) = limit r"
  "limit (removeStreams r i out) = limit r"
  "limit (removeConns r i out fd) = limit r"
  by (simp_all add: releaseMemory_def removeStreams_def removeConns_def Let_def)

interpretation str: reservable "\<lambda>rc. addStream rc dir" "\<lambda>rc. removeStream rc dir" for dir
  by unfold_locales (auto simp: addStream_def removeStream_def removeStreams_addStreams
      addStreams_limit split: if_splits)

interpretation con: reservable "\<lambda>rc. addConn rc dir usefd" "\<lambda>rc. removeConn rc dir usefd"
  for dir usefd
  by unfold_locales (auto simp: addConn_def removeConn_def Let_def removeConns_addConns
      addConns_limit split: if_splits)

section \<open>What is accepted\<close>

lemma threshold_exact:
  fixes prio :: "8 word"
  assumes "0 \<le> lim" and "int64_range lim"
  shows "(case mulInt64WithOverflow (1 + uint prio) lim of (product, mulOk) \<Rightarrow>
            if \<not> mulOk then wrap64 ((lim * (1 + uint prio)) div 256) else quot64 product 256)
         = lim * (1 + uint prio) div 256" (is "?t = ?e")
proof -
  let ?p = "1 + uint prio"
  have p: "1 \<le> ?p" "?p \<le> 256" using uint_lt2p [of prio] by auto
  have "lim * ?p \<le> lim * 256" using assms(1) p by (intro mult_left_mono) auto
  then have le: "?e \<le> lim" by simp
  have ge: "0 \<le> ?e" using assms(1) p by (simp add: pos_imp_zdiv_nonneg_iff)
  then have fits: "int64_range ?e" using le assms by (simp add: int64_range_def)
  have ok: "snd (mulInt64WithOverflow ?p lim) \<longleftrightarrow> int64_range (lim * ?p)"
    using mulInt64WithOverflow_exact [of ?p lim] assms p
    by (simp add: int64_range_def mult.commute)
  have prod: "fst (mulInt64WithOverflow ?p lim) = mul64 ?p lim"
    by (simp add: mulInt64WithOverflow_def Let_def)
  show ?thesis
  proof (cases "int64_range (lim * ?p)")
    case True
    then have "mul64 ?p lim = lim * ?p" by (simp add: mul64_def wrap64_id mult.commute)
    then show ?thesis
      using True ok prod fits assms p
      by (simp add: split_beta quot64_def wrap64_id)
  next
    case False
    then show ?thesis using ok fits by (simp add: split_beta wrap64_id)
  qed
qed

lemma checkMemory_None_iff:
  assumes "rc_wf rc" and "int64_range rsvp"
    and lim: "0 \<le> Memory (limit rc)" "int64_range (Memory (limit rc))"
  shows "checkMemory rc rsvp prio = None \<longleftrightarrow>
     0 \<le> rsvp \<and> (Memory (limit rc) = MaxInt64
       \<or> memory rc + rsvp \<le> Memory (limit rc) * (1 + uint prio) div 256)"
proof -
  let ?m = "memory rc" and ?lim = "Memory (limit rc)"
  let ?t = "?lim * (1 + uint prio) div 256"
  have "?lim * (1 + uint prio) \<le> ?lim * 256"
    using lim(1) uint_lt2p [of prio] by (intro mult_left_mono) auto
  then have t: "?t \<le> ?lim" by simp
  have m: "int64_range ?m" "0 \<le> ?m"
    using assms(1) by (auto simp: rc_wf_def counter_ok_def int64_range_def)
  have ok: "snd (addInt64WithOverflow ?m rsvp) \<longleftrightarrow> int64_range (?m + rsvp)"
    using addInt64WithOverflow_exact m assms(2) by simp
  have sum: "fst (addInt64WithOverflow ?m rsvp) = add64 ?m rsvp"
    by (simp add: addInt64WithOverflow_def Let_def)
  have key: "0 \<le> rsvp \<Longrightarrow>
      (int64_range (?m + rsvp) \<and> add64 ?m rsvp \<le> ?t) \<longleftrightarrow> ?m + rsvp \<le> ?t"
    using m t lim by (auto simp: add64_exact int64_range_def)
  show ?thesis
    using key ok sum threshold_exact [OF lim, of prio]
    by (auto simp: checkMemory_def GetMemoryLimit_def Let_def split_beta not_less)
qed

lemma reserveMemory_Inr_iff:
  assumes "rc_wf rc" and "int64_range rsvp"
    and "0 \<le> Memory (limit rc)" "int64_range (Memory (limit rc))"
  shows "(\<exists>rc'. reserveMemory rc rsvp prio = Inr rc') \<longleftrightarrow>
     0 \<le> rsvp \<and> (Memory (limit rc) = MaxInt64
       \<or> memory rc + rsvp \<le> Memory (limit rc) * (1 + uint prio) div 256)"
  using checkMemory_None_iff [OF assms, of prio]
  by (auto simp: reserveMemory_def split: option.splits)

text \<open>With room to count, the 64-bit sums of the stream and connection checks are plain
  sums.\<close>

lemma addStreams_Inr:
  assumes "rc_wf rc" "0 \<le> i" "0 \<le> out"
    and "nstreamsIn rc + nstreamsOut rc + i + out \<le> MaxInt64"
  shows "addStreams rc i out = Inr rc' \<longleftrightarrow>
     (0 < i \<longrightarrow> nstreamsIn rc + i \<le> StreamsInbound (limit rc)) \<and>
     (0 < out \<longrightarrow> nstreamsOut rc + out \<le> StreamsOutbound (limit rc)) \<and>
     nstreamsIn rc + nstreamsOut rc + i + out \<le> Streams (limit rc) \<and>
     rc' = rc\<lparr>nstreamsIn := nstreamsIn rc + i, nstreamsOut := nstreamsOut rc + out\<rparr>"
proof -
  have "add64 (nstreamsIn rc) i = nstreamsIn rc + i"
    "add64 (nstreamsOut rc) out = nstreamsOut rc + out"
    "add64 (nstreamsIn rc + i) (nstreamsOut rc) = nstreamsIn rc + i + nstreamsOut rc"
    "add64 (nstreamsIn rc + i + nstreamsOut rc) out = nstreamsIn rc + i + nstreamsOut rc + out"
    using assms by (auto simp: rc_wf_def counter_ok_def int64_range_def intro!: add64_exact)
  then show ?thesis
    by (auto simp: addStreams_def Let_def GetStreamLimit_def GetStreamTotalLimit_def not_less
        algebra_simps)
qed

lemma addConns_Inr:
  assumes "rc_wf rc" "0 \<le> i" "0 \<le> out" "0 \<le> fd"
    and "nconnsIn rc + nconnsOut rc + i + out \<le> MaxInt64" "nfd rc + fd \<le> MaxInt64"
  shows "addConns rc i out fd = Inr rc' \<longleftrightarrow>
     (0 < i \<longrightarrow> nconnsIn rc + i \<le> ConnsInbound (limit rc)) \<and>
     (0 < out \<longrightarrow> nconnsOut rc + out \<le> ConnsOutbound (limit rc)) \<and>
     nconnsIn rc + nconnsOut rc + i + out \<le> Conns (limit rc) \<and>
     (0 < fd \<longrightarrow> nfd rc + fd \<le> FD (limit rc)) \<and>
     rc' = rc\<lparr>nconnsIn := nconnsIn rc + i, nconnsOut := nconnsOut rc + out, nfd := nfd rc + fd\<rparr>"
proof -
  have "add64 (nconnsIn rc) i = nconnsIn rc + i"
    "add64 (nconnsOut rc) out = nconnsOut rc + out"
    "add64 (nfd rc) fd = nfd rc + fd"
    "add64 (nconnsIn rc + i) (nconnsOut rc) = nconnsIn rc + i + nconnsOut rc"
    "add64 (nconnsIn rc + i + nconnsOut rc) out = nconnsIn rc + i + nconnsOut rc + out"
    using assms by (auto simp: rc_wf_def counter_ok_def int64_range_def intro!: add64_exact)
  then show ?thesis
    by (auto simp: addConns_def Let_def GetConnLimit_def GetConnTotalLimit_def GetFDLimit_def
        not_less algebra_simps)
qed

section \<open>No sequence of operations exceeds a limit\<close>

text \<open>
  The states the counters of a scope can reach: they start empty and move by the operations of
  the struct, a refused reservation leaving them as they are.  A reservation is asked with
  non-negative amounts that a 64-bit counter can hold.
\<close>

inductive rc_reach :: "BaseLimit \<Rightarrow> resources \<Rightarrow> bool" for l where
  start: "rc_reach l (empty_resources l)"
| reserveMemory: "rc_reach l rc \<Longrightarrow> int64_range sz \<Longrightarrow> memory rc + sz \<le> MaxInt64 \<Longrightarrow>
    reserveMemory rc sz prio = Inr rc' \<Longrightarrow> rc_reach l rc'"
| releaseMemory: "rc_reach l rc \<Longrightarrow> counter_ok sz \<Longrightarrow> rc_reach l (releaseMemory rc sz)"
| addStreams: "rc_reach l rc \<Longrightarrow> 0 \<le> i \<Longrightarrow> 0 \<le> out \<Longrightarrow>
    nstreamsIn rc + nstreamsOut rc + i + out \<le> MaxInt64 \<Longrightarrow>
    addStreams rc i out = Inr rc' \<Longrightarrow> rc_reach l rc'"
| removeStreams: "rc_reach l rc \<Longrightarrow> counter_ok i \<Longrightarrow> counter_ok out \<Longrightarrow>
    rc_reach l (removeStreams rc i out)"
| addConns: "rc_reach l rc \<Longrightarrow> 0 \<le> i \<Longrightarrow> 0 \<le> out \<Longrightarrow> 0 \<le> fd \<Longrightarrow>
    nconnsIn rc + nconnsOut rc + i + out \<le> MaxInt64 \<Longrightarrow> nfd rc + fd \<le> MaxInt64 \<Longrightarrow>
    addConns rc i out fd = Inr rc' \<Longrightarrow> rc_reach l rc'"
| removeConns: "rc_reach l rc \<Longrightarrow> counter_ok i \<Longrightarrow> counter_ok out \<Longrightarrow> counter_ok fd \<Longrightarrow>
    rc_reach l (removeConns rc i out fd)"

lemma clamp_sub64:
  "counter_ok n \<Longrightarrow> counter_ok k \<Longrightarrow> (if sub64 n k < 0 then 0 else sub64 n k) = max 0 (n - k)"
  by (simp add: sub64_exact counter_ok_def int64_range_def)

lemma within_limits_release:
  assumes "rc_wf rc" "within_limits rc"
  shows "counter_ok k \<Longrightarrow> within_limits (releaseMemory rc k)"
    and "counter_ok i \<Longrightarrow> counter_ok out \<Longrightarrow> within_limits (removeStreams rc i out)"
    and "counter_ok i \<Longrightarrow> counter_ok out \<Longrightarrow> counter_ok fd \<Longrightarrow>
           within_limits (removeConns rc i out fd)"
  using assms
  by (auto simp: within_limits_def releaseMemory_def removeStreams_def removeConns_def Let_def
      rc_wf_def clamp_sub64 counter_ok_def int64_range_def sub64_exact)

lemma within_limits_reserveMemory:
  assumes "rc_wf rc" "within_limits rc" "int64_range sz" "memory rc + sz \<le> MaxInt64"
    and lim: "0 \<le> Memory (limit rc)" "int64_range (Memory (limit rc))"
    and res: "reserveMemory rc sz prio = Inr rc'"
  shows "rc_wf rc' \<and> within_limits rc'"
proof -
  have acc: "0 \<le> sz \<and> (Memory (limit rc) = MaxInt64
       \<or> memory rc + sz \<le> Memory (limit rc) * (1 + uint prio) div 256)"
    using reserveMemory_Inr_iff [OF assms(1,3) lim] res by blast
  have "Memory (limit rc) * (1 + uint prio) \<le> Memory (limit rc) * 256"
    using lim(1) uint_lt2p [of prio] by (intro mult_left_mono) auto
  then have "memory rc + sz \<le> Memory (limit rc)" using acc assms(4) by auto
  moreover have "rc' = rc\<lparr>memory := memory rc + sz\<rparr>"
    using res acc assms(1,4)
    by (auto simp: reserveMemory_def add64_exact rc_wf_def counter_ok_def int64_range_def
        split: option.splits)
  ultimately show ?thesis
    using assms(1,2,4) acc by (simp add: rc_wf_def counter_ok_def within_limits_def Let_def)
qed

lemma within_limits_add:
  assumes "rc_wf rc" "within_limits rc" "0 \<le> i" "0 \<le> out"
  shows "nstreamsIn rc + nstreamsOut rc + i + out \<le> MaxInt64 \<Longrightarrow>
      addStreams rc i out = Inr rc' \<Longrightarrow> rc_wf rc' \<and> within_limits rc'"
    and "0 \<le> fd \<Longrightarrow> nconnsIn rc + nconnsOut rc + i + out \<le> MaxInt64 \<Longrightarrow> nfd rc + fd \<le> MaxInt64 \<Longrightarrow>
      addConns rc i out fd = Inr rc' \<Longrightarrow> rc_wf rc' \<and> within_limits rc'"
  using assms
  by (auto simp: addStreams_Inr addConns_Inr rc_wf_def counter_ok_def within_limits_def Let_def)

lemma rc_reach_limit: "rc_reach l rc \<Longrightarrow> limit rc = l"
  by (induction rule: rc_reach.induct)
    (simp_all add: empty_resources_def addStreams_limit addConns_limit mem.try_limit)

lemma rc_reach_invariant:
  assumes "rc_reach l rc" and "nonneg_limit l" and "Memory l \<le> MaxInt64"
  shows "rc_wf rc \<and> within_limits rc"
  using assms
proof (induction rule: rc_reach.induct)
  case start
  then show ?case by (simp add: within_limits_empty)
next
  case (reserveMemory rc sz prio rc')
  then have "limit rc = l" using rc_reach_limit by blast
  then show ?case
    using reserveMemory within_limits_reserveMemory [of rc sz prio rc']
    by (simp add: nonneg_limit_def int64_range_def)
next
  case (addStreams rc i out rc')
  then show ?case using within_limits_add(1) by blast
next
  case (addConns rc i out fd rc')
  then show ?case using within_limits_add(2) by blast
qed (simp_all add: within_limits_release)

section \<open>Properties\<close>

text \<open>The overflow flag of \<open>mulInt64WithOverflow\<close> is exact: it is set precisely when the
  product of two 64-bit integers fits into 64 bits, and then the result is that product.\<close>

theorem mul_overflow_exact:
  assumes "int64_range a" and "int64_range b"
  shows "(snd (mulInt64WithOverflow a b) \<longleftrightarrow> int64_range (a * b))
    \<and> (int64_range (a * b) \<longrightarrow> fst (mulInt64WithOverflow a b) = a * b)"
  using mulInt64WithOverflow_exact [OF assms]
  by (simp add: mulInt64WithOverflow_def Let_def mul64_exact)

theorem mul_overflow_exact_witness:
  "int64_range 4611686018427387904 \<and> int64_range 2 \<and>
   \<not> snd (mulInt64WithOverflow 4611686018427387904 2)"
  using mul_overflow_exact [of 4611686018427387904 2] by (simp add: int64_range_def)



text \<open>However a scope's counters are driven, every counter stays a non-negative 64-bit
  number and no inbound, outbound, total, descriptor or memory limit is ever exceeded.\<close>

theorem counters_within_limits:
  assumes "rc_reach l rc" and "nonneg_limit l" and "Memory l \<le> MaxInt64"
  shows "rc_wf rc \<and> within_limits rc \<and> limit rc = l"
  using rc_reach_invariant [OF assms] rc_reach_limit [OF assms(1)] by simp

lemma rc_reach_example:
  "rc_reach example_limit ((empty_resources example_limit)\<lparr>nstreamsIn := 1, nstreamsOut := 2\<rparr>)"
  by (rule rc_reach.addStreams [OF rc_reach.start, of 1 2])
    (simp_all add: empty_resources_def addStreams_def example_limit_def GetStreamLimit_def
      GetStreamTotalLimit_def add64_exact int64_range_def)

theorem counters_within_limits_witness:
  "rc_reach example_limit ((empty_resources example_limit)\<lparr>nstreamsIn := 1, nstreamsOut := 2\<rparr>) \<and>
   within_limits ((empty_resources example_limit)\<lparr>nstreamsIn := 1, nstreamsOut := 2\<rparr>)"
  using counters_within_limits [OF rc_reach_example] rc_reach_example
  by (simp add: nonneg_limit_def example_limit_def)

end
