(* ===== verification/Scope.thy ===== *)
theory Scope
  imports Resources
begin

text \<open>
  Resource scopes (the \<open>resourceScope\<close> type of p2p/host/resource-manager/scope.go).  Scopes are
  shared through pointers, so they live in a store, a list in which a pointer is an index and a
  new scope is appended.  A span has an owner; any other scope has a linearised list of parents,
  its edges.  Each method runs under the mutexes of the scopes it touches and is one step of the
  model.  A result \<open>None\<close> is a call that does not return: a dangling pointer, or an owner
  chain that comes back to a scope whose mutex is held.  The trace and the metrics, which only
  observe, are left out; reference counts and span numbers are unbounded.
\<close>

type_synonym sid = nat

record rscope =
  scDone :: bool
  scRefCnt :: int
  scSpanID :: int
  scRC :: resources
  scOwner :: "sid option"
  scEdges :: "sid list"
  scName :: string

type_synonym store = "rscope list"

definition scope_at :: "store \<Rightarrow> sid \<Rightarrow> rscope option" where
  "scope_at st i = (if i < length st then Some (st ! i) else None)"

section \<open>Names\<close>

definition IsSpan :: "string \<Rightarrow> bool" where
  "IsSpan name = strContains name ''.span-''"

definition wrapError :: "rscope \<Rightarrow> rcmgr_error \<Rightarrow> rcmgr_error" where
  "wrapError s err = WrapError (scName s) err"

section \<open>Reference counts and creation\<close>

definition IncRef :: "store \<Rightarrow> sid \<Rightarrow> store option" where
  "IncRef st i = do { s \<leftarrow> scope_at st i; Some (st[i := s\<lparr>scRefCnt := scRefCnt s + 1\<rparr>]) }"

definition DecRef :: "store \<Rightarrow> sid \<Rightarrow> store option" where
  "DecRef st i = do { s \<leftarrow> scope_at st i; Some (st[i := s\<lparr>scRefCnt := scRefCnt s - 1\<rparr>]) }"

definition newResourceScope ::
  "store \<Rightarrow> BaseLimit \<Rightarrow> sid list \<Rightarrow> string \<Rightarrow> (sid \<times> store) option"
where
  "newResourceScope st lim es name = do {
     st' \<leftarrow> forEach IncRef st es;
     Some (length st', st' @ [\<lparr>scDone = False, scRefCnt = 0, scSpanID = 0,
       scRC = empty_resources lim, scOwner = None, scEdges = es, scName = name\<rparr>]) }"

definition newResourceScopeSpan :: "store \<Rightarrow> sid \<Rightarrow> int \<Rightarrow> (sid \<times> store) option" where
  "newResourceScopeSpan st ow n = do {
     os \<leftarrow> scope_at st ow;
     Some (length st, st @ [\<lparr>scDone = False, scRefCnt = 0, scSpanID = 0,
       scRC = empty_resources (limit (scRC os)), scOwner = Some ow, scEdges = [],
       scName = scName os @ ''.span-'' @ itoa n\<rparr>]) }"

section \<open>Memory\<close>

definition ReserveMemoryForChild ::
  "store \<Rightarrow> sid \<Rightarrow> int \<Rightarrow> 8 word \<Rightarrow> (ScopeStat \<times> rcmgr_error option \<times> store) option"
where
  "ReserveMemoryForChild st i sz prio = do {
     s \<leftarrow> scope_at st i;
     if scDone s then Some (stat (scRC s), Some (wrapError s ErrResourceScopeClosed), st)
     else case reserveMemory (scRC s) sz prio of
         Inl err \<Rightarrow> Some (stat (scRC s), Some (wrapError s err), st)
       | Inr r \<Rightarrow> Some (empty_stat, None, st[i := s\<lparr>scRC := r\<rparr>]) }"

definition ReleaseMemoryForChild :: "store \<Rightarrow> sid \<Rightarrow> int \<Rightarrow> store option" where
  "ReleaseMemoryForChild st i sz = do {
     s \<leftarrow> scope_at st i;
     if scDone s then Some st
     else Some (st[i := s\<lparr>scRC := releaseMemory (scRC s) sz\<rparr>]) }"

text \<open>The edge loop of \<open>reserveMemoryForEdges\<close>, with its rollback.\<close>

definition reserveMemoryOnEdges ::
  "store \<Rightarrow> sid list \<Rightarrow> int \<Rightarrow> 8 word \<Rightarrow> (rcmgr_error option \<times> store) option"
where
  "reserveMemoryOnEdges st es sz prio = do {
     (err, reserved, st') \<leftarrow>
       forEachErr (\<lambda>st e. map_option snd (ReserveMemoryForChild st e sz prio)) st es 0;
     case err of
       None \<Rightarrow> Some (None, st')
     | Some e \<Rightarrow> do {
         st'' \<leftarrow> forEach (\<lambda>st e. ReleaseMemoryForChild st e sz) st' (take reserved es);
         Some (Some e, st'') } }"

partial_function (option) ReserveMemory ::
  "store \<Rightarrow> sid \<Rightarrow> int \<Rightarrow> 8 word \<Rightarrow> (rcmgr_error option \<times> store) option"
where
  "ReserveMemory st i sz prio = do {
     s \<leftarrow> scope_at st i;
     if scDone s then Some (Some (wrapError s ErrResourceScopeClosed), st)
     else case reserveMemory (scRC s) sz prio of
         Inl err \<Rightarrow> Some (Some (wrapError s err), st)
       | Inr r \<Rightarrow> do {
           (err, st') \<leftarrow> (case scOwner s of
               Some ow \<Rightarrow> ReserveMemory (st[i := s\<lparr>scRC := r\<rparr>]) ow sz prio
             | None \<Rightarrow> reserveMemoryOnEdges (st[i := s\<lparr>scRC := r\<rparr>]) (scEdges s) sz prio);
           case err of
             None \<Rightarrow> Some (None, st')
           | Some e \<Rightarrow> do {
               s' \<leftarrow> scope_at st' i;
               Some (Some (wrapError s e),
                     st'[i := s'\<lparr>scRC := releaseMemory (scRC s') sz\<rparr>]) } } }"

definition reserveMemoryForEdges ::
  "store \<Rightarrow> rscope \<Rightarrow> int \<Rightarrow> 8 word \<Rightarrow> (rcmgr_error option \<times> store) option"
where
  "reserveMemoryForEdges st s sz prio = (case scOwner s of
      Some ow \<Rightarrow> ReserveMemory st ow sz prio
    | None \<Rightarrow> reserveMemoryOnEdges st (scEdges s) sz prio)"

partial_function (option) ReleaseMemory :: "store \<Rightarrow> sid \<Rightarrow> int \<Rightarrow> store option" where
  "ReleaseMemory st i sz = do {
     s \<leftarrow> scope_at st i;
     if scDone s then Some st
     else let st1 = st[i := s\<lparr>scRC := releaseMemory (scRC s) sz\<rparr>] in
       (case scOwner s of
           Some ow \<Rightarrow> ReleaseMemory st1 ow sz
         | None \<Rightarrow> forEach (\<lambda>st e. ReleaseMemoryForChild st e sz) st1 (scEdges s)) }"

definition releaseMemoryForEdges :: "store \<Rightarrow> rscope \<Rightarrow> int \<Rightarrow> store option" where
  "releaseMemoryForEdges st s sz = (case scOwner s of
      Some ow \<Rightarrow> ReleaseMemory st ow sz
    | None \<Rightarrow> forEach (\<lambda>st e. ReleaseMemoryForChild st e sz) st (scEdges s))"

section \<open>Streams\<close>

definition AddStreamForChild ::
  "store \<Rightarrow> sid \<Rightarrow> Direction \<Rightarrow> (ScopeStat \<times> rcmgr_error option \<times> store) option"
where
  "AddStreamForChild st i dir = do {
     s \<leftarrow> scope_at st i;
     if scDone s then Some (stat (scRC s), Some (wrapError s ErrResourceScopeClosed), st)
     else case addStream (scRC s) dir of
         Inl err \<Rightarrow> Some (stat (scRC s), Some (wrapError s err), st)
       | Inr r \<Rightarrow> Some (empty_stat, None, st[i := s\<lparr>scRC := r\<rparr>]) }"

definition RemoveStreamForChild :: "store \<Rightarrow> sid \<Rightarrow> Direction \<Rightarrow> store option" where
  "RemoveStreamForChild st i dir = do {
     s \<leftarrow> scope_at st i;
     if scDone s then Some st
     else Some (st[i := s\<lparr>scRC := removeStream (scRC s) dir\<rparr>]) }"

definition addStreamOnEdges ::
  "store \<Rightarrow> sid list \<Rightarrow> Direction \<Rightarrow> (rcmgr_error option \<times> store) option"
where
  "addStreamOnEdges st es dir = do {
     (err, reserved, st') \<leftarrow>
       forEachErr (\<lambda>st e. map_option snd (AddStreamForChild st e dir)) st es 0;
     case err of
       None \<Rightarrow> Some (None, st')
     | Some e \<Rightarrow> do {
         st'' \<leftarrow> forEach (\<lambda>st e. RemoveStreamForChild st e dir) st' (take reserved es);
         Some (Some e, st'') } }"

partial_function (option) AddStream ::
  "store \<Rightarrow> sid \<Rightarrow> Direction \<Rightarrow> (rcmgr_error option \<times> store) option"
where
  "AddStream st i dir = do {
     s \<leftarrow> scope_at st i;
     if scDone s then Some (Some (wrapError s ErrResourceScopeClosed), st)
     else case addStream (scRC s) dir of
         Inl err \<Rightarrow> Some (Some (wrapError s err), st)
       | Inr r \<Rightarrow> do {
           (err, st') \<leftarrow> (case scOwner s of
               Some ow \<Rightarrow> AddStream (st[i := s\<lparr>scRC := r\<rparr>]) ow dir
             | None \<Rightarrow> addStreamOnEdges (st[i := s\<lparr>scRC := r\<rparr>]) (scEdges s) dir);
           case err of
             None \<Rightarrow> Some (None, st')
           | Some e \<Rightarrow> do {
               s' \<leftarrow> scope_at st' i;
               Some (Some (wrapError s e),
                     st'[i := s'\<lparr>scRC := removeStream (scRC s') dir\<rparr>]) } } }"

definition addStreamForEdges ::
  "store \<Rightarrow> rscope \<Rightarrow> Direction \<Rightarrow> (rcmgr_error option \<times> store) option"
where
  "addStreamForEdges st s dir = (case scOwner s of
      Some ow \<Rightarrow> AddStream st ow dir
    | None \<Rightarrow> addStreamOnEdges st (scEdges s) dir)"

partial_function (option) RemoveStream :: "store \<Rightarrow> sid \<Rightarrow> Direction \<Rightarrow> store option" where
  "RemoveStream st i dir = do {
     s \<leftarrow> scope_at st i;
     if scDone s then Some st
     else let st1 = st[i := s\<lparr>scRC := removeStream (scRC s) dir\<rparr>] in
       (case scOwner s of
           Some ow \<Rightarrow> RemoveStream st1 ow dir
         | None \<Rightarrow> forEach (\<lambda>st e. RemoveStreamForChild st e dir) st1 (scEdges s)) }"

definition removeStreamForEdges :: "store \<Rightarrow> rscope \<Rightarrow> Direction \<Rightarrow> store option" where
  "removeStreamForEdges st s dir = (case scOwner s of
      Some ow \<Rightarrow> RemoveStream st ow dir
    | None \<Rightarrow> forEach (\<lambda>st e. RemoveStreamForChild st e dir) st (scEdges s))"

section \<open>Connections\<close>

definition AddConnForChild ::
  "store \<Rightarrow> sid \<Rightarrow> Direction \<Rightarrow> bool \<Rightarrow> (ScopeStat \<times> rcmgr_error option \<times> store) option"
where
  "AddConnForChild st i dir usefd = do {
     s \<leftarrow> scope_at st i;
     if scDone s then Some (stat (scRC s), Some (wrapError s ErrResourceScopeClosed), st)
     else case addConn (scRC s) dir usefd of
         Inl err \<Rightarrow> Some (stat (scRC s), Some (wrapError s err), st)
       | Inr r \<Rightarrow> Some (empty_stat, None, st[i := s\<lparr>scRC := r\<rparr>]) }"

definition RemoveConnForChild :: "store \<Rightarrow> sid \<Rightarrow> Direction \<Rightarrow> bool \<Rightarrow> store option" where
  "RemoveConnForChild st i dir usefd = do {
     s \<leftarrow> scope_at st i;
     if scDone s then Some st
     else Some (st[i := s\<lparr>scRC := removeConn (scRC s) dir usefd\<rparr>]) }"

definition addConnOnEdges ::
  "store \<Rightarrow> sid list \<Rightarrow> Direction \<Rightarrow> bool \<Rightarrow> (rcmgr_error option \<times> store) option"
where
  "addConnOnEdges st es dir usefd = do {
     (err, reserved, st') \<leftarrow>
       forEachErr (\<lambda>st e. map_option snd (AddConnForChild st e dir usefd)) st es 0;
     case err of
       None \<Rightarrow> Some (None, st')
     | Some e \<Rightarrow> do {
         st'' \<leftarrow> forEach (\<lambda>st e. RemoveConnForChild st e dir usefd) st' (take reserved es);
         Some (Some e, st'') } }"

partial_function (option) AddConn ::
  "store \<Rightarrow> sid \<Rightarrow> Direction \<Rightarrow> bool \<Rightarrow> (rcmgr_error option \<times> store) option"
where
  "AddConn st i dir usefd = do {
     s \<leftarrow> scope_at st i;
     if scDone s then Some (Some (wrapError s ErrResourceScopeClosed), st)
     else case addConn (scRC s) dir usefd of
         Inl err \<Rightarrow> Some (Some (wrapError s err), st)
       | Inr r \<Rightarrow> do {
           (err, st') \<leftarrow> (case scOwner s of
               Some ow \<Rightarrow> AddConn (st[i := s\<lparr>scRC := r\<rparr>]) ow dir usefd
             | None \<Rightarrow> addConnOnEdges (st[i := s\<lparr>scRC := r\<rparr>]) (scEdges s) dir usefd);
           case err of
             None \<Rightarrow> Some (None, st')
           | Some e \<Rightarrow> do {
               s' \<leftarrow> scope_at st' i;
               Some (Some (wrapError s e),
                     st'[i := s'\<lparr>scRC := removeConn (scRC s') dir usefd\<rparr>]) } } }"

definition addConnForEdges ::
  "store \<Rightarrow> rscope \<Rightarrow> Direction \<Rightarrow> bool \<Rightarrow> (rcmgr_error option \<times> store) option"
where
  "addConnForEdges st s dir usefd = (case scOwner s of
      Some ow \<Rightarrow> AddConn st ow dir usefd
    | None \<Rightarrow> addConnOnEdges st (scEdges s) dir usefd)"

text \<open>Unlike its two siblings, \<open>removeConnForEdges\<close> does not return after the owner has
  released the connection, so it goes on to the edges (a span has none).\<close>

partial_function (option) RemoveConn :: "store \<Rightarrow> sid \<Rightarrow> Direction \<Rightarrow> bool \<Rightarrow> store option" where
  "RemoveConn st i dir usefd = do {
     s \<leftarrow> scope_at st i;
     if scDone s then Some st
     else do {
       st2 \<leftarrow> (case scOwner s of
           Some ow \<Rightarrow>
             RemoveConn (st[i := s\<lparr>scRC := removeConn (scRC s) dir usefd\<rparr>]) ow dir usefd
         | None \<Rightarrow> Some (st[i := s\<lparr>scRC := removeConn (scRC s) dir usefd\<rparr>]));
       forEach (\<lambda>st e. RemoveConnForChild st e dir usefd) st2 (scEdges s) } }"

definition removeConnForEdges :: "store \<Rightarrow> rscope \<Rightarrow> Direction \<Rightarrow> bool \<Rightarrow> store option" where
  "removeConnForEdges st s dir usefd = do {
     st2 \<leftarrow> (case scOwner s of Some ow \<Rightarrow> RemoveConn st ow dir usefd | None \<Rightarrow> Some st);
     forEach (\<lambda>st e. RemoveConnForChild st e dir usefd) st2 (scEdges s) }"

section \<open>Bulk reservation, spans and the end of a scope\<close>

definition ReserveForChild :: "store \<Rightarrow> sid \<Rightarrow> ScopeStat \<Rightarrow> (rcmgr_error option \<times> store) option"
where
  "ReserveForChild st i q = do {
     s \<leftarrow> scope_at st i;
     if scDone s then Some (Some (wrapError s ErrResourceScopeClosed), st)
     else case reserveMemory (scRC s) (MemoryStat q) 255 of
         Inl err \<Rightarrow> Some (Some (wrapError s err), st)
       | Inr r1 \<Rightarrow>
         (case addStreams r1 (NumStreamsInbound q) (NumStreamsOutbound q) of
            Inl err \<Rightarrow>
              Some (Some (wrapError s err), st[i := s\<lparr>scRC := releaseMemory r1 (MemoryStat q)\<rparr>])
          | Inr r2 \<Rightarrow>
            (case addConns r2 (NumConnsInbound q) (NumConnsOutbound q) (NumFD q) of
               Inl err \<Rightarrow>
                 Some (Some (wrapError s err),
                   st[i := s\<lparr>scRC := removeStreams (releaseMemory r2 (MemoryStat q))
                                      (NumStreamsInbound q) (NumStreamsOutbound q)\<rparr>])
             | Inr r3 \<Rightarrow> Some (None, st[i := s\<lparr>scRC := r3\<rparr>]))) }"

text \<open>The three releases of a whole stat, as \<open>ReleaseForChild\<close> and \<open>ReleaseResources\<close> make
  them.\<close>

definition release_stat :: "resources \<Rightarrow> ScopeStat \<Rightarrow> resources" where
  "release_stat r q =
    removeConns
      (removeStreams (releaseMemory r (MemoryStat q)) (NumStreamsInbound q) (NumStreamsOutbound q))
      (NumConnsInbound q) (NumConnsOutbound q) (NumFD q)"

definition ReleaseForChild :: "store \<Rightarrow> sid \<Rightarrow> ScopeStat \<Rightarrow> store option" where
  "ReleaseForChild st i q = do {
     s \<leftarrow> scope_at st i;
     if scDone s then Some st
     else Some (st[i := s\<lparr>scRC := release_stat (scRC s) q\<rparr>]) }"

partial_function (option) ReleaseResources :: "store \<Rightarrow> sid \<Rightarrow> ScopeStat \<Rightarrow> store option" where
  "ReleaseResources st i q = do {
     s \<leftarrow> scope_at st i;
     if scDone s then Some st
     else let st1 = st[i := s\<lparr>scRC := release_stat (scRC s) q\<rparr>] in
       (case scOwner s of
           Some ow \<Rightarrow> ReleaseResources st1 ow q
         | None \<Rightarrow> forEach (\<lambda>st e. ReleaseForChild st e q) st1 (scEdges s)) }"

definition nextSpanID :: "rscope \<Rightarrow> int \<times> rscope" where
  "nextSpanID s = (scSpanID s + 1, s\<lparr>scSpanID := scSpanID s + 1\<rparr>)"

definition BeginSpan :: "store \<Rightarrow> sid \<Rightarrow> ((rcmgr_error + sid) \<times> store) option" where
  "BeginSpan st i = do {
     s \<leftarrow> scope_at st i;
     if scDone s then Some (Inl (wrapError s ErrResourceScopeClosed), st)
     else
       let (n, s') = nextSpanID (s\<lparr>scRefCnt := scRefCnt s + 1\<rparr>)
       in do { (k, st') \<leftarrow> newResourceScopeSpan (st[i := s']) i n; Some (Inr k, st') } }"

definition doneUnlocked :: "store \<Rightarrow> sid \<Rightarrow> store option" where
  "doneUnlocked st i = do {
     s \<leftarrow> scope_at st i;
     if scDone s then Some st
     else do {
       st1 \<leftarrow> (case scOwner s of
           Some ow \<Rightarrow> do { st' \<leftarrow> ReleaseResources st ow (stat (scRC s)); DecRef st' ow }
         | None \<Rightarrow>
             forEach (\<lambda>st e. do { st' \<leftarrow> ReleaseForChild st e (stat (scRC s)); DecRef st' e })
               st (scEdges s));
       s1 \<leftarrow> scope_at st1 i;
       Some (st1[i := s1\<lparr>scRC := empty_resources (limit (scRC s1)), scDone := True\<rparr>]) } }"

definition Done :: "store \<Rightarrow> sid \<Rightarrow> store option" where
  "Done st i = doneUnlocked st i"

definition Stat :: "store \<Rightarrow> sid \<Rightarrow> ScopeStat option" where
  "Stat st i = map_option (\<lambda>s. stat (scRC s)) (scope_at st i)"

definition IsUnused :: "store \<Rightarrow> sid \<Rightarrow> bool option" where
  "IsUnused st i = do {
     s \<leftarrow> scope_at st i;
     if scDone s then Some True
     else if scRefCnt s > 0 then Some False
     else let q = stat (scRC s) in
       Some (NumStreamsInbound q = 0 \<and> NumStreamsOutbound q = 0 \<and> NumConnsInbound q = 0
             \<and> NumConnsOutbound q = 0 \<and> NumFD q = 0) }"

declare ReserveMemory.simps [code] ReleaseMemory.simps [code] AddStream.simps [code]
  RemoveStream.simps [code] AddConn.simps [code] RemoveConn.simps [code]
  ReleaseResources.simps [code]

end
