(* ===== verification/Scope_Contract.thy ===== *)
theory Scope_Contract
  imports Scope
begin

text \<open>
  What the scope operations promise.  \<open>charged\<close> lists the scopes a reservation on a scope is
  accounted to: the owner chain of a span, then the edges of the scope at its root.  An
  acquisition either charges all of them at once or changes nothing, and a release takes the
  charge back.  Memory, streams and connections follow the same plan, so this is proved once
  in the locale \<open>scope_resource\<close> and interpreted for each of the three.
\<close>

section \<open>The shape of the store\<close>

definition wf_graph :: "store \<Rightarrow> bool" where
  "wf_graph st \<longleftrightarrow> (\<forall>i < length st. case scOwner (st ! i) of
      Some ow \<Rightarrow> ow < i \<and> scEdges (st ! i) = []
    | None \<Rightarrow> distinct (scEdges (st ! i)) \<and> i \<notin> set (scEdges (st ! i))
        \<and> (\<forall>e \<in> set (scEdges (st ! i)). e < length st \<and> scOwner (st ! e) = None))"

definition wf_counters :: "store \<Rightarrow> sid list \<Rightarrow> bool" where
  "wf_counters st js \<longleftrightarrow> (\<forall>j \<in> set js. rc_wf (scRC (st ! j)))"

text \<open>What decides which scopes an operation reaches.\<close>

definition skel :: "rscope \<Rightarrow> bool \<times> sid option \<times> sid list" where
  "skel s = (scDone s, scOwner s, scEdges s)"

abbreviation same_skeleton :: "store \<Rightarrow> store \<Rightarrow> bool" where
  "same_skeleton st st' \<equiv> map skel st' = map skel st"

function charged :: "store \<Rightarrow> sid \<Rightarrow> sid list" where
  "charged st i =
    (if i < length st
     then i # (case scOwner (st ! i) of
         Some ow \<Rightarrow> (if ow < i then charged st ow else [])
       | None \<Rightarrow> scEdges (st ! i))
     else [])"
  by pat_completeness auto
termination
  by (relation "measure snd") auto

function released :: "store \<Rightarrow> sid \<Rightarrow> sid list" where
  "released st i =
    (if i < length st \<and> \<not> scDone (st ! i)
     then i # (case scOwner (st ! i) of
         Some ow \<Rightarrow> (if ow < i then released st ow else [])
       | None \<Rightarrow> filter (\<lambda>e. \<not> scDone (st ! e)) (scEdges (st ! i)))
     else [])"
  by pat_completeness auto
termination
  by (relation "measure snd") auto

declare charged.simps [simp del] released.simps [simp del]

text \<open>Apply one change to the counters of each listed scope.\<close>

definition update_all :: "(resources \<Rightarrow> resources) \<Rightarrow> store \<Rightarrow> sid list \<Rightarrow> store" where
  "update_all g st js =
    map (\<lambda>j. if j \<in> set js then (st ! j)\<lparr>scRC := g (scRC (st ! j))\<rparr> else st ! j) [0..<length st]"

definition all_accept ::
  "(resources \<Rightarrow> rcmgr_error + resources) \<Rightarrow> store \<Rightarrow> sid list \<Rightarrow> bool"
where
  "all_accept f st js \<longleftrightarrow> (\<forall>j \<in> set js. \<not> scDone (st ! j) \<and> \<not> isl (f (scRC (st ! j))))"

abbreviation charge_all ::
  "(resources \<Rightarrow> rcmgr_error + resources) \<Rightarrow> store \<Rightarrow> sid list \<Rightarrow> store"
where
  "charge_all f \<equiv> update_all (\<lambda>r. projr (f r))"

section \<open>Facts on stores\<close>

lemma length_update_all [simp]: "length (update_all g st js) = length st"
  by (simp add: update_all_def)

lemma nth_update_all [simp]:
  "j < length st \<Longrightarrow> update_all g st js ! j =
     (if j \<in> set js then (st ! j)\<lparr>scRC := g (scRC (st ! j))\<rparr> else st ! j)"
  by (simp add: update_all_def)

lemma update_all_Nil [simp]: "update_all g st [] = st"
  by (rule nth_equalityI) auto

lemma update_all_Cons:
  "j < length st \<Longrightarrow> j \<notin> set js \<Longrightarrow>
     update_all g st (j # js) = update_all g (st[j := (st ! j)\<lparr>scRC := g (scRC (st ! j))\<rparr>]) js"
  by (rule nth_equalityI) (auto simp: nth_list_update)

lemma update_all_restore:
  "j < length st \<Longrightarrow> j \<notin> set js \<Longrightarrow> (update_all g st (j # js))[j := st ! j] = update_all g st js"
  by (rule nth_equalityI) (auto simp: nth_list_update)

lemma update_all_cong_set: "set js = set js' \<Longrightarrow> update_all g st js = update_all g st js'"
  by (simp add: update_all_def)

lemma scope_at_Some [simp]: "i < length st \<Longrightarrow> scope_at st i = Some (st ! i)"
  by (simp add: scope_at_def)

lemma all_accept_Cons:
  "all_accept f st (j # js) \<longleftrightarrow>
     (\<not> scDone (st ! j) \<and> \<not> isl (f (scRC (st ! j)))) \<and> all_accept f st js"
  by (auto simp: all_accept_def)

lemma nth_update_notin: "j \<notin> set js \<Longrightarrow> k \<in> set js \<Longrightarrow> st[j := s] ! k = st ! k"
  by (metis nth_list_update_neq)

lemma all_accept_update [simp]:
  "j \<notin> set js \<Longrightarrow> all_accept f (st[j := s]) js = all_accept f st js"
  by (simp add: all_accept_def nth_update_notin)

lemma wf_counters_update [simp]:
  "j \<notin> set js \<Longrightarrow> wf_counters (st[j := s]) js = wf_counters st js"
  by (simp add: wf_counters_def nth_update_notin)

lemma wf_counters_Cons [simp]:
  "wf_counters st (j # js) \<longleftrightarrow> rc_wf (scRC (st ! j)) \<and> wf_counters st js"
  by (simp add: wf_counters_def)

lemma skeleton_length: "same_skeleton st st' \<Longrightarrow> length st' = length st"
  by (rule map_eq_imp_length_eq)

lemma skeleton_nth:
  assumes "same_skeleton st st'" "i < length st"
  shows "skel (st' ! i) = skel (st ! i)"
  using arg_cong [OF assms(1), of "\<lambda>l. l ! i"] assms(2) skeleton_length [OF assms(1)] by simp

lemma skeletonD:
  assumes "same_skeleton st st'" and "i < length st"
  shows "scDone (st' ! i) = scDone (st ! i)" "scOwner (st' ! i) = scOwner (st ! i)"
    "scEdges (st' ! i) = scEdges (st ! i)"
  using skeleton_nth [OF assms] by (auto simp: skel_def)

lemma skeleton_update:
  "i < length st \<Longrightarrow> skel s = skel (st ! i) \<Longrightarrow> same_skeleton st (st[i := s])"
  by (rule nth_equalityI) (auto simp: nth_list_update)

lemma skeleton_update_all: "same_skeleton st (update_all g st js)"
  by (rule nth_equalityI) (auto simp: skel_def)

lemma wf_graph_skeleton:
  assumes "same_skeleton st st'"
  shows "wf_graph st' = wf_graph st"
  unfolding wf_graph_def skeleton_length [OF assms]
  by (simp add: skeletonD [OF assms] cong: conj_cong imp_cong option.case_cong)

lemma charged_skeleton:
  assumes "same_skeleton st st'"
  shows "charged st' i = charged st i"
proof (induction i rule: less_induct)
  case (less i)
  then show ?case
    using skeletonD [OF assms, of i] skeleton_length [OF assms]
    by (simp add: charged.simps [of st i] charged.simps [of st' i] split: option.splits)
qed

lemma wf_graph_owner:
  "wf_graph st \<Longrightarrow> i < length st \<Longrightarrow> scOwner (st ! i) = Some ow \<Longrightarrow> ow < i \<and> scEdges (st ! i) = []"
  by (auto simp: wf_graph_def split: option.splits)

lemma wf_graph_edges:
  assumes "wf_graph st" "i < length st"
  shows "distinct (scEdges (st ! i))" "i \<notin> set (scEdges (st ! i))"
    "\<And>e. e \<in> set (scEdges (st ! i)) \<Longrightarrow> e < length st \<and> scOwner (st ! e) = None"
  using assms by (cases "scOwner (st ! i)"; fastforce simp: wf_graph_def)+

lemma charged_root:
  "i < length st \<Longrightarrow> scOwner (st ! i) = None \<Longrightarrow> charged st i = i # scEdges (st ! i)"
  by (subst charged.simps) simp

lemma charged_Cons: "i < length st \<Longrightarrow> charged st i = i # tl (charged st i)"
  by (subst charged.simps, subst (2) charged.simps) simp

lemma charged_span:
  "wf_graph st \<Longrightarrow> i < length st \<Longrightarrow> scOwner (st ! i) = Some ow \<Longrightarrow>
     charged st i = i # charged st ow"
  by (subst charged.simps) (simp add: wf_graph_owner)

text \<open>A charged scope is below the one that asked, or a scope with no owner.\<close>

lemma charged_below:
  assumes "wf_graph st" "i < length st" "j \<in> set (charged st i)"
  shows "j < length st \<and> (j \<le> i \<or> scOwner (st ! j) = None)"
  using assms(2,3)
proof (induction i rule: less_induct)
  case (less i)
  show ?case
  proof (cases "scOwner (st ! i)")
    case None
    then show ?thesis
      using less.prems wf_graph_edges(3) [OF assms(1) less.prems(1)] by (auto simp: charged_root)
  next
    case (Some ow)
    have ow: "ow < i" using wf_graph_owner [OF assms(1) less.prems(1) Some] by simp
    from less.prems have "j = i \<or> j \<in> set (charged st ow)"
      by (auto simp: charged_span [OF assms(1) _ Some])
    with less.IH [OF ow] less.prems(1) ow show ?thesis by auto
  qed
qed

lemma span_not_charged_above:
  "wf_graph st \<Longrightarrow> i < length st \<Longrightarrow> scOwner (st ! i) = Some ow \<Longrightarrow> i \<notin> set (charged st ow)"
  using charged_below [of st ow i] wf_graph_owner [of st i ow] by fastforce

lemma distinct_charged:
  assumes "wf_graph st"
  shows "i < length st \<Longrightarrow> distinct (charged st i)"
proof (induction i rule: less_induct)
  case (less i)
  show ?case
  proof (cases "scOwner (st ! i)")
    case None
    then show ?thesis using less.prems wf_graph_edges [OF assms less.prems] by (simp add: charged_root)
  next
    case (Some ow)
    then show ?thesis
      using less wf_graph_owner [OF assms less.prems Some] span_not_charged_above [OF assms less.prems]
      by (simp add: charged_span [OF assms less.prems Some])
  qed
qed

lemma released_skeleton:
  assumes "same_skeleton st st'" "wf_graph st"
  shows "released st' i = released st i"
proof (induction i rule: less_induct)
  case (less i)
  show ?case
  proof (cases "i < length st")
    case True
    have "filter (\<lambda>e. \<not> scDone (st' ! e)) (scEdges (st ! i)) =
        filter (\<lambda>e. \<not> scDone (st ! e)) (scEdges (st ! i))"
      using wf_graph_edges(3) [OF assms(2) True] skeletonD(1) [OF assms(1)]
      by (intro filter_cong) auto
    then show ?thesis
      using less True skeletonD [OF assms(1) True] skeleton_length [OF assms(1)]
      by (simp add: released.simps [of st i] released.simps [of st' i] split: option.splits)
  qed (simp add: released.simps skeleton_length [OF assms(1)])
qed

lemma released_subset: "set (released st i) \<subseteq> set (charged st i)"
proof (induction i rule: less_induct)
  case (less i)
  then show ?case
    by (auto simp: released.simps [of st i] charged.simps [of st i] split: option.splits)
qed

lemma released_all_open:
  "\<forall>j \<in> set (charged st i). \<not> scDone (st ! j) \<Longrightarrow> released st i = charged st i"
proof (induction i rule: less_induct)
  case (less i)
  then show ?case
    by (auto simp: released.simps [of st i] charged.simps [of st i] split: option.splits if_splits)
qed

section \<open>The plan shared by memory, streams and connections\<close>

locale scope_release =
  fixes undo_rc :: "resources \<Rightarrow> resources"
    and undoChild :: "store \<Rightarrow> sid \<Rightarrow> store option"
    and release :: "store \<Rightarrow> sid \<Rightarrow> store option"
  assumes undoChild_eq: "undoChild st i = do {
       s \<leftarrow> scope_at st i;
       if scDone s then Some st else Some (st[i := s\<lparr>scRC := undo_rc (scRC s)\<rparr>]) }"
    and release_done: "scope_at st i = Some s \<Longrightarrow> scDone s \<Longrightarrow> release st i = Some st"
    and release_span: "scope_at st i = Some s \<Longrightarrow> \<not> scDone s \<Longrightarrow> scOwner s = Some ow \<Longrightarrow>
       scEdges s = [] \<Longrightarrow> release st i = release (st[i := s\<lparr>scRC := undo_rc (scRC s)\<rparr>]) ow"
    and release_root: "scope_at st i = Some s \<Longrightarrow> \<not> scDone s \<Longrightarrow> scOwner s = None \<Longrightarrow>
       release st i = forEach undoChild (st[i := s\<lparr>scRC := undo_rc (scRC s)\<rparr>]) (scEdges s)"
begin

text \<open>A release takes one amount back from every open scope it reaches.\<close>

lemma undo_loop_open:
  assumes "distinct es" "\<forall>e \<in> set es. e < length st"
  shows "forEach undoChild st es = Some (update_all undo_rc st (filter (\<lambda>e. \<not> scDone (st ! e)) es))"
  using assms
proof (induction es arbitrary: st)
  case (Cons e es)
  have "filter (\<lambda>e'. \<not> scDone (st[e := s] ! e')) es = filter (\<lambda>e. \<not> scDone (st ! e)) es" for s
    using Cons.prems(1) by (intro filter_cong) (auto simp: nth_update_notin)
  then show ?case
    using Cons by (simp add: undoChild_eq update_all_Cons)
qed simp

lemma release_spec:
  assumes "wf_graph st" "i < length st"
  shows "release st i = Some (update_all undo_rc st (released st i))"
  using assms
proof (induction i arbitrary: st rule: less_induct)
  case (less i)
  let ?s = "st ! i"
  let ?st = "st[i := ?s\<lparr>scRC := undo_rc (scRC ?s)\<rparr>]"
  have sk: "same_skeleton st ?st" using less.prems(2) by (simp add: skeleton_update skel_def)
  show ?case
  proof (cases "scDone ?s")
    case True
    then show ?thesis using less.prems by (simp add: release_done released.simps [of st i])
  next
    case open_scope: False
    show ?thesis
    proof (cases "scOwner ?s")
      case None
      let ?open = "filter (\<lambda>e. \<not> scDone (st ! e)) (scEdges ?s)"
      note edges = wf_graph_edges [OF less.prems]
      have "filter (\<lambda>e. \<not> scDone (?st ! e)) (scEdges ?s) = ?open"
        using edges(2) by (intro filter_cong) (auto simp: nth_update_notin)
      then have "release st i = Some (update_all undo_rc ?st ?open)"
        using None open_scope less.prems edges by (simp add: release_root undo_loop_open)
      then show ?thesis
        using None open_scope less.prems edges(2)
        by (simp add: released.simps [of st i] update_all_Cons)
    next
      case (Some ow)
      note ow = wf_graph_owner [OF less.prems Some]
      have "release st i = Some (update_all undo_rc ?st (released ?st ow))"
        using Some open_scope less ow wf_graph_skeleton [OF sk] by (simp add: release_span)
      moreover have "i \<notin> set (released st ow)"
        using span_not_charged_above [OF less.prems Some] released_subset [of st ow] by auto
      ultimately show ?thesis
        using Some open_scope less.prems ow
        by (simp add: released.simps [of st i] update_all_Cons released_skeleton [OF sk less.prems(1)])
    qed
  qed
qed

end

locale scope_resource = reservable try_rc undo_rc + scope_release undo_rc undoChild release
  for try_rc :: "resources \<Rightarrow> rcmgr_error + resources" and undo_rc :: "resources \<Rightarrow> resources"
    and undoChild :: "store \<Rightarrow> sid \<Rightarrow> store option" and release :: "store \<Rightarrow> sid \<Rightarrow> store option" +
  fixes tryChild :: "store \<Rightarrow> sid \<Rightarrow> (rcmgr_error option \<times> store) option"
    and onEdges :: "store \<Rightarrow> sid list \<Rightarrow> (rcmgr_error option \<times> store) option"
    and acquire :: "store \<Rightarrow> sid \<Rightarrow> (rcmgr_error option \<times> store) option"
  assumes tryChild_eq: "tryChild st i = do {
       s \<leftarrow> scope_at st i;
       if scDone s then Some (Some (wrapError s ErrResourceScopeClosed), st)
       else case try_rc (scRC s) of
           Inl err \<Rightarrow> Some (Some (wrapError s err), st)
         | Inr r \<Rightarrow> Some (None, st[i := s\<lparr>scRC := r\<rparr>]) }"
    and onEdges_eq: "onEdges st es = do {
       (err, reserved, st') \<leftarrow> forEachErr tryChild st es 0;
       case err of
         None \<Rightarrow> Some (None, st')
       | Some e \<Rightarrow> do {
           st'' \<leftarrow> forEach undoChild st' (take reserved es);
           Some (Some e, st'') } }"
    and acquire_eq: "acquire st i = do {
       s \<leftarrow> scope_at st i;
       if scDone s then Some (Some (wrapError s ErrResourceScopeClosed), st)
       else case try_rc (scRC s) of
           Inl err \<Rightarrow> Some (Some (wrapError s err), st)
         | Inr r \<Rightarrow> do {
             (err, st') \<leftarrow> (case scOwner s of
                 Some ow \<Rightarrow> acquire (st[i := s\<lparr>scRC := r\<rparr>]) ow
               | None \<Rightarrow> onEdges (st[i := s\<lparr>scRC := r\<rparr>]) (scEdges s));
             case err of
               None \<Rightarrow> Some (None, st')
             | Some e \<Rightarrow> do {
                 s' \<leftarrow> scope_at st' i;
                 Some (Some (wrapError s e), st'[i := s'\<lparr>scRC := undo_rc (scRC s')\<rparr>]) } } }"
begin

lemma tryChild_accepts:
  "e < length st \<Longrightarrow> all_accept try_rc st [e] \<Longrightarrow> tryChild st e = Some (None, charge_all try_rc st [e])"
  by (auto simp: tryChild_eq all_accept_def update_all_Cons split: sum.splits)

lemma tryChild_refuses:
  "e < length st \<Longrightarrow> \<not> all_accept try_rc st [e] \<Longrightarrow> \<exists>err. tryChild st e = Some (Some err, st)"
  by (auto simp: tryChild_eq all_accept_def split: sum.splits)

lemma loop_accepts:
  assumes "distinct es" "\<forall>e \<in> set es. e < length st" "all_accept try_rc st es"
  shows "forEachErr tryChild st es n = Some (None, n + length es, charge_all try_rc st es)"
  using assms
proof (induction es arbitrary: st n)
  case (Cons e es)
  then have "tryChild st e = Some (None, charge_all try_rc st [e])"
    by (intro tryChild_accepts) (auto simp: all_accept_Cons all_accept_def)
  then show ?case
    using Cons by (auto simp: update_all_Cons all_accept_Cons)
qed simp

lemma loop_refuses:
  assumes "distinct es" "\<forall>e \<in> set es. e < length st" "\<not> all_accept try_rc st es"
  shows "\<exists>k err. all_accept try_rc st (take k es) \<and>
     forEachErr tryChild st es n = Some (Some err, n + k, charge_all try_rc st (take k es))"
  using assms
proof (induction es arbitrary: st n)
  case Nil
  then show ?case by (simp add: all_accept_def)
next
  case (Cons e es)
  let ?st = "st[e := (st ! e)\<lparr>scRC := projr (try_rc (scRC (st ! e)))\<rparr>]"
  show ?case
  proof (cases "all_accept try_rc st [e]")
    case False
    then obtain err where "tryChild st e = Some (Some err, st)"
      using tryChild_refuses [of e st] Cons.prems by auto
    then show ?thesis by (intro exI [of _ 0] exI [of _ err]) (simp add: all_accept_def)
  next
    case True
    then have ch: "tryChild st e = Some (None, ?st)"
      using tryChild_accepts [of e st] Cons.prems by (simp add: update_all_Cons)
    have "\<not> all_accept try_rc ?st es"
      using Cons.prems True by (auto simp: all_accept_Cons)
    then obtain k err where k: "all_accept try_rc ?st (take k es)"
      "forEachErr tryChild ?st es (Suc n) = Some (Some err, Suc n + k, charge_all try_rc ?st (take k es))"
      using Cons.IH [of ?st "Suc n"] Cons.prems by auto
    have "e \<notin> set (take k es)" using Cons.prems(1) by (auto dest: in_set_takeD)
    then show ?thesis
      using k ch True Cons.prems
      by (intro exI [of _ "Suc k"] exI [of _ err])
        (simp add: update_all_Cons all_accept_Cons)
  qed
qed

lemma undo_loop:
  assumes "distinct es" "\<forall>e \<in> set es. e < length st" "all_accept try_rc st es" "wf_counters st es"
  shows "forEach undoChild (charge_all try_rc st es) es = Some st"
  using assms
proof (induction es)
  case (Cons e es)
  have e: "e < length st" "\<not> scDone (st ! e)" "rc_wf (scRC (st ! e))"
    using Cons.prems by (auto simp: all_accept_def)
  obtain r where r: "try_rc (scRC (st ! e)) = Inr r"
    using Cons.prems(3) by (cases "try_rc (scRC (st ! e))") (auto simp: all_accept_def)
  have "undoChild (charge_all try_rc st (e # es)) e = Some ((charge_all try_rc st (e # es))[e := st ! e])"
    using e r undo_try [OF e(3) r] by (simp add: undoChild_eq)
  then show ?case
    using Cons e by (simp add: update_all_restore all_accept_Cons)
qed simp

lemma onEdges_spec:
  assumes "distinct es" "\<forall>e \<in> set es. e < length st" "wf_counters st es"
  shows "if all_accept try_rc st es then onEdges st es = Some (None, charge_all try_rc st es)
     else \<exists>err. onEdges st es = Some (Some err, st)"
proof (cases "all_accept try_rc st es")
  case True
  then show ?thesis using loop_accepts [OF assms(1,2), of 0] by (simp add: onEdges_eq)
next
  case False
  then obtain k err where k: "all_accept try_rc st (take k es)"
    "forEachErr tryChild st es 0 = Some (Some err, k, charge_all try_rc st (take k es))"
    using loop_refuses [OF assms(1,2), of 0] by auto
  have "forEach undoChild (charge_all try_rc st (take k es)) (take k es) = Some st"
    using assms k(1) by (intro undo_loop) (auto simp: wf_counters_def dest: in_set_takeD)
  then show ?thesis using False k(2) by (simp add: onEdges_eq)
qed

text \<open>An acquisition charges every scope of \<open>charged\<close>, or none of them.\<close>

lemma acquire_spec:
  assumes "wf_graph st" "i < length st" "wf_counters st (charged st i)"
  shows "if all_accept try_rc st (charged st i)
     then acquire st i = Some (None, charge_all try_rc st (charged st i))
     else \<exists>err. acquire st i = Some (Some err, st)"
  using assms
proof (induction i arbitrary: st rule: less_induct)
  case (less i)
  let ?s = "st ! i"
  show ?case
  proof (cases "\<not> scDone ?s \<and> \<not> isl (try_rc (scRC ?s))")
    case False
    have "\<not> all_accept try_rc st (charged st i)"
      using False by (subst charged_Cons [OF less.prems(2)]) (auto simp: all_accept_Cons)
    moreover have "\<exists>err. acquire st i = Some (Some err, st)"
      using False less.prems(2)
      by (cases "scDone ?s"; cases "try_rc (scRC ?s)") (simp_all add: acquire_eq [of st i])
    ultimately show ?thesis by simp
  next
    case True
    then obtain r where r: "try_rc (scRC ?s) = Inr r" by (cases "try_rc (scRC ?s)") auto
    let ?st = "st[i := ?s\<lparr>scRC := r\<rparr>]"
    let ?rest = "case scOwner ?s of Some ow \<Rightarrow> acquire ?st ow | None \<Rightarrow> onEdges ?st (scEdges ?s)"
    have sk: "same_skeleton st ?st" using less.prems(2) by (simp add: skeleton_update skel_def)
    define rest where "rest = tl (charged st i)"
    have ch: "charged st i = i # rest"
      unfolding rest_def by (rule charged_Cons [OF less.prems(2)])
    have fresh: "i \<notin> set rest"
      using distinct_charged [OF less.prems(1,2)] by (simp add: ch)
    have wfc: "rc_wf (scRC ?s)" "wf_counters st rest"
      using less.prems(3) by (simp_all add: ch)
    have above: "if all_accept try_rc st rest
       then ?rest = Some (None, charge_all try_rc ?st rest)
       else \<exists>err. ?rest = Some (Some err, ?st)"
    proof (cases "scOwner ?s")
      case None
      then have "rest = scEdges ?s" using ch less.prems(2) by (simp add: charged_root)
      then show ?thesis
        using None onEdges_spec [of "scEdges ?s" ?st] wf_graph_edges [OF less.prems(1,2)] fresh wfc
        by simp
    next
      case (Some ow)
      note ow = wf_graph_owner [OF less.prems(1,2) Some]
      have "rest = charged ?st ow"
        using ch charged_skeleton [OF sk, of ow] by (simp add: charged_span [OF less.prems(1,2) Some])
      then show ?thesis
        using Some less.IH [of ow ?st] ow less.prems(1,2) fresh wfc
        by (simp add: wf_graph_skeleton [OF sk])
    qed
    show ?thesis
    proof (cases "all_accept try_rc st rest")
      case ok: True
      then have "acquire st i = Some (None, charge_all try_rc ?st rest)"
        using above True r less.prems(2) by (simp add: acquire_eq [of st i])
      then show ?thesis
        using ok True r fresh less.prems(2) by (simp add: ch all_accept_Cons update_all_Cons)
    next
      case no: False
      then obtain err where "?rest = Some (Some err, ?st)" using above by auto
      then have "\<exists>err. acquire st i = Some (Some err, st)"
        using True r less.prems(2) undo_try [OF wfc(1) r] by (simp add: acquire_eq [of st i])
      then show ?thesis using no by (simp add: ch all_accept_Cons)
    qed
  qed
qed

lemma release_acquire:
  assumes "wf_graph st" "i < length st" "wf_counters st (charged st i)"
    and "acquire st i = Some (None, st')"
  shows "release st' i = Some st"
proof -
  let ?js = "charged st i"
  have ok: "all_accept try_rc st ?js" and st': "st' = charge_all try_rc st ?js"
    using acquire_spec [OF assms(1-3)] assms(4) by (auto split: if_splits)
  have acc: "try_rc (scRC (st ! j)) = Inr (projr (try_rc (scRC (st ! j))))" if "j \<in> set ?js" for j
    using ok that by (simp add: all_accept_def)
  have sk: "same_skeleton st st'"
    unfolding st' by (rule skeleton_update_all)
  have "released st' i = ?js"
    using released_all_open [of st i] ok by (auto simp: released_skeleton [OF sk assms(1)] all_accept_def)
  then have "release st' i = Some (update_all undo_rc st' ?js)"
    using release_spec [of st' i] assms(1,2) wf_graph_skeleton [OF sk] skeleton_length [OF sk] by simp
  moreover have "update_all undo_rc st' ?js = st"
    using assms(3) unfolding st' wf_counters_def
    by (intro nth_equalityI) (auto simp: undo_try [OF _ acc])
  ultimately show ?thesis by simp
qed

end

section \<open>The three resources\<close>

interpretation memres: scope_resource
  "\<lambda>rc. reserveMemory rc sz prio" "\<lambda>rc. releaseMemory rc sz"
  "\<lambda>st e. ReleaseMemoryForChild st e sz" "\<lambda>st i. ReleaseMemory st i sz"
  "\<lambda>st e. map_option snd (ReserveMemoryForChild st e sz prio)"
  "\<lambda>st es. reserveMemoryOnEdges st es sz prio" "\<lambda>st i. ReserveMemory st i sz prio" for sz prio
proof (unfold_locales, goal_cases)
  case (5 st i)
  show ?case
    by (auto simp: ReserveMemoryForChild_def split: sum.splits bind_splits)
next
  case (7 st i)
  show ?case by (rule ReserveMemory.simps)
qed (simp_all add: ReleaseMemoryForChild_def reserveMemoryOnEdges_def ReleaseMemory.simps Let_def)

interpretation strres: scope_resource
  "\<lambda>rc. addStream rc dir" "\<lambda>rc. removeStream rc dir"
  "\<lambda>st e. RemoveStreamForChild st e dir" "\<lambda>st i. RemoveStream st i dir"
  "\<lambda>st e. map_option snd (AddStreamForChild st e dir)"
  "\<lambda>st es. addStreamOnEdges st es dir" "\<lambda>st i. AddStream st i dir" for dir
proof (unfold_locales, goal_cases)
  case (5 st i)
  show ?case
    by (auto simp: AddStreamForChild_def split: sum.splits bind_splits)
next
  case (7 st i)
  show ?case by (rule AddStream.simps)
qed (simp_all add: RemoveStreamForChild_def addStreamOnEdges_def RemoveStream.simps Let_def)

interpretation conres: scope_resource
  "\<lambda>rc. addConn rc dir usefd" "\<lambda>rc. removeConn rc dir usefd"
  "\<lambda>st e. RemoveConnForChild st e dir usefd" "\<lambda>st i. RemoveConn st i dir usefd"
  "\<lambda>st e. map_option snd (AddConnForChild st e dir usefd)"
  "\<lambda>st es. addConnOnEdges st es dir usefd" "\<lambda>st i. AddConn st i dir usefd" for dir usefd
proof (unfold_locales, goal_cases)
  case (5 st i)
  show ?case
    by (auto simp: AddConnForChild_def split: sum.splits bind_splits)
next
  case (7 st i)
  show ?case by (rule AddConn.simps)
qed (simp_all add: RemoveConnForChild_def addConnOnEdges_def RemoveConn.simps)

text \<open>\<open>ReleaseResources\<close> takes back a whole stat by the same plan.\<close>

interpretation statrel: scope_release
  "\<lambda>r. release_stat r q" "\<lambda>st e. ReleaseForChild st e q" "\<lambda>st i. ReleaseResources st i q" for q
  by unfold_locales (simp_all add: ReleaseForChild_def ReleaseResources.simps Let_def)

section \<open>Whole stats, and the end of a scope\<close>

lemma reserveMemory_result:
  "reserveMemory rc m prio = Inr r \<Longrightarrow> r = rc\<lparr>memory := add64 (memory rc) m\<rparr>"
  by (simp add: reserveMemory_def split: option.splits)

lemma addStreams_result:
  "addStreams rc i out = Inr r \<Longrightarrow>
     r = rc\<lparr>nstreamsIn := add64 (nstreamsIn rc) i, nstreamsOut := add64 (nstreamsOut rc) out\<rparr>"
  by (auto simp: addStreams_def Let_def split: if_split_asm)

lemma addConns_result:
  "addConns rc i out fd = Inr r \<Longrightarrow>
     r = rc\<lparr>nconnsIn := add64 (nconnsIn rc) i, nconnsOut := add64 (nconnsOut rc) out,
            nfd := add64 (nfd rc) fd\<rparr>"
  by (auto simp: addConns_def Let_def split: if_split_asm)

lemmas acquire_results = reserveMemory_result addStreams_result addConns_result

lemma counter_back:
  "counter_ok n \<Longrightarrow> (if sub64 (add64 n k) k < 0 then 0 else sub64 (add64 n k) k) = n"
  by (simp add: sub64_add64 counter_ok_def int64_range_def)

lemma ReserveForChild_spec:
  assumes "scope_at st i = Some s" "rc_wf (scRC s)"
  shows "(\<exists>err. ReserveForChild st i q = Some (Some err, st)) \<or>
     (\<exists>r. ReserveForChild st i q = Some (None, st[i := s\<lparr>scRC := r\<rparr>])
        \<and> \<not> scDone s \<and> release_stat r q = scRC s)"
proof -
  let ?rc = "scRC s"
  have i: "st[i := s] = st" using assms(1) by (auto simp: scope_at_def split: if_splits)
  note wf = assms(2) [unfolded rc_wf_def]
  show ?thesis
  proof (cases "scDone s")
    case True
    then show ?thesis using assms(1) by (simp add: ReserveForChild_def)
  next
    case op: False
    show ?thesis
    proof (cases "reserveMemory ?rc (MemoryStat q) 255")
      case (Inl e)
      then show ?thesis using assms(1) op by (simp add: ReserveForChild_def)
    next
      case r1: (Inr r1)
      note eq1 = reserveMemory_result [OF r1]
      show ?thesis
      proof (cases "addStreams r1 (NumStreamsInbound q) (NumStreamsOutbound q)")
        case (Inl e)
        have "releaseMemory r1 (MemoryStat q) = ?rc"
          using wf by (simp add: eq1 releaseMemory_def Let_def counter_back)
        then show ?thesis using assms(1) op r1 Inl i by (simp add: ReserveForChild_def)
      next
        case r2: (Inr r2)
        note eq2 = addStreams_result [OF r2]
        have undone: "removeStreams (releaseMemory r2 (MemoryStat q))
            (NumStreamsInbound q) (NumStreamsOutbound q) = ?rc"
          using wf by (simp add: eq2 eq1 releaseMemory_def removeStreams_def Let_def counter_back)
        show ?thesis
        proof (cases "addConns r2 (NumConnsInbound q) (NumConnsOutbound q) (NumFD q)")
          case (Inl e)
          then show ?thesis using assms(1) op r1 r2 i undone by (simp add: ReserveForChild_def)
        next
          case r3: (Inr r3)
          have "release_stat r3 q = ?rc"
            using wf
            by (simp add: addConns_result [OF r3] eq2 eq1 release_stat_def releaseMemory_def
                removeStreams_def removeConns_def Let_def counter_back)
          then show ?thesis
            using assms(1) op r1 r2 r3
            by (intro disjI2 exI [of _ r3]) (simp add: ReserveForChild_def)
        qed
      qed
    qed
  qed
qed



section \<open>Properties\<close>

text \<open>A system scope, a transient scope below it, a connection scope below both and a span of
  the connection.\<close>

definition example_scope :: "sid option \<Rightarrow> sid list \<Rightarrow> rscope" where
  "example_scope ow es = \<lparr>scDone = False, scRefCnt = 0, scSpanID = 0,
     scRC = empty_resources example_limit, scOwner = ow, scEdges = es, scName = ''scope''\<rparr>"

definition example_store :: store where
  "example_store = [example_scope None [], example_scope None [0], example_scope None [1, 0],
     example_scope (Some 2) []]"

lemma example_store_wf: "wf_graph example_store"
  by code_simp

lemma example_charged: "charged example_store 3 = [3, 2, 1, 0]"
  by code_simp

lemma example_counters: "wf_counters example_store [3, 2, 1, 0]"
  by code_simp

lemma example_length: "3 < length example_store"
  by code_simp

lemmas example_store_facts = example_store_wf example_length
  example_counters [folded example_charged]

text \<open>C9: A memory reservation on a scope is atomic: when every scope it is accounted to (the
  owners of a span up to its root scope, and the edges of that) is open and accepts the amount, it
  is added to each of them exactly once; otherwise the call returns an error and no scope at all
  has changed.  In both cases the call returns.\<close>

theorem ReserveMemory_atomic:
  assumes "wf_graph st" and "i < length st" and "wf_counters st (charged st i)"
  shows "if all_accept (\<lambda>rc. reserveMemory rc sz prio) st (charged st i)
     then ReserveMemory st i sz prio =
            Some (None, charge_all (\<lambda>rc. reserveMemory rc sz prio) st (charged st i))
     else \<exists>err. ReserveMemory st i sz prio = Some (Some err, st)"
  by (rule memres.acquire_spec [OF assms])

theorem ReserveMemory_atomic_witness:
  "(\<exists>st'. ReserveMemory example_store 3 100 255 = Some (None, st')) \<and>
   (\<exists>err. ReserveMemory example_store 3 4096 255 = Some (Some err, example_store))"
proof -
  have "all_accept (\<lambda>rc. reserveMemory rc 100 255) example_store (charged example_store 3)"
    "\<not> all_accept (\<lambda>rc. reserveMemory rc 4096 255) example_store (charged example_store 3)"
    unfolding example_charged by code_simp+
  then show ?thesis
    using ReserveMemory_atomic [OF example_store_facts, of 100 255]
      ReserveMemory_atomic [OF example_store_facts, of 4096 255] by simp
qed

text \<open>C10: Adding a stream to a scope is atomic in the same way: every scope it is accounted to
  counts it once, or an error is returned and no scope has changed.\<close>

theorem AddStream_atomic:
  assumes "wf_graph st" and "i < length st" and "wf_counters st (charged st i)"
  shows "if all_accept (\<lambda>rc. addStream rc dir) st (charged st i)
     then AddStream st i dir = Some (None, charge_all (\<lambda>rc. addStream rc dir) st (charged st i))
     else \<exists>err. AddStream st i dir = Some (Some err, st)"
  by (rule strres.acquire_spec [OF assms])

theorem AddStream_atomic_witness:
  "\<exists>st'. AddStream example_store 3 DirInbound = Some (None, st')"
proof -
  have "all_accept (\<lambda>rc. addStream rc DirInbound) example_store (charged example_store 3)"
    unfolding example_charged by code_simp
  then show ?thesis using AddStream_atomic [OF example_store_facts, of DirInbound] by simp
qed

text \<open>Adding a connection to a scope, with or without a file descriptor, is atomic in the same
  way.\<close>

theorem AddConn_atomic:
  assumes "wf_graph st" and "i < length st" and "wf_counters st (charged st i)"
  shows "if all_accept (\<lambda>rc. addConn rc dir usefd) st (charged st i)
     then AddConn st i dir usefd =
            Some (None, charge_all (\<lambda>rc. addConn rc dir usefd) st (charged st i))
     else \<exists>err. AddConn st i dir usefd = Some (Some err, st)"
  by (rule conres.acquire_spec [OF assms])

theorem AddConn_atomic_witness:
  "\<exists>st'. AddConn example_store 3 DirOutbound True = Some (None, st')"
proof -
  have "all_accept (\<lambda>rc. addConn rc DirOutbound True) example_store (charged example_store 3)"
    unfolding example_charged by code_simp
  then show ?thesis using AddConn_atomic [OF example_store_facts, of DirOutbound True] by simp
qed

text \<open>C11: A release is the inverse of the acquisition it answers: after a memory reservation, a
  stream or a connection was granted to a scope, releasing it returns every scope of the store to
  its state before the acquisition.\<close>

theorem release_undoes_acquire:
  assumes "wf_graph st" and "i < length st" and "wf_counters st (charged st i)"
  shows "(ReserveMemory st i sz prio = Some (None, st1) \<longrightarrow> ReleaseMemory st1 i sz = Some st) \<and>
    (AddStream st i dir = Some (None, st2) \<longrightarrow> RemoveStream st2 i dir = Some st) \<and>
    (AddConn st i dir usefd = Some (None, st3) \<longrightarrow> RemoveConn st3 i dir usefd = Some st)"
  using memres.release_acquire [OF assms] strres.release_acquire [OF assms]
    conres.release_acquire [OF assms] by blast

theorem release_undoes_acquire_witness:
  "\<exists>st1 st2 st3. ReserveMemory example_store 3 100 255 = Some (None, st1)
     \<and> ReleaseMemory st1 3 100 = Some example_store
     \<and> AddStream example_store 3 DirInbound = Some (None, st2)
     \<and> RemoveStream st2 3 DirInbound = Some example_store
     \<and> AddConn example_store 3 DirOutbound True = Some (None, st3)
     \<and> RemoveConn st3 3 DirOutbound True = Some example_store"
proof -
  have "all_accept (\<lambda>rc. reserveMemory rc 100 255) example_store (charged example_store 3)"
    "all_accept (\<lambda>rc. addStream rc DirInbound) example_store (charged example_store 3)"
    "all_accept (\<lambda>rc. addConn rc DirOutbound True) example_store (charged example_store 3)"
    unfolding example_charged by code_simp+
  then obtain st1 st2 st3 where "ReserveMemory example_store 3 100 255 = Some (None, st1)"
    "AddStream example_store 3 DirInbound = Some (None, st2)"
    "AddConn example_store 3 DirOutbound True = Some (None, st3)"
    using memres.acquire_spec [OF example_store_facts, of 100 255]
      strres.acquire_spec [OF example_store_facts, of DirInbound]
      conres.acquire_spec [OF example_store_facts, of DirOutbound True] by simp
  then show ?thesis
    using release_undoes_acquire [OF example_store_facts, where sz = 100 and prio = 255
        and dir = DirInbound and ?st1.0 = st1 and ?st2.0 = st2]
      release_undoes_acquire [OF example_store_facts, where dir = DirOutbound and usefd = True
        and ?st3.0 = st3] by blast
qed

text \<open>C14: Reserving the whole usage of a child (memory, streams, connections and descriptors
  together) is atomic: a refusal of any part leaves the store as it was, and after a success
  \<open>ReleaseForChild\<close> with the same usage restores it.\<close>

theorem ReserveForChild_atomic:
  assumes "i < length st" and "rc_wf (scRC (st ! i))"
  shows "(\<exists>err. ReserveForChild st i q = Some (Some err, st)) \<or>
    (\<exists>st'. ReserveForChild st i q = Some (None, st') \<and> ReleaseForChild st' i q = Some st)"
  using ReserveForChild_spec [of st i "st ! i" q] assms
  by (auto simp: ReleaseForChild_def scope_at_def)

theorem ReserveForChild_atomic_witness:
  "(\<exists>err. ReserveForChild example_store 0 (empty_stat\<lparr>NumConnsInbound := 3\<rparr>)
      = Some (Some err, example_store)) \<or>
   (\<exists>st'. ReserveForChild example_store 0 (empty_stat\<lparr>NumConnsInbound := 3\<rparr>) = Some (None, st')
      \<and> ReleaseForChild st' 0 (empty_stat\<lparr>NumConnsInbound := 3\<rparr>) = Some example_store)"
  by (rule ReserveForChild_atomic) code_simp+



text \<open>A span begun on an open scope is a new scope at the end of the store, owned by that
  scope and without edges, with its limit and empty counters and a name that \<open>IsSpan\<close> recognises;
  the owner gains one reference.\<close>

theorem BeginSpan_named:
  assumes "BeginSpan st i = Some (Inr k, st')"
  shows "k = length st \<and> length st' = Suc k \<and> IsSpan (scName (st' ! k)) \<and>
    scOwner (st' ! k) = Some i \<and> scEdges (st' ! k) = [] \<and>
    scRC (st' ! k) = empty_resources (limit (scRC (st ! i))) \<and>
    scRefCnt (st' ! i) = scRefCnt (st ! i) + 1"
  using assms
  by (auto simp: BeginSpan_def newResourceScopeSpan_def nextSpanID_def scope_at_def IsSpan_def
      strContains_append [of _ "''.span-''", simplified] nth_append bind_eq_Some_conv split: if_splits)

theorem BeginSpan_named_witness:
  "\<exists>k st'. BeginSpan example_store 2 = Some (Inr k, st') \<and> IsSpan (scName (st' ! k))"
proof -
  obtain k st' where "BeginSpan example_store 2 = Some (Inr k, st')"
    by (simp add: BeginSpan_def newResourceScopeSpan_def nextSpanID_def scope_at_def
        example_store_def example_scope_def)
  then show ?thesis using BeginSpan_named by blast
qed

end
