(* ===== verification/Accounting.thy ===== *)
theory Accounting
  imports Scope_Contract
begin

text \<open>
  The books of the scope graph.  \<open>own c x\<close> is how much of the resource \<open>c\<close> callers hold on the
  scope \<open>x\<close> itself.  An open scope must show, for every resource, what is held on it and on the
  open spans below it, and what is held below each open scope that has it as an edge.  The
  reference count of a scope must be the number of open scopes that have it as edge or owner.
  Both are stated with a term for what an operation that is still running has in hand, so that
  each primitive of the store moves the books by a fixed rule.
\<close>

section \<open>The six counters\<close>

datatype counter = CStreamsIn | CStreamsOut | CConnsIn | CConnsOut | CFd | CMem

fun cval :: "counter \<Rightarrow> resources \<Rightarrow> int" where
  "cval CStreamsIn r = nstreamsIn r"
| "cval CStreamsOut r = nstreamsOut r"
| "cval CConnsIn r = nconnsIn r"
| "cval CConnsOut r = nconnsOut r"
| "cval CFd r = nfd r"
| "cval CMem r = memory r"

fun sval :: "counter \<Rightarrow> ScopeStat \<Rightarrow> int" where
  "sval CStreamsIn q = NumStreamsInbound q"
| "sval CStreamsOut q = NumStreamsOutbound q"
| "sval CConnsIn q = NumConnsInbound q"
| "sval CConnsOut q = NumConnsOutbound q"
| "sval CFd q = NumFD q"
| "sval CMem q = MemoryStat q"

lemma sval_stat [simp]: "sval c (stat r) = cval c r"
  by (cases c) (simp_all add: stat_def)

lemma cval_empty [simp]: "cval c (empty_resources l) = 0"
  by (cases c) (simp_all add: empty_resources_def)

lemma rc_wf_cval: "rc_wf r \<longleftrightarrow> (\<forall>c. 0 \<le> cval c r \<and> cval c r \<le> MaxInt64)"
proof
  assume "rc_wf r"
  then have "0 \<le> cval c r \<and> cval c r \<le> MaxInt64" for c
    by (cases c) (simp_all add: rc_wf_def counter_ok_def)
  then show "\<forall>c. 0 \<le> cval c r \<and> cval c r \<le> MaxInt64" by blast
next
  assume "\<forall>c. 0 \<le> cval c r \<and> cval c r \<le> MaxInt64"
  from spec [OF this, of CStreamsIn] spec [OF this, of CStreamsOut] spec [OF this, of CConnsIn]
    spec [OF this, of CConnsOut] spec [OF this, of CFd] spec [OF this, of CMem]
  show "rc_wf r" by (simp add: rc_wf_def counter_ok_def)
qed

lemma cval_release_stat:
  assumes "rc_wf r" and "\<And>c. 0 \<le> sval c q \<and> sval c q \<le> cval c r"
  shows "cval c (release_stat r q) = cval c r - sval c q"
proof -
  have ok: "counter_ok (cval c r)" "counter_ok (sval c q)" "sval c q \<le> cval c r" for c
    using assms(1) assms(2) [of c] by (auto simp: rc_wf_cval counter_ok_def intro: order_trans)
  note oks = ok [of CStreamsIn] ok [of CStreamsOut] ok [of CConnsIn] ok [of CConnsOut]
    ok [of CFd] ok [of CMem]
  show ?thesis
    using oks
    by (cases c)
      (simp_all add: release_stat_def releaseMemory_def removeStreams_def removeConns_def Let_def
        clamp_sub64)
qed

section \<open>The chain of open owners\<close>

function chain :: "store \<Rightarrow> sid \<Rightarrow> sid list" where
  "chain st x =
    (if x < length st \<and> \<not> scDone (st ! x)
     then x # (case scOwner (st ! x) of Some ow \<Rightarrow> (if ow < x then chain st ow else []) | None \<Rightarrow> [])
     else [])"
  by pat_completeness auto
termination
  by (relation "measure snd") auto

declare chain.simps [simp del]

definition holders :: "store \<Rightarrow> sid \<Rightarrow> sid set" where
  "holders st p = {r. r < length st \<and> \<not> scDone (st ! r) \<and> scOwner (st ! r) = None \<and>
     p \<in> set (scEdges (st ! r))}"

definition open_spans :: "store \<Rightarrow> sid \<Rightarrow> sid set" where
  "open_spans st p = {x. x < length st \<and> \<not> scDone (st ! x) \<and> scOwner (st ! x) = Some p}"

definition below :: "store \<Rightarrow> sid \<Rightarrow> sid set" where
  "below st p = {x. x < length st \<and> p \<in> set (chain st x)}"

definition held_below :: "store \<Rightarrow> (sid \<Rightarrow> int) \<Rightarrow> sid \<Rightarrow> int" where
  "held_below st own p = (\<Sum>x \<in> below st p. own x)"

definition usage :: "store \<Rightarrow> (sid \<Rightarrow> int) \<Rightarrow> sid \<Rightarrow> int" where
  "usage st own p = held_below st own p + (\<Sum>r \<in> holders st p. held_below st own r)"

lemma finite_sets [simp]: "finite (holders st p)" "finite (open_spans st p)" "finite (below st p)"
  by (simp_all add: holders_def open_spans_def below_def)

lemma chain_span:
  "x < length st \<Longrightarrow> \<not> scDone (st ! x) \<Longrightarrow> scOwner (st ! x) = Some ow \<Longrightarrow> ow < x \<Longrightarrow>
     chain st x = x # chain st ow"
  by (subst chain.simps) simp

lemma chain_root:
  "x < length st \<Longrightarrow> \<not> scDone (st ! x) \<Longrightarrow> scOwner (st ! x) = None \<Longrightarrow> chain st x = [x]"
  by (subst chain.simps) simp

lemma chain_closed: "\<not> (x < length st \<and> \<not> scDone (st ! x)) \<Longrightarrow> chain st x = []"
  by (subst chain.simps) simp

lemma chain_cut:
  "x < length st \<Longrightarrow> \<not> scDone (st ! x) \<Longrightarrow> scOwner (st ! x) = Some ow \<Longrightarrow> \<not> ow < x \<Longrightarrow>
     chain st x = [x]"
  by (subst chain.simps) simp

lemma chain_mem_iff:
  "j \<in> set (chain st x) \<longleftrightarrow> x < length st \<and> \<not> scDone (st ! x) \<and>
     (j = x \<or> (\<exists>ow. scOwner (st ! x) = Some ow \<and> ow < x \<and> j \<in> set (chain st ow)))"
proof (cases "x < length st \<and> \<not> scDone (st ! x)")
  case True
  then show ?thesis
    by (cases "scOwner (st ! x)"; cases "the (scOwner (st ! x)) < x")
      (auto simp: chain_root chain_span chain_cut)
qed (auto simp: chain_closed)

lemma chain_open:
  "j \<in> set (chain st x) \<Longrightarrow> j < length st \<and> \<not> scDone (st ! j) \<and> j \<le> x"
proof (induction x rule: less_induct)
  case (less x)
  from less.prems less.IH show ?case
    unfolding chain_mem_iff [of j st x] by fastforce
qed

lemma chain_self: "x < length st \<Longrightarrow> \<not> scDone (st ! x) \<Longrightarrow> x \<in> set (chain st x)"
  by (rule iffD2 [OF chain_mem_iff]) simp

text \<open>What a release reaches: the chain, and the open edges of the root it ends in.\<close>

lemma released_iff:
  "p \<in> set (released st x) \<longleftrightarrow> p \<in> set (chain st x) \<or>
     (\<exists>r \<in> set (chain st x). scOwner (st ! r) = None \<and> p \<in> set (scEdges (st ! r)) \<and> \<not> scDone (st ! p))"
proof (induction x rule: less_induct)
  case (less x)
  show ?case
  proof (cases "x < length st \<and> \<not> scDone (st ! x)")
    case True
    show ?thesis
    proof (cases "scOwner (st ! x)")
      case None
      then show ?thesis using True by (auto simp: released.simps [of st x] chain_root)
    next
      case (Some ow)
      then show ?thesis
        using True less [of ow]
        by (auto simp: released.simps [of st x] chain.simps [of st x])
    qed
  next
    case False
    then show ?thesis by (auto simp: released.simps [of st x] chain.simps [of st x])
  qed
qed

text \<open>A chain has one root, its last scope.\<close>

lemma chain_one_root:
  "r \<in> set (chain st x) \<Longrightarrow> r' \<in> set (chain st x) \<Longrightarrow> scOwner (st ! r) = None \<Longrightarrow>
     scOwner (st ! r') = None \<Longrightarrow> r = r'"
proof (induction x rule: less_induct)
  case (less x)
  from less.prems(1,2) less.IH less.prems(3,4) show ?case
    unfolding chain_mem_iff [of _ st x] by auto
qed

text \<open>The chains that pass through a scope continue as the chain of that scope.\<close>

lemma chain_through:
  "i \<in> set (chain st x) \<Longrightarrow> \<exists>pre. chain st x = pre @ chain st i"
proof (induction x rule: less_induct)
  case (less x)
  show ?case
  proof (cases "i = x")
    case True
    then show ?thesis by (intro exI [of _ "[]"]) simp
  next
    case False
    then obtain ow where ow: "scOwner (st ! x) = Some ow" "ow < x" "i \<in> set (chain st ow)"
      "x < length st" "\<not> scDone (st ! x)"
      using less.prems chain_mem_iff [of i st x] by auto
    then obtain pre where "chain st ow = pre @ chain st i" using less.IH by blast
    then show ?thesis using ow by (intro exI [of _ "x # pre"]) (simp add: chain_span)
  qed
qed

lemma below_trans: "i \<in> set (chain st x) \<Longrightarrow> j \<in> set (chain st i) \<Longrightarrow> j \<in> set (chain st x)"
  using chain_through [of i st x] by auto

lemma below_done: "scDone (st ! p) \<Longrightarrow> below st p = {}"
  using chain_open by (auto simp: below_def)

section \<open>What depends on the skeleton only\<close>

lemma chain_skeleton:
  assumes "same_skeleton st st'"
  shows "chain st' x = chain st x"
proof (induction x rule: less_induct)
  case (less x)
  then show ?case
    using skeletonD [OF assms, of x] skeleton_length [OF assms]
    by (cases "x < length st")
      (simp_all add: chain.simps [of st x] chain.simps [of st' x] split: option.split)
qed

lemma graph_skeleton:
  assumes "same_skeleton st st'"
  shows "below st' p = below st p" "holders st' p = holders st p" "open_spans st' p = open_spans st p"
    "usage st' own p = usage st own p" "held_below st' own p = held_below st own p"
proof -
  show b: "below st' q = below st q" for q
    by (simp add: below_def chain_skeleton [OF assms] skeleton_length [OF assms])
  show h: "holders st' q = holders st q" for q
    using skeletonD [OF assms] by (auto simp: holders_def skeleton_length [OF assms])
  show "open_spans st' p = open_spans st p"
    using skeletonD [OF assms] by (auto simp: open_spans_def skeleton_length [OF assms])
  show "held_below st' own p = held_below st own p" "usage st' own p = usage st own p"
    by (simp_all add: usage_def held_below_def b h)
qed

section \<open>The books\<close>

type_synonym ledger = "counter \<Rightarrow> sid \<Rightarrow> int"

definition balanced :: "store \<Rightarrow> ledger \<Rightarrow> ledger \<Rightarrow> bool" where
  "balanced st own pend \<longleftrightarrow> (\<forall>c p. p < length st \<longrightarrow>
     cval c (scRC (st ! p)) = (if scDone (st ! p) then 0 else usage st (own c) p + pend c p))"

definition counted :: "store \<Rightarrow> (sid \<Rightarrow> int) \<Rightarrow> bool" where
  "counted st held \<longleftrightarrow> (\<forall>p < length st.
     scRefCnt (st ! p) = int (card (holders st p)) + int (card (open_spans st p)) + held p)"

definition edges_open :: "store \<Rightarrow> bool" where
  "edges_open st \<longleftrightarrow> (\<forall>r < length st. \<not> scDone (st ! r) \<longrightarrow> (\<forall>e \<in> set (scEdges (st ! r)). \<not> scDone (st ! e)))"

text \<open>What callers hold is never negative, all of it together can be counted (with one bit to spare,
  because the code adds the two directions before it compares them with their total limit), and
  nothing is held on a scope that does not exist yet.\<close>

abbreviation MaxHeld :: int where
  "MaxHeld \<equiv> 4611686018427387903"

definition sound :: "store \<Rightarrow> ledger \<Rightarrow> bool" where
  "sound st own \<longleftrightarrow> (\<forall>c x. 0 \<le> own c x) \<and> (\<forall>c. (\<Sum>x < length st. own c x) \<le> MaxHeld) \<and>
     (\<forall>c x. length st \<le> x \<longrightarrow> own c x = 0)"

definition bump :: "ledger \<Rightarrow> sid \<Rightarrow> (counter \<Rightarrow> int) \<Rightarrow> ledger" where
  "bump l i d = (\<lambda>c. (l c)(i := l c i + d c))"

definition reached :: "store \<Rightarrow> sid \<Rightarrow> sid set" where
  "reached st p = {x. x < length st \<and> p \<in> set (released st x)}"

lemma finite_reached [simp]: "finite (reached st p)"
  by (simp add: reached_def)

lemma holder_edge_root: "wf_graph st \<Longrightarrow> r \<in> holders st p \<Longrightarrow> scOwner (st ! p) = None \<and> p \<noteq> r \<and> p < length st"
  using wf_graph_edges [of st r] by (auto simp: holders_def)

lemma reached_split:
  "\<not> scDone (st ! p) \<Longrightarrow> reached st p = below st p \<union> (\<Union>r \<in> holders st p. below st r)"
  using chain_open by (fastforce simp: reached_def below_def holders_def released_iff)

lemma below_disjoint:
  assumes "wf_graph st" "r \<in> holders st p"
  shows "below st p \<inter> below st r = {}"
  using holder_edge_root [OF assms] chain_one_root [of p st _ r] assms(2)
  by (auto simp: below_def holders_def)

lemma holders_disjoint:
  "r \<in> holders st p \<Longrightarrow> r' \<in> holders st p \<Longrightarrow> r \<noteq> r' \<Longrightarrow> below st r \<inter> below st r' = {}"
  using chain_one_root [of r st _ r'] by (auto simp: below_def holders_def)

text \<open>The usage of an open scope is what is held on the scopes whose releases reach it.\<close>

lemma usage_reached:
  assumes "wf_graph st" "\<not> scDone (st ! p)"
  shows "usage st own p = (\<Sum>x \<in> reached st p. own x)"
proof -
  have "(\<Sum>x \<in> reached st p. own x) =
      (\<Sum>x \<in> below st p. own x) + (\<Sum>x \<in> (\<Union>r \<in> holders st p. below st r). own x)"
    unfolding reached_split [OF assms(2)]
    using below_disjoint [OF assms(1)] by (intro sum.union_disjoint) auto
  also have "(\<Sum>x \<in> (\<Union>r \<in> holders st p. below st r). own x) =
      (\<Sum>r \<in> holders st p. \<Sum>x \<in> below st r. own x)"
    using holders_disjoint by (intro sum.UNION_disjoint) auto
  finally show ?thesis by (simp add: usage_def held_below_def)
qed

lemma sum_bump:
  fixes f :: "'a \<Rightarrow> int"
  shows "finite A \<Longrightarrow> sum (f(i := f i + d)) A = sum f A + (if i \<in> A then d else 0)"
proof -
  assume A: "finite A"
  have "sum (f(i := f i + d)) A = (\<Sum>x\<in>A. f x + (if x = i then d else 0))"
    by (rule sum.cong) auto
  then show ?thesis using A by (simp add: sum.distrib)
qed

lemma usage_bump:
  assumes "wf_graph st" "\<not> scDone (st ! p)" "i < length st"
  shows "usage st (bump own i d c) p = usage st (own c) p + (if p \<in> set (released st i) then d c else 0)"
proof -
  have "i \<in> reached st p \<longleftrightarrow> p \<in> set (released st i)" using assms(3) by (simp add: reached_def)
  then show ?thesis
    using sum_bump [of "reached st p" "own c" i "d c"]
    by (simp add: usage_reached [OF assms(1,2)] bump_def)
qed

lemma usage_bounds:
  assumes "wf_graph st" "sound st own" "\<not> scDone (st ! p)"
  shows "0 \<le> usage st (own c) p \<and> usage st (own c) p \<le> MaxHeld"
proof -
  have "(\<Sum>x \<in> reached st p. own c x) \<le> (\<Sum>x < length st. own c x)"
    using assms(2) by (intro sum_mono2) (auto simp: reached_def sound_def)
  moreover have "(\<Sum>x < length st. own c x) \<le> MaxHeld" using assms(2) by (simp add: sound_def)
  moreover have "0 \<le> (\<Sum>x \<in> reached st p. own c x)"
    using assms(2) by (intro sum_nonneg) (simp add: sound_def)
  ultimately show ?thesis by (simp add: usage_reached [OF assms(1,3)])
qed

lemma balanced_rc_wf:
  assumes "wf_graph st" "balanced st own (\<lambda>_ _. 0)" "sound st own" "p < length st"
  shows "rc_wf (scRC (st ! p))"
  unfolding rc_wf_cval
proof
  fix c
  show "0 \<le> cval c (scRC (st ! p)) \<and> cval c (scRC (st ! p)) \<le> MaxInt64"
    using usage_bounds [OF assms(1,3), of p c] assms(2,4) by (cases "scDone (st ! p)") (simp_all add: balanced_def)
qed

text \<open>What a scope holds itself is part of the usage of every scope its release reaches.\<close>

lemma own_le_usage:
  assumes "wf_graph st" "sound st own" "x < length st" "p \<in> set (released st x)" "\<not> scDone (st ! p)"
  shows "own c x \<le> usage st (own c) p"
proof -
  have "x \<in> reached st p" using assms(3,4) by (simp add: reached_def)
  then have "own c x \<le> (\<Sum>y \<in> reached st p. own c y)"
    using assms(2) by (intro member_le_sum) (auto simp: sound_def)
  then show ?thesis by (simp add: usage_reached [OF assms(1,5)])
qed

abbreviation settled :: ledger where
  "settled \<equiv> \<lambda>_ _. 0"

definition books :: "store \<Rightarrow> ledger \<Rightarrow> ledger \<Rightarrow> (sid \<Rightarrow> int) \<Rightarrow> bool" where
  "books st own pend held \<longleftrightarrow> wf_graph st \<and> edges_open st \<and> balanced st own pend \<and> counted st held \<and>
     (\<forall>p < length st. rc_wf (scRC (st ! p)))"

lemma edges_open_skeleton:
  assumes "same_skeleton st st'" "wf_graph st"
  shows "edges_open st' = edges_open st"
proof -
  have "(\<forall>e \<in> set (scEdges (st ! r)). \<not> scDone (st' ! e)) = (\<forall>e \<in> set (scEdges (st ! r)). \<not> scDone (st ! e))"
    if "r < length st" for r
    using wf_graph_edges(3) [OF assms(2) that] skeletonD(1) [OF assms(1)] by auto
  then show ?thesis
    using skeletonD [OF assms(1)] by (auto simp: edges_open_def skeleton_length [OF assms(1)])
qed

text \<open>An operation that only changes counters of scopes leaves the graph and the references.\<close>

lemma books_update_all:
  assumes "books st own pend held"
    and "\<And>c p. p < length st \<Longrightarrow> cval c (scRC (update_all g st js ! p)) =
       (if scDone (st ! p) then 0 else usage st (own' c) p + pend' c p)"
    and "\<And>p. p < length st \<Longrightarrow> rc_wf (scRC (update_all g st js ! p))"
  shows "books (update_all g st js) own' pend' held"
proof -
  let ?st = "update_all g st js"
  note sk = skeleton_update_all [where st = st and g = g and js = js]
  have b: "wf_graph st" "edges_open st" "counted st held"
    using assms(1) by (auto simp: books_def)
  have "counted ?st held"
    using b(3) by (auto simp: counted_def graph_skeleton [OF sk])
  moreover have "balanced ?st own' pend'"
    using assms(2) by (auto simp: balanced_def graph_skeleton [OF sk] split: if_splits)
  ultimately show ?thesis
    using b assms(3) by (simp add: books_def wf_graph_skeleton [OF sk] edges_open_skeleton [OF sk])
qed

lemma sound_bump:
  assumes "sound st own" "i < length st" "\<And>c. 0 \<le> own c i + d c"
    and "\<And>c. (\<Sum>x < length st. own c x) + d c \<le> MaxHeld" "length st' = length st"
  shows "sound st' (bump own i d)"
  using assms(1,2,3) assms(4)
  by (auto simp: sound_def bump_def assms(5) sum_bump [of "{..<length st}", simplified])

section \<open>Limits\<close>

text \<open>A scope whose limits are numbers (none of the sentinel values a configuration may have left)
  stays within them.\<close>

definition fits :: "resources \<Rightarrow> bool" where
  "fits r \<longleftrightarrow> (nonneg_limit (limit r) \<and> Memory (limit r) \<le> MaxInt64 \<longrightarrow> within_limits r)"

definition all_fit :: "store \<Rightarrow> bool" where
  "all_fit st \<longleftrightarrow> (\<forall>p < length st. fits (scRC (st ! p)))"

lemma fits_empty [simp]: "fits (empty_resources l)"
  by (simp add: fits_def within_limits_empty) (simp add: empty_resources_def within_limits_def nonneg_limit_def)

lemma fits_le:
  assumes "fits r" "limit r' = limit r" "\<And>c. cval c r' \<le> cval c r"
  shows "fits r'"
  using assms(1,2) assms(3) [of CStreamsIn] assms(3) [of CStreamsOut] assms(3) [of CConnsIn]
    assms(3) [of CConnsOut] assms(3) [of CFd] assms(3) [of CMem]
  by (auto simp: fits_def within_limits_def Let_def)

lemma fits_reserveMemory:
  assumes "rc_wf r" "fits r" "reserveMemory r sz prio = Inr r'" "memory r + sz \<le> MaxHeld"
  shows "fits r'"
proof -
  have "0 \<le> sz" using assms(3) by (auto simp: reserveMemory_def checkMemory_def split: if_splits option.splits)
  then have "int64_range sz" using assms(1,4) by (simp add: int64_range_def rc_wf_def counter_ok_def)
  moreover have "limit r' = limit r" using mem.try_limit [OF assms(3)] .
  ultimately show ?thesis
    using assms within_limits_reserveMemory [of r sz prio r']
    by (auto simp: fits_def nonneg_limit_def int64_range_def)
qed

lemma fits_add:
  assumes "rc_wf r" "fits r" "0 \<le> i" "0 \<le> out"
  shows "addStreams r i out = Inr r' \<Longrightarrow> nstreamsIn r + i \<le> MaxHeld \<Longrightarrow> nstreamsOut r + out \<le> MaxHeld \<Longrightarrow> fits r'"
    "addConns r i out fd = Inr r' \<Longrightarrow> 0 \<le> fd \<Longrightarrow> nconnsIn r + i \<le> MaxHeld \<Longrightarrow> nconnsOut r + out \<le> MaxHeld \<Longrightarrow>
      nfd r + fd \<le> MaxHeld \<Longrightarrow> fits r'"
proof -
  show "fits r'" if a: "addStreams r i out = Inr r'" "nstreamsIn r + i \<le> MaxHeld" "nstreamsOut r + out \<le> MaxHeld"
    using assms a within_limits_add(1) [of r i out r'] addStreams_limit [OF a(1)] by (auto simp: fits_def)
  show "fits r'" if a: "addConns r i out fd = Inr r'" "0 \<le> fd" "nconnsIn r + i \<le> MaxHeld" "nconnsOut r + out \<le> MaxHeld"
      "nfd r + fd \<le> MaxHeld"
    using assms a within_limits_add(2) [of r i out fd r'] addConns_limit [OF a(1)] by (auto simp: fits_def)
qed

section \<open>Acquisitions and releases move the books\<close>

locale accounted = scope_resource try_rc undo_rc undoChild release tryChild onEdges acquire
  for try_rc :: "resources \<Rightarrow> rcmgr_error + resources" and undo_rc :: "resources \<Rightarrow> resources"
    and undoChild :: "store \<Rightarrow> sid \<Rightarrow> store option" and release :: "store \<Rightarrow> sid \<Rightarrow> store option"
    and tryChild :: "store \<Rightarrow> sid \<Rightarrow> (rcmgr_error option \<times> store) option"
    and onEdges :: "store \<Rightarrow> sid list \<Rightarrow> (rcmgr_error option \<times> store) option"
    and acquire :: "store \<Rightarrow> sid \<Rightarrow> (rcmgr_error option \<times> store) option" +
  fixes delta :: "counter \<Rightarrow> int"
  assumes try_delta: "rc_wf r \<Longrightarrow> try_rc r = Inr r' \<Longrightarrow> (\<And>c. cval c r + delta c \<le> MaxInt64) \<Longrightarrow>
      0 \<le> delta c \<and> cval c r' = cval c r + delta c"
    and undo_delta: "rc_wf r \<Longrightarrow> (\<And>c. 0 \<le> delta c \<and> delta c \<le> cval c r) \<Longrightarrow>
      cval c (undo_rc r) = cval c r - delta c"
    and try_fits: "rc_wf r \<Longrightarrow> fits r \<Longrightarrow> try_rc r = Inr r' \<Longrightarrow> (\<And>c. cval c r + delta c \<le> MaxHeld) \<Longrightarrow> fits r'"
begin

lemma acquire_parts:
  assumes bk: "books st own settled held" and snd: "sound st own" and i: "i < length st"
    and acq: "acquire st i = Some (None, st')"
    and room: "\<And>c. (\<Sum>x < length st. own c x) + delta c \<le> MaxHeld"
  shows "all_accept try_rc st (charged st i)" "st' = charge_all try_rc st (charged st i)"
    "p \<in> set (charged st i) \<Longrightarrow> p < length st"
    "p \<in> set (charged st i) \<Longrightarrow> cval c (scRC (st ! p)) + delta c \<le> MaxHeld"
proof -
  let ?js = "charged st i"
  have wf: "wf_graph st" and bal: "balanced st own settled" and rcs: "\<And>p. p < length st \<Longrightarrow> rc_wf (scRC (st ! p))"
    using bk by (auto simp: books_def)
  show js: "p \<in> set ?js \<Longrightarrow> p < length st" for p using charged_below [OF wf i] by blast
  then have "wf_counters st ?js" using rcs by (simp add: wf_counters_def)
  then show ok: "all_accept try_rc st ?js" and "st' = charge_all try_rc st ?js"
    using acquire_spec [OF wf i] acq by (auto split: if_splits)
  show "cval c (scRC (st ! p)) + delta c \<le> MaxHeld" if p: "p \<in> set ?js" for c p
  proof -
    have op: "\<not> scDone (st ! p)" using ok p by (simp add: all_accept_def)
    have "usage st (own c) p \<le> (\<Sum>x < length st. own c x)"
      unfolding usage_reached [OF wf op] using snd by (intro sum_mono2) (auto simp: reached_def sound_def)
    then show ?thesis using bal js [OF p] op room [of c] by (simp add: balanced_def)
  qed
qed

lemma acquire_fits:
  assumes "books st own settled held" "sound st own" "i < length st" "acquire st i = Some (None, st')"
    and "\<And>c. (\<Sum>x < length st. own c x) + delta c \<le> MaxHeld" and fit: "all_fit st"
  shows "all_fit st'"
proof -
  note parts = acquire_parts [OF assms(1-5)]
  have "fits (projr (try_rc (scRC (st ! p))))" if p: "p \<in> set (charged st i)" for p
  proof -
    have "try_rc (scRC (st ! p)) = Inr (projr (try_rc (scRC (st ! p))))"
      using parts(1) p by (simp add: all_accept_def)
    then show ?thesis
      using try_fits [of "scRC (st ! p)"] parts(3,4) [OF p] assms(1) fit by (auto simp: books_def all_fit_def)
  qed
  then show ?thesis using fit parts(3) by (auto simp: all_fit_def parts(2))
qed

lemma acquire_books:
  assumes bk: "books st own settled held" and snd: "sound st own" and i: "i < length st"
    and acq: "acquire st i = Some (None, st')"
    and room: "\<And>c. (\<Sum>x < length st. own c x) + delta c \<le> MaxHeld"
  shows "books st' (bump own i delta) settled held \<and> sound st' (bump own i delta) \<and> same_skeleton st st'"
proof -
  let ?js = "charged st i"
  have wf: "wf_graph st" and bal: "balanced st own settled" and rcs: "\<And>p. p < length st \<Longrightarrow> rc_wf (scRC (st ! p))"
    using bk by (auto simp: books_def)
  note parts = acquire_parts [OF bk snd i acq room]
  note ok = parts(1) and st' = parts(2) and js = parts(3)
  have rel: "released st i = ?js"
    using released_all_open [of st i] ok by (auto simp: all_accept_def)
  have fits: "cval c (scRC (st ! p)) + delta c \<le> MaxInt64" if p: "p \<in> set ?js" for c p
    using parts(4) [OF p, of c] by simp
  have step: "0 \<le> delta c \<and> cval c (projr (try_rc (scRC (st ! p)))) = cval c (scRC (st ! p)) + delta c"
    if p: "p \<in> set ?js" for c p
  proof -
    have "try_rc (scRC (st ! p)) = Inr (projr (try_rc (scRC (st ! p))))"
      using ok p by (simp add: all_accept_def)
    then show ?thesis using try_delta [OF rcs [OF js [OF p]]] fits [OF p] by blast
  qed
  have i_in: "i \<in> set ?js" using i by (subst charged_Cons) simp_all
  have "books st' (bump own i delta) settled held"
    unfolding st'
  proof (rule books_update_all [OF bk])
    fix c p assume p: "p < length st"
    show "cval c (scRC (charge_all try_rc st ?js ! p)) =
        (if scDone (st ! p) then 0 else usage st (bump own i delta c) p + 0)"
      using bal p step ok i by (auto simp: balanced_def usage_bump [OF wf] rel all_accept_def)
    show "rc_wf (scRC (charge_all try_rc st ?js ! p))"
      using rcs [OF p] p step fits by (auto simp: rc_wf_cval)
  qed
  moreover have "sound st' (bump own i delta)"
    using snd i room step [OF i_in] by (intro sound_bump [OF snd i]) (auto simp: st' sound_def)
  ultimately show ?thesis using skeleton_update_all [where st = st] by (simp add: st')
qed

lemma refused_books:
  assumes "books st own settled held" "i < length st" "acquire st i = Some (Some err, st')"
  shows "st' = st"
proof -
  have "wf_counters st (charged st i)"
    using assms(1,2) charged_below [of st i] by (auto simp: wf_counters_def books_def)
  then show ?thesis
    using acquire_spec [of st i] assms by (auto simp: books_def split: if_splits)
qed

lemma release_fits:
  assumes bk: "books st own settled held" and snd: "sound st own" and i: "i < length st"
    and rel: "release st i = Some st'" and d: "\<And>c. 0 \<le> delta c \<and> delta c \<le> own c i" and fit: "all_fit st"
  shows "all_fit st'"
proof -
  let ?js = "released st i"
  have wf: "wf_graph st" and bal: "balanced st own settled" and rcs: "\<And>p. p < length st \<Longrightarrow> rc_wf (scRC (st ! p))"
    using bk by (auto simp: books_def)
  have st': "st' = update_all undo_rc st ?js" using release_spec [OF wf i] rel by simp
  have "fits (undo_rc (scRC (st ! p)))" if p: "p \<in> set ?js" "p < length st" for p
  proof (rule fits_le [OF _ undo_limit])
    show "fits (scRC (st ! p))" using fit p by (simp add: all_fit_def)
    fix c
    have op: "\<not> scDone (st ! p)" using p chain_open [of p st i] unfolding released_iff by auto
    have "delta c \<le> cval c (scRC (st ! p))" for c
      using own_le_usage [OF wf snd i p(1) op, of c] op p(2) d [of c] bal by (simp add: balanced_def)
    then show "cval c (undo_rc (scRC (st ! p))) \<le> cval c (scRC (st ! p))"
      using undo_delta [OF rcs, of p c] p d by auto
  qed
  then show ?thesis
    using fit unfolding all_fit_def st' by (simp add: all_fit_def)
qed

lemma release_books:
  assumes bk: "books st own settled held" and snd: "sound st own" and i: "i < length st"
    and rel: "release st i = Some st'" and d: "\<And>c. 0 \<le> delta c \<and> delta c \<le> own c i"
    and op: "\<not> scDone (st ! i)"
  shows "books st' (bump own i (\<lambda>c. - delta c)) settled held \<and>
    sound st' (bump own i (\<lambda>c. - delta c)) \<and> same_skeleton st st'"
proof -
  let ?js = "released st i"
  have wf: "wf_graph st" and bal: "balanced st own settled" and rcs: "\<And>p. p < length st \<Longrightarrow> rc_wf (scRC (st ! p))"
    using bk by (auto simp: books_def)
  have st': "st' = update_all undo_rc st ?js" using release_spec [OF wf i] rel by simp
  have js: "p < length st \<and> \<not> scDone (st ! p)" if "p \<in> set ?js" for p
  proof -
    have "p < length st" using that charged_below [OF wf i] released_subset [of st i] by blast
    then show ?thesis using that chain_open [of p st i] unfolding released_iff by auto
  qed
  have enough: "delta c \<le> cval c (scRC (st ! p))" if p: "p \<in> set ?js" for c p
    using own_le_usage [OF wf snd i p, of c] js [OF p] d [of c] bal by (simp add: balanced_def)
  have step: "cval c (undo_rc (scRC (st ! p))) = cval c (scRC (st ! p)) - delta c"
    if p: "p \<in> set ?js" for c p
    using undo_delta [OF rcs, of p c] js [OF p] enough [OF p] d by blast
  have "books st' (bump own i (\<lambda>c. - delta c)) settled held"
    unfolding st'
  proof (rule books_update_all [OF bk])
    fix c p assume p: "p < length st"
    show "cval c (scRC (update_all undo_rc st ?js ! p)) =
        (if scDone (st ! p) then 0 else usage st (bump own i (\<lambda>c. - delta c) c) p + 0)"
      using bal p step js i by (auto simp: balanced_def usage_bump [OF wf])
    show "rc_wf (scRC (update_all undo_rc st ?js ! p))"
    proof (cases "p \<in> set ?js")
      case True
      have "0 \<le> cval c (undo_rc (scRC (st ! p))) \<and> cval c (undo_rc (scRC (st ! p))) \<le> MaxInt64" for c
      proof -
        have "cval c (scRC (st ! p)) \<le> MaxInt64" using rcs [OF p] by (simp add: rc_wf_cval)
        then show ?thesis using step [OF True, of c] enough [OF True, of c] d [of c] by linarith
      qed
      then show ?thesis using p True by (simp add: rc_wf_cval)
    qed (use rcs p in simp)
  qed
  moreover have "sound st' (bump own i (\<lambda>c. - delta c))"
  proof (rule sound_bump [OF snd i])
    fix c
    show "0 \<le> own c i + - delta c" using d [of c] by simp
    show "(\<Sum>x < length st. own c x) + - delta c \<le> MaxHeld"
      using snd d [of c] by (auto simp: sound_def intro: order_trans [of _ "\<Sum>x < length st. own c x"])
  qed (simp add: st')
  ultimately show ?thesis using skeleton_update_all [where st = st] by (simp add: st')
qed

end

lemma add64_counter: "0 \<le> n + k \<Longrightarrow> n + k \<le> MaxInt64 \<Longrightarrow> add64 n k = n + k"
  by (rule add64_exact) (simp add: int64_range_def)

lemma sub64_counter: "0 \<le> n - k \<Longrightarrow> n - k \<le> MaxInt64 \<Longrightarrow> sub64 n k = n - k"
  by (rule sub64_exact) (simp add: int64_range_def)

lemma reserveMemory_nonneg: "reserveMemory r sz prio = Inr r' \<Longrightarrow> 0 \<le> sz"
  by (auto simp: reserveMemory_def checkMemory_def split: if_splits option.splits)

definition mem_delta :: "int \<Rightarrow> counter \<Rightarrow> int" where
  "mem_delta sz c = (if c = CMem then sz else 0)"

definition stream_delta :: "Direction \<Rightarrow> counter \<Rightarrow> int" where
  "stream_delta dir c = (if c = (if dir = DirInbound then CStreamsIn else CStreamsOut) then 1 else 0)"

definition conn_delta :: "Direction \<Rightarrow> bool \<Rightarrow> counter \<Rightarrow> int" where
  "conn_delta dir usefd c = (if c = (if dir = DirInbound then CConnsIn else CConnsOut) then 1
     else if c = CFd \<and> usefd then 1 else 0)"

lemmas deltas = mem_delta_def stream_delta_def conn_delta_def

interpretation memacc: accounted
  "\<lambda>rc. reserveMemory rc sz prio" "\<lambda>rc. releaseMemory rc sz"
  "\<lambda>st e. ReleaseMemoryForChild st e sz" "\<lambda>st i. ReleaseMemory st i sz"
  "\<lambda>st e. map_option snd (ReserveMemoryForChild st e sz prio)"
  "\<lambda>st es. reserveMemoryOnEdges st es sz prio" "\<lambda>st i. ReserveMemory st i sz prio"
  "mem_delta sz" for sz prio
proof
  fix r r' c
  assume wf: "rc_wf r" and res: "reserveMemory r sz prio = Inr r'"
    and room: "\<And>c. cval c r + mem_delta sz c \<le> MaxInt64"
  have "add64 (memory r) sz = memory r + sz"
    using wf reserveMemory_nonneg [OF res] room [of CMem]
    by (intro add64_counter) (auto simp: rc_wf_def counter_ok_def deltas)
  then show "0 \<le> mem_delta sz c \<and> cval c r' = cval c r + mem_delta sz c"
    using reserveMemory_nonneg [OF res] by (cases c) (simp_all add: reserveMemory_result [OF res] deltas)
next
  fix r c
  assume wf: "rc_wf r" and d: "\<And>c. 0 \<le> mem_delta sz c \<and> mem_delta sz c \<le> cval c r"
  have "sub64 (memory r) sz = memory r - sz" "\<not> memory r - sz < 0"
    using wf d [of CMem] by (auto intro!: sub64_counter simp: rc_wf_def counter_ok_def deltas)
  then show "cval c (releaseMemory r sz) = cval c r - mem_delta sz c"
    by (cases c) (simp_all add: releaseMemory_def deltas)
next
  fix r r'
  assume a: "rc_wf r" "fits r" "reserveMemory r sz prio = Inr r'" and room: "\<And>c. cval c r + mem_delta sz c \<le> MaxHeld"
  show "fits r'" using room [of CMem] by (intro fits_reserveMemory [OF a]) (simp add: deltas)
qed

lemma one_more: "counter_ok n \<Longrightarrow> n + 1 \<le> MaxInt64 \<Longrightarrow> add64 n 1 = n + 1"
  "counter_ok n \<Longrightarrow> add64 n 0 = n"
  by (simp_all add: add64_exact counter_ok_def int64_range_def)

lemma one_less: "counter_ok n \<Longrightarrow> 1 \<le> n \<Longrightarrow> sub64 n 1 = n - 1" "counter_ok n \<Longrightarrow> sub64 n 0 = n"
  by (simp_all add: sub64_exact counter_ok_def int64_range_def)

interpretation stracc: accounted
  "\<lambda>rc. addStream rc dir" "\<lambda>rc. removeStream rc dir"
  "\<lambda>st e. RemoveStreamForChild st e dir" "\<lambda>st i. RemoveStream st i dir"
  "\<lambda>st e. map_option snd (AddStreamForChild st e dir)"
  "\<lambda>st es. addStreamOnEdges st es dir" "\<lambda>st i. AddStream st i dir" "stream_delta dir" for dir
proof
  fix r r' c
  assume wf: "rc_wf r" and res: "addStream r dir = Inr r'"
    and room: "\<And>c. cval c r + stream_delta dir c \<le> MaxInt64"
  have "r' = (if dir = DirInbound
      then r\<lparr>nstreamsIn := add64 (nstreamsIn r) 1, nstreamsOut := add64 (nstreamsOut r) 0\<rparr>
      else r\<lparr>nstreamsIn := add64 (nstreamsIn r) 0, nstreamsOut := add64 (nstreamsOut r) 1\<rparr>)"
    using res by (auto simp: addStream_def dest: addStreams_result split: if_splits)
  then show "0 \<le> stream_delta dir c \<and> cval c r' = cval c r + stream_delta dir c"
    using wf room [of CStreamsIn] room [of CStreamsOut]
    by (cases c) (auto simp: rc_wf_def one_more deltas)
next
  fix r c
  assume wf: "rc_wf r" and d: "\<And>c. 0 \<le> stream_delta dir c \<and> stream_delta dir c \<le> cval c r"
  show "cval c (removeStream r dir) = cval c r - stream_delta dir c"
    using wf d [of CStreamsIn] d [of CStreamsOut]
    by (cases c) (auto simp: removeStream_def removeStreams_def Let_def rc_wf_def one_less
        counter_ok_def deltas)
next
  fix r r'
  assume a: "rc_wf r" "fits r" "addStream r dir = Inr r'" and room: "\<And>c. cval c r + stream_delta dir c \<le> MaxHeld"
  show "fits r'"
  proof (cases "dir = DirInbound")
    case True
    show ?thesis
      by (rule fits_add(1) [OF a(1,2), of 1 0])
        (use True a(3) room [of CStreamsIn] room [of CStreamsOut] in \<open>simp_all add: addStream_def deltas\<close>)
  next
    case False
    show ?thesis
      by (rule fits_add(1) [OF a(1,2), of 0 1])
        (use False a(3) room [of CStreamsIn] room [of CStreamsOut] in \<open>simp_all add: addStream_def deltas\<close>)
  qed
qed

interpretation conacc: accounted
  "\<lambda>rc. addConn rc dir usefd" "\<lambda>rc. removeConn rc dir usefd"
  "\<lambda>st e. RemoveConnForChild st e dir usefd" "\<lambda>st i. RemoveConn st i dir usefd"
  "\<lambda>st e. map_option snd (AddConnForChild st e dir usefd)"
  "\<lambda>st es. addConnOnEdges st es dir usefd" "\<lambda>st i. AddConn st i dir usefd" "conn_delta dir usefd"
  for dir usefd
proof
  fix r r' c
  assume wf: "rc_wf r" and res: "addConn r dir usefd = Inr r'"
    and room: "\<And>c. cval c r + conn_delta dir usefd c \<le> MaxInt64"
  let ?fd = "if usefd then 1 else 0 :: int"
  have "r' = (if dir = DirInbound
      then r\<lparr>nconnsIn := add64 (nconnsIn r) 1, nconnsOut := add64 (nconnsOut r) 0,
             nfd := add64 (nfd r) ?fd\<rparr>
      else r\<lparr>nconnsIn := add64 (nconnsIn r) 0, nconnsOut := add64 (nconnsOut r) 1,
             nfd := add64 (nfd r) ?fd\<rparr>)"
    using res by (auto simp: addConn_def Let_def dest: addConns_result split: if_split_asm)
  then show "0 \<le> conn_delta dir usefd c \<and> cval c r' = cval c r + conn_delta dir usefd c"
    using wf room [of CConnsIn] room [of CConnsOut] room [of CFd]
    by (cases c; cases "dir = DirInbound"; cases usefd) (simp_all add: rc_wf_def one_more deltas)
next
  fix r c
  assume wf: "rc_wf r" and d: "\<And>c. 0 \<le> conn_delta dir usefd c \<and> conn_delta dir usefd c \<le> cval c r"
  show "cval c (removeConn r dir usefd) = cval c r - conn_delta dir usefd c"
    using wf d [of CConnsIn] d [of CConnsOut] d [of CFd]
    by (cases c; cases "dir = DirInbound"; cases usefd)
      (simp_all add: removeConn_def removeConns_def rc_wf_def one_less counter_ok_def deltas)
next
  fix r r'
  assume a: "rc_wf r" "fits r" "addConn r dir usefd = Inr r'" and room: "\<And>c. cval c r + conn_delta dir usefd c \<le> MaxHeld"
  show "fits r'"
  proof (cases "dir = DirInbound")
    case True
    show ?thesis
      by (rule fits_add(2) [OF a(1,2), of 1 0 "if usefd then 1 else 0"])
        (use True a(3) room [of CConnsIn] room [of CConnsOut] room [of CFd] in \<open>simp_all add: addConn_def Let_def deltas\<close>)
  next
    case False
    show ?thesis
      by (rule fits_add(2) [OF a(1,2), of 0 1 "if usefd then 1 else 0"])
        (use False a(3) room [of CConnsIn] room [of CConnsOut] room [of CFd] in \<open>simp_all add: addConn_def Let_def deltas\<close>)
  qed
qed

end
