(* ===== verification/Graph_Steps.thy ===== *)
theory Graph_Steps
  imports Accounting
begin

text \<open>
  How the steps that change the scope graph move the books: references, new scopes and spans, new
  edges, the reservation of a child's usage, and the end of a scope.
\<close>

section \<open>Updates of several scopes\<close>

definition map_on :: "(rscope \<Rightarrow> rscope) \<Rightarrow> sid list \<Rightarrow> store \<Rightarrow> store" where
  "map_on f js st = map (\<lambda>j. if j \<in> set js then f (st ! j) else st ! j) [0..<length st]"

lemma length_map_on [simp]: "length (map_on f js st) = length st"
  by (simp add: map_on_def)

lemma nth_map_on [simp]:
  "j < length st \<Longrightarrow> map_on f js st ! j = (if j \<in> set js then f (st ! j) else st ! j)"
  by (simp add: map_on_def)

lemma map_on_Cons: "j < length st \<Longrightarrow> j \<notin> set js \<Longrightarrow> map_on f (j # js) st = map_on f js (st[j := f (st ! j)])"
  by (rule nth_equalityI) (auto simp: nth_list_update)

lemma map_on_Nil [simp]: "map_on f [] st = st"
  by (rule nth_equalityI) auto

lemma forEach_map_on:
  assumes "\<And>st e. e < length st \<Longrightarrow> g st e = Some (st[e := f (st ! e)])"
    and "distinct es" "\<forall>e \<in> set es. e < length st"
  shows "forEach g st es = Some (map_on f es st)"
  using assms(2,3)
proof (induction es arbitrary: st)
  case (Cons e es)
  then show ?case using assms(1) by (simp add: map_on_Cons)
qed simp

text \<open>A step that keeps skeleton and counters and moves reference counts.\<close>

lemma books_refs:
  assumes "books st own pend held" and sk: "same_skeleton st st'"
    and rc: "\<And>p. p < length st \<Longrightarrow> scRC (st' ! p) = scRC (st ! p)"
    and refs: "\<And>p. p < length st \<Longrightarrow> scRefCnt (st' ! p) = scRefCnt (st ! p) + k p"
  shows "books st' own pend (\<lambda>p. held p + k p)"
proof -
  have b: "wf_graph st" "edges_open st" "balanced st own pend" "counted st held"
    "\<And>p. p < length st \<Longrightarrow> rc_wf (scRC (st ! p))"
    using assms(1) by (auto simp: books_def)
  have "balanced st' own pend"
    using b(3) skeletonD(1) [OF sk] rc
    by (auto simp: balanced_def graph_skeleton [OF sk] skeleton_length [OF sk])
  moreover have "counted st' (\<lambda>p. held p + k p)"
    using b(4) refs by (auto simp: counted_def graph_skeleton [OF sk] skeleton_length [OF sk])
  ultimately show ?thesis
    using b rc
    by (simp add: books_def wf_graph_skeleton [OF sk] edges_open_skeleton [OF sk] skeleton_length [OF sk])
qed

lemma skel_refs [simp]: "skel (s\<lparr>scRefCnt := n\<rparr>) = skel s" "skel (s\<lparr>scRC := r\<rparr>) = skel s"
  "skel (s\<lparr>scSpanID := n\<rparr>) = skel s"
  by (simp_all add: skel_def)

lemma IncRef_books:
  assumes "books st own pend held" "IncRef st e = Some st'"
  shows "books st' own pend (held(e := held e + 1)) \<and> same_skeleton st st'"
proof -
  have e: "e < length st" and st': "st' = st[e := (st ! e)\<lparr>scRefCnt := scRefCnt (st ! e) + 1\<rparr>]"
    using assms(2) by (auto simp: IncRef_def scope_at_def split: if_splits)
  have sk: "same_skeleton st st'" unfolding st' by (rule skeleton_update [OF e]) simp
  have "books st' own pend (\<lambda>p. held p + (if p = e then 1 else 0))"
    by (rule books_refs [OF assms(1) sk]) (auto simp: st' e nth_list_update)
  moreover have "(\<lambda>p. held p + (if p = e then 1 else 0)) = held(e := held e + 1)" by auto
  ultimately show ?thesis using sk by simp
qed

lemma DecRef_books:
  assumes "books st own pend held" "DecRef st e = Some st'"
  shows "books st' own pend (held(e := held e - 1)) \<and> same_skeleton st st'"
proof -
  have e: "e < length st" and st': "st' = st[e := (st ! e)\<lparr>scRefCnt := scRefCnt (st ! e) - 1\<rparr>]"
    using assms(2) by (auto simp: DecRef_def scope_at_def split: if_splits)
  have sk: "same_skeleton st st'" unfolding st' by (rule skeleton_update [OF e]) simp
  have "books st' own pend (\<lambda>p. held p + (if p = e then - 1 else 0))"
    by (rule books_refs [OF assms(1) sk]) (auto simp: st' e nth_list_update)
  moreover have "(\<lambda>p. held p + (if p = e then - 1 else 0)) = held(e := held e - 1)" by auto
  ultimately show ?thesis using sk by simp
qed

lemma ref_total: "e < length st \<Longrightarrow> \<exists>st'. IncRef st e = Some st'" "e < length st \<Longrightarrow> \<exists>st'. DecRef st e = Some st'"
  by (simp_all add: IncRef_def DecRef_def)

section \<open>New scopes\<close>

text \<open>The graph with one more scope at the end.\<close>

lemma chain_append:
  assumes "same_skeleton st st1" "x < length st"
  shows "chain (st1 @ [s]) x = chain st x"
  using assms(2)
proof (induction x rule: less_induct)
  case (less x)
  have nth: "(st1 @ [s]) ! x = st1 ! x" using less.prems skeleton_length [OF assms(1)] by (simp add: nth_append)
  show ?case
    using less skeletonD [OF assms(1) less.prems] skeleton_length [OF assms(1)]
    by (simp add: chain.simps [of "st1 @ [s]" x] chain.simps [of st x] nth split: option.split)
qed

lemma append_graph:
  assumes "same_skeleton st st1"
  shows "below (st1 @ [s]) p = below st p \<union> (if p \<in> set (chain (st1 @ [s]) (length st)) then {length st} else {})"
    "holders (st1 @ [s]) p = holders st p \<union>
       (if \<not> scDone s \<and> scOwner s = None \<and> p \<in> set (scEdges s) then {length st} else {})"
    "open_spans (st1 @ [s]) p = open_spans st p \<union>
       (if \<not> scDone s \<and> scOwner s = Some p then {length st} else {})"
proof -
  note len = skeleton_length [OF assms]
  have nth: "(st1 @ [s]) ! r = (if r < length st then st1 ! r else s)" if "r \<le> length st" for r
    using that len by (auto simp: nth_append)
  show "below (st1 @ [s]) p = below st p \<union> (if p \<in> set (chain (st1 @ [s]) (length st)) then {length st} else {})"
    using chain_append [OF assms] len by (auto simp: below_def less_Suc_eq)
  show "holders (st1 @ [s]) p = holders st p \<union>
       (if \<not> scDone s \<and> scOwner s = None \<and> p \<in> set (scEdges s) then {length st} else {})"
    using skeletonD [OF assms] nth len by (auto simp: holders_def less_Suc_eq)
  show "open_spans (st1 @ [s]) p = open_spans st p \<union>
       (if \<not> scDone s \<and> scOwner s = Some p then {length st} else {})"
    using skeletonD [OF assms] nth len by (auto simp: open_spans_def less_Suc_eq)
qed

lemma old_graph_bounds: "length st \<notin> below st p" "length st \<notin> holders st p" "length st \<notin> open_spans st p"
  by (auto simp: below_def holders_def open_spans_def)

text \<open>While nothing is held on the new scope, no usage changes.\<close>

lemma append_usage:
  assumes sk: "same_skeleton st st1" and zero: "own (length st) = 0"
    and k: "below (st1 @ [s]) (length st) \<subseteq> {length st}"
  shows "usage (st1 @ [s]) own p = usage st own p"
proof -
  have hb: "held_below (st1 @ [s]) own q = held_below st own q" for q
    using zero old_graph_bounds(1) [of st q] by (simp add: held_below_def append_graph(1) [OF sk])
  have "held_below (st1 @ [s]) own (length st) = 0"
    using k zero by (auto simp: held_below_def intro!: sum.neutral)
  then show ?thesis
    using hb old_graph_bounds(2) [of st p]
    by (simp add: usage_def append_graph(2) [OF sk])
qed

lemma fresh_usage:
  assumes "wf_graph st"
  shows "usage st own (length st) = 0"
proof -
  have "below st (length st) = {}" using chain_open by (fastforce simp: below_def)
  moreover have "holders st (length st) = {}"
    using wf_graph_edges(3) [OF assms] by (fastforce simp: holders_def)
  ultimately show ?thesis by (simp add: usage_def held_below_def)
qed

lemma append_counted:
  assumes "counted st held" and sk: "same_skeleton st st1" and "held (length st) = 0"
    and refs: "\<And>p. p < length st \<Longrightarrow> scRefCnt (st1 ! p) = scRefCnt (st ! p) +
      (if \<not> scDone s \<and> scOwner s = None \<and> p \<in> set (scEdges s) then 1 else 0) +
      (if \<not> scDone s \<and> scOwner s = Some p then 1 else 0)"
    and new: "scRefCnt s = 0" "length st \<notin> set (scEdges s)" "scOwner s \<noteq> Some (length st)"
    and wf: "wf_graph st"
  shows "counted (st1 @ [s]) held"
  unfolding counted_def
proof (intro allI impI)
  note len = skeleton_length [OF sk]
  fix p assume "p < length (st1 @ [s])"
  then consider "p < length st" | "p = length st" using len by fastforce
  then show "scRefCnt ((st1 @ [s]) ! p) = int (card (holders (st1 @ [s]) p)) +
      int (card (open_spans (st1 @ [s]) p)) + held p"
  proof cases
    case 1
    have "scRefCnt (st ! p) = int (card (holders st p)) + int (card (open_spans st p)) + held p"
      using assms(1) 1 by (simp add: counted_def)
    then show ?thesis
      using refs [OF 1] 1 len old_graph_bounds(2,3) [of st p]
      by (simp add: append_graph [OF sk] nth_append)
  next
    case 2
    have "holders st p = {}" using 2 holder_edge_root [OF wf, of _ p] by auto
    moreover have "x \<notin> open_spans st p" for x
      using 2 wf_graph_owner [OF wf, of x p] by (auto simp: open_spans_def)
    then have "open_spans st p = {}" by blast
    ultimately show ?thesis
      using 2 assms(3) new len by (simp add: append_graph [OF sk] nth_append)
  qed
qed

lemma append_balanced:
  assumes "balanced st own pend" and sk: "same_skeleton st st1" and wf: "wf_graph st"
    and rc: "\<And>p. p < length st \<Longrightarrow> scRC (st1 ! p) = scRC (st ! p)"
    and zero: "\<And>c. own c (length st) = 0" "\<And>c. pend c (length st) = 0" "scRC s = empty_resources l"
    and k: "below (st1 @ [s]) (length st) \<subseteq> {length st}"
  shows "balanced (st1 @ [s]) own pend"
  unfolding balanced_def
proof (intro allI impI)
  note len = skeleton_length [OF sk]
  have same: "usage (st1 @ [s]) (own c) q = usage st (own c) q" for c q
    by (rule append_usage [OF sk _ k]) (rule zero(1))
  fix c p assume "p < length (st1 @ [s])"
  then consider "p < length st" | "p = length st" using len by fastforce
  then show "cval c (scRC ((st1 @ [s]) ! p)) =
      (if scDone ((st1 @ [s]) ! p) then 0 else usage (st1 @ [s]) (own c) p + pend c p)"
  proof cases
    case 1
    then show ?thesis
      using assms(1) rc [OF 1] len skeletonD(1) [OF sk 1] by (auto simp: balanced_def nth_append same)
  next
    case 2
    then show ?thesis
      using zero len fresh_usage [OF wf] by (simp add: nth_append same)
  qed
qed

lemma new_scope_store:
  assumes "newResourceScope st lim es name = Some (k, st')" "distinct es" "\<forall>e \<in> set es. e < length st"
  shows "k = length st \<and> st' = map_on (\<lambda>s. s\<lparr>scRefCnt := scRefCnt s + 1\<rparr>) es st @
    [\<lparr>scDone = False, scRefCnt = 0, scSpanID = 0, scRC = empty_resources lim, scOwner = None,
      scEdges = es, scName = name\<rparr>]"
proof -
  have "forEach IncRef st es = Some (map_on (\<lambda>s. s\<lparr>scRefCnt := scRefCnt s + 1\<rparr>) es st)"
    by (rule forEach_map_on) (use assms(2,3) in \<open>auto simp: IncRef_def\<close>)
  then show ?thesis using assms(1) by (auto simp: newResourceScope_def)
qed

lemma skeleton_map_on: "(\<And>s. skel (f s) = skel s) \<Longrightarrow> same_skeleton st (map_on f js st)"
  by (rule nth_equalityI) auto

definition attachable :: "store \<Rightarrow> rscope \<Rightarrow> bool" where
  "attachable st s \<longleftrightarrow> \<not> scDone s \<and> scRefCnt s = 0 \<and> (\<exists>l. scRC s = empty_resources l) \<and>
     (case scOwner s of
        Some ow \<Rightarrow> ow < length st \<and> scEdges s = []
      | None \<Rightarrow> distinct (scEdges s) \<and> (\<forall>e \<in> set (scEdges s). e < length st \<and> scOwner (st ! e) = None \<and> \<not> scDone (st ! e)))"

lemma append_shape:
  assumes sk: "same_skeleton st st1" and wf: "wf_graph st" and s: "attachable st s"
  shows "wf_graph (st1 @ [s])"
proof -
  note len = skeleton_length [OF sk]
  have old: "scOwner ((st1 @ [s]) ! p) = scOwner (st ! p)" "scEdges ((st1 @ [s]) ! p) = scEdges (st ! p)"
    if "p < length st" for p
    using that skeletonD [OF sk that] len by (auto simp: nth_append)
  have new: "(st1 @ [s]) ! length st = s" by (simp add: len [symmetric])
  show ?thesis
    unfolding wf_graph_def
  proof (intro allI impI)
    fix i assume "i < length (st1 @ [s])"
    then consider "i < length st" | "i = length st" using len by fastforce
    then show "case scOwner ((st1 @ [s]) ! i) of Some ow \<Rightarrow> ow < i \<and> scEdges ((st1 @ [s]) ! i) = []
       | None \<Rightarrow> distinct (scEdges ((st1 @ [s]) ! i)) \<and> i \<notin> set (scEdges ((st1 @ [s]) ! i)) \<and>
         (\<forall>e\<in>set (scEdges ((st1 @ [s]) ! i)). e < length (st1 @ [s]) \<and> scOwner ((st1 @ [s]) ! e) = None)"
    proof cases
      case 1
      then show ?thesis
        using wf_graph_owner [OF wf 1] wf_graph_edges [OF wf 1] old [OF 1] old(1) len
        by (cases "scOwner (st ! i)") (auto simp: less_Suc_eq)
    next
      case 2
      then show ?thesis
        using s new old(1) len by (cases "scOwner s") (auto simp: attachable_def)
    qed
  qed
qed

lemma append_edges_open:
  assumes sk: "same_skeleton st st1" and wf: "wf_graph st" and eo: "edges_open st" and s: "attachable st s"
  shows "edges_open (st1 @ [s])"
  unfolding edges_open_def
proof (intro allI impI ballI)
  note len = skeleton_length [OF sk]
  have old: "scDone ((st1 @ [s]) ! p) = scDone (st ! p)" "scEdges ((st1 @ [s]) ! p) = scEdges (st ! p)"
    if "p < length st" for p
    using that skeletonD [OF sk that] len by (auto simp: nth_append)
  have new: "(st1 @ [s]) ! length st = s" by (simp add: len [symmetric])
  fix r e
  assume "r < length (st1 @ [s])" and r: "\<not> scDone ((st1 @ [s]) ! r)" "e \<in> set (scEdges ((st1 @ [s]) ! r))"
  then consider "r < length st" | "r = length st" using len by fastforce
  then show "\<not> scDone ((st1 @ [s]) ! e)"
  proof cases
    case 1
    then have "e < length st" "\<not> scDone (st ! e)"
      using r old [OF 1] wf_graph_edges(3) [OF wf 1] eo by (auto simp: edges_open_def)
    then show ?thesis by (simp add: old)
  next
    case 2
    then show ?thesis using r s new old(1) by (cases "scOwner s") (auto simp: attachable_def)
  qed
qed

lemma append_below:
  assumes "same_skeleton st st1" "wf_graph st"
  shows "below (st1 @ [s]) (length st) \<subseteq> {length st}"
  using append_graph(1) [OF assms(1), of s "length st"] chain_open [of "length st" st]
  by (fastforce simp: below_def split: if_splits)

text \<open>Adding a scope to the store keeps the books, when the references it takes are counted.\<close>

lemma append_books:
  assumes bk: "books st own pend held" and sk: "same_skeleton st st1" and s: "attachable st s"
    and rc: "\<And>p. p < length st \<Longrightarrow> scRC (st1 ! p) = scRC (st ! p)"
    and refs: "\<And>p. p < length st \<Longrightarrow> scRefCnt (st1 ! p) = scRefCnt (st ! p) +
      (if scOwner s = None \<and> p \<in> set (scEdges s) then 1 else 0) + (if scOwner s = Some p then 1 else 0)"
    and zero: "\<And>c. own c (length st) = 0" "\<And>c. pend c (length st) = 0" "held (length st) = 0"
  shows "books (st1 @ [s]) own pend held"
proof -
  have b: "wf_graph st" "edges_open st" "balanced st own pend" "counted st held"
    "\<And>p. p < length st \<Longrightarrow> rc_wf (scRC (st ! p))"
    using bk by (auto simp: books_def)
  obtain l where l: "scRC s = empty_resources l" using s by (auto simp: attachable_def)
  have fresh: "length st \<notin> set (scEdges s)" "scOwner s \<noteq> Some (length st)"
    using s by (auto simp: attachable_def split: option.splits)
  have "balanced (st1 @ [s]) own pend"
    by (rule append_balanced [OF b(3) sk b(1) rc zero(1,2) l append_below [OF sk b(1)]])
  moreover have "counted (st1 @ [s]) held"
    using s refs by (intro append_counted [OF b(4) sk zero(3) _ _ fresh b(1)]) (auto simp: attachable_def)
  moreover have "rc_wf (scRC ((st1 @ [s]) ! p))" if "p < length (st1 @ [s])" for p
    using that b(5) rc l skeleton_length [OF sk] by (auto simp: nth_append less_Suc_eq)
  ultimately show ?thesis
    using append_shape [OF sk b(1) s] append_edges_open [OF sk b(1,2) s] by (auto simp: books_def)
qed

lemma new_scope_books:
  assumes bk: "books st own pend held"
    and new: "newResourceScope st lim es name = Some (k, st')"
    and es: "distinct es" "\<forall>e \<in> set es. e < length st \<and> scOwner (st ! e) = None \<and> \<not> scDone (st ! e)"
    and zero: "\<And>c. own c (length st) = 0" "\<And>c. pend c (length st) = 0" "held (length st) = 0"
  shows "books st' own pend held"
proof -
  define f where "f = (\<lambda>s::rscope. s\<lparr>scRefCnt := scRefCnt s + 1\<rparr>)"
  define s where "s = \<lparr>scDone = False, scRefCnt = 0, scSpanID = 0, scRC = empty_resources lim,
    scOwner = None, scEdges = es, scName = name\<rparr>"
  have st': "st' = map_on f es st @ [s]"
    using new_scope_store [OF new es(1)] es(2) by (auto simp: f_def s_def)
  have sk: "same_skeleton st (map_on f es st)" by (rule skeleton_map_on) (simp add: f_def)
  have "attachable st s" using es by (auto simp: attachable_def s_def)
  then show ?thesis
    unfolding st' by (rule append_books [OF bk sk]) (auto simp: f_def s_def zero)
qed

lemma BeginSpan_books:
  assumes bk: "books st own pend held" and sp: "BeginSpan st i = Some (Inr k, st')"
    and zero: "\<And>c. own c (length st) = 0" "\<And>c. pend c (length st) = 0" "held (length st) = 0"
  shows "books st' own pend held"
proof -
  let ?s = "st ! i"
  define s where "s = \<lparr>scDone = False, scRefCnt = 0, scSpanID = 0,
    scRC = empty_resources (limit (scRC ?s)), scOwner = Some i, scEdges = [],
    scName = scName ?s @ ''.span-'' @ itoa (scSpanID ?s + 1)\<rparr>"
  define t where "t = ?s\<lparr>scRefCnt := scRefCnt ?s + 1, scSpanID := scSpanID ?s + 1\<rparr>"
  have i: "i < length st" and st': "st' = st[i := t] @ [s]"
    using sp by (auto simp: BeginSpan_def newResourceScopeSpan_def nextSpanID_def scope_at_def s_def t_def
        bind_eq_Some_conv split: if_splits)
  have sk: "same_skeleton st (st[i := t])" by (rule skeleton_update [OF i]) (simp add: t_def)
  have "attachable st s" using i by (auto simp: attachable_def s_def)
  then show ?thesis
    unfolding st'
    by (rule append_books [OF bk sk]) (auto simp: s_def t_def zero nth_list_update i)
qed

section \<open>One counter, and the usage of a child\<close>

text \<open>A change of the counters of one open scope is in hand until the graph explains it.\<close>

lemma books_one:
  assumes bk: "books st own pend held" and p: "p < length st" "\<not> scDone (st ! p)"
    and r: "rc_wf r" "\<And>c. cval c r = cval c (scRC (st ! p)) + d c"
  shows "books (st[p := (st ! p)\<lparr>scRC := r\<rparr>]) own (bump pend p d) held"
proof -
  let ?st = "st[p := (st ! p)\<lparr>scRC := r\<rparr>]"
  have sk: "same_skeleton st ?st" by (rule skeleton_update [OF p(1)]) simp
  have b: "wf_graph st" "edges_open st" "balanced st own pend" "counted st held"
    "\<And>x. x < length st \<Longrightarrow> rc_wf (scRC (st ! x))"
    using bk by (auto simp: books_def)
  have "balanced ?st own (bump pend p d)"
    using b(3) p r(2) unfolding balanced_def graph_skeleton [OF sk]
    by (auto simp: bump_def nth_list_update)
  moreover have "counted ?st held"
    using b(4) p(1) unfolding counted_def graph_skeleton [OF sk] by (auto simp: nth_list_update)
  ultimately show ?thesis
    using b r(1) p(1)
    by (auto simp: books_def wf_graph_skeleton [OF sk] edges_open_skeleton [OF sk] nth_list_update)
qed

lemma ReserveForChild_value:
  assumes "ReserveForChild st p q = Some (None, st')" and wf: "rc_wf (scRC (st ! p))"
    and room: "\<And>c. 0 \<le> sval c q \<and> cval c (scRC (st ! p)) + sval c q \<le> MaxInt64"
  shows "\<exists>r. st' = st[p := (st ! p)\<lparr>scRC := r\<rparr>] \<and> p < length st \<and> \<not> scDone (st ! p) \<and> rc_wf r \<and>
    (\<forall>c. cval c r = cval c (scRC (st ! p)) + sval c q)"
proof -
  have p: "p < length st" "\<not> scDone (st ! p)"
    using assms(1) by (auto simp: ReserveForChild_def scope_at_def split: if_splits)
  obtain r1 r2 r3 where r: "reserveMemory (scRC (st ! p)) (MemoryStat q) 255 = Inr r1"
    "addStreams r1 (NumStreamsInbound q) (NumStreamsOutbound q) = Inr r2"
    "addConns r2 (NumConnsInbound q) (NumConnsOutbound q) (NumFD q) = Inr r3"
    "st' = st[p := (st ! p)\<lparr>scRC := r3\<rparr>]"
    using assms(1) p by (auto simp: ReserveForChild_def split: sum.splits)
  have ok: "add64 (cval c (scRC (st ! p))) (sval c q) = cval c (scRC (st ! p)) + sval c q" for c
  proof (rule add64_counter)
    show "0 \<le> cval c (scRC (st ! p)) + sval c q" using wf room [of c] by (simp add: rc_wf_cval)
  qed (use room in simp)
  have val: "cval c r3 = cval c (scRC (st ! p)) + sval c q" for c
    using ok [of c]
    by (cases c)
      (simp_all add: reserveMemory_result [OF r(1)] addStreams_result [OF r(2)] addConns_result [OF r(3)])
  moreover have "rc_wf r3" using wf room by (simp add: rc_wf_cval val)
  ultimately show ?thesis using r(4) p by blast
qed

lemma reserve_child_books:
  assumes bk: "books st own pend held" and res: "ReserveForChild st p q = Some (None, st')"
    and p: "p < length st"
    and room: "\<And>c. 0 \<le> sval c q \<and> cval c (scRC (st ! p)) + sval c q \<le> MaxInt64"
  shows "books st' own (bump pend p (\<lambda>c. sval c q)) held \<and> same_skeleton st st'"
proof -
  have "rc_wf (scRC (st ! p))" using bk p by (simp add: books_def)
  from ReserveForChild_value [OF res this room] obtain r
    where r: "st' = st[p := (st ! p)\<lparr>scRC := r\<rparr>]" "\<not> scDone (st ! p)" "rc_wf r"
      "\<And>c. cval c r = cval c (scRC (st ! p)) + sval c q" by blast
  then show ?thesis using books_one [OF bk p r(2-4)] skeleton_update [OF p] by simp
qed

lemma reserve_child_refused:
  assumes "books st own pend held" "ReserveForChild st p q = Some (Some e, st')" "p < length st"
  shows "st' = st"
  using ReserveForChild_spec [of st p "st ! p" q] assms by (auto simp: books_def)

lemma release_child_books:
  assumes bk: "books st own pend held" and rel: "ReleaseForChild st p q = Some st'"
    and p: "p < length st" "\<not> scDone (st ! p)"
    and q: "\<And>c. 0 \<le> sval c q \<and> sval c q \<le> cval c (scRC (st ! p))"
  shows "books st' own (bump pend p (\<lambda>c. - sval c q)) held \<and> same_skeleton st st'"
proof -
  have wf: "rc_wf (scRC (st ! p))" using bk p by (simp add: books_def)
  have st': "st' = st[p := (st ! p)\<lparr>scRC := release_stat (scRC (st ! p)) q\<rparr>]"
    using rel p by (simp add: ReleaseForChild_def)
  have val: "cval c (release_stat (scRC (st ! p)) q) = cval c (scRC (st ! p)) + - sval c q" for c
    using cval_release_stat [OF wf q] by simp
  have "0 \<le> cval c (scRC (st ! p)) + - sval c q \<and> cval c (scRC (st ! p)) + - sval c q \<le> MaxInt64" for c
    using q [of c] wf by (auto simp: rc_wf_cval intro: order_trans [of _ "cval c (scRC (st ! p))"])
  then have "rc_wf (release_stat (scRC (st ! p)) q)" unfolding rc_wf_cval val by blast
  from books_one [OF bk p this val] show ?thesis using skeleton_update [OF p(1)] by (simp add: st')
qed

lemma child_total:
  "p < length st \<Longrightarrow> rc_wf (scRC (st ! p)) \<Longrightarrow> \<exists>res. ReserveForChild st p q = Some res"
  "p < length st \<Longrightarrow> \<exists>st'. ReleaseForChild st p q = Some st'"
  using ReserveForChild_spec [of st p "st ! p" q] by (auto simp: ReleaseForChild_def)

section \<open>New edges\<close>

lemma chain_same:
  assumes "length st' = length st"
    and "\<And>p. p < length st \<Longrightarrow> scDone (st' ! p) = scDone (st ! p) \<and> scOwner (st' ! p) = scOwner (st ! p)"
  shows "chain st' x = chain st x"
proof (induction x rule: less_induct)
  case (less x)
  then show ?case
    using assms by (cases "x < length st")
      (simp_all add: chain.simps [of st x] chain.simps [of st' x] split: option.split)
qed

definition with_edges :: "store \<Rightarrow> sid \<Rightarrow> sid list \<Rightarrow> store" where
  "with_edges st i es = st[i := (st ! i)\<lparr>scEdges := es\<rparr>]"

lemma with_edges_fields [simp]:
  "length (with_edges st i es) = length st"
  "p < length st \<Longrightarrow> scDone (with_edges st i es ! p) = scDone (st ! p)"
  "p < length st \<Longrightarrow> scOwner (with_edges st i es ! p) = scOwner (st ! p)"
  "p < length st \<Longrightarrow> scRC (with_edges st i es ! p) = scRC (st ! p)"
  "p < length st \<Longrightarrow> scRefCnt (with_edges st i es ! p) = scRefCnt (st ! p)"
  "p < length st \<Longrightarrow> scEdges (with_edges st i es ! p) = (if p = i then es else scEdges (st ! p))"
  by (cases "p = i"; simp add: with_edges_def)+

lemma with_edges_graph:
  assumes "i < length st" "scOwner (st ! i) = None" "\<not> scDone (st ! i)"
  shows "chain (with_edges st i es) x = chain st x"
    "below (with_edges st i es) p = below st p"
    "open_spans (with_edges st i es) p = open_spans st p"
    "held_below (with_edges st i es) own p = held_below st own p"
    "holders (with_edges st i es) p = (if p \<in> set es then insert i (holders st p) else holders st p - {i})"
    "i \<in> holders st p \<longleftrightarrow> p \<in> set (scEdges (st ! i))"
proof -
  show c: "chain (with_edges st i es) x = chain st x" for x by (rule chain_same) simp_all
  show b: "below (with_edges st i es) p = below st p" for p by (simp add: below_def c)
  show "open_spans (with_edges st i es) p = open_spans st p" by (auto simp: open_spans_def)
  show "held_below (with_edges st i es) own p = held_below st own p" by (simp add: held_below_def b)
  show "holders (with_edges st i es) p = (if p \<in> set es then insert i (holders st p) else holders st p - {i})"
    using assms by (auto simp: holders_def split: if_splits)
  show "i \<in> holders st p \<longleftrightarrow> p \<in> set (scEdges (st ! i))" using assms by (auto simp: holders_def)
qed

lemma usage_with_edges:
  assumes "i < length st" "scOwner (st ! i) = None" "\<not> scDone (st ! i)"
  shows "usage (with_edges st i es) own p = usage st own p +
    ((if p \<in> set es then 1 else 0) - (if p \<in> set (scEdges (st ! i)) then 1 else 0)) * held_below st own i"
proof -
  note g = with_edges_graph [OF assms]
  have del: "sum f (A - {i}) = sum f A - (if i \<in> A then f i else 0)" if "finite A" for f :: "sid \<Rightarrow> int" and A
    using that by (simp add: sum_diff1)
  show ?thesis
    using g(6) [of p] del [of "holders st p" "held_below st own"]
    by (auto simp: usage_def g sum.insert_if)
qed

lemma with_edges_shape:
  assumes wf: "wf_graph st" and eo: "edges_open st"
    and i: "i < length st" "scOwner (st ! i) = None" "\<not> scDone (st ! i)"
    and es: "distinct es" "i \<notin> set es" "\<forall>e \<in> set es. e < length st \<and> scOwner (st ! e) = None \<and> \<not> scDone (st ! e)"
  shows "wf_graph (with_edges st i es)" "edges_open (with_edges st i es)"
proof -
  show "wf_graph (with_edges st i es)"
    unfolding wf_graph_def
  proof (intro allI impI)
    fix x assume x: "x < length (with_edges st i es)"
    then show "case scOwner (with_edges st i es ! x) of
        Some ow \<Rightarrow> ow < x \<and> scEdges (with_edges st i es ! x) = []
      | None \<Rightarrow> distinct (scEdges (with_edges st i es ! x)) \<and> x \<notin> set (scEdges (with_edges st i es ! x)) \<and>
        (\<forall>e \<in> set (scEdges (with_edges st i es ! x)).
          e < length (with_edges st i es) \<and> scOwner (with_edges st i es ! e) = None)"
      using wf_graph_owner [OF wf, of x] wf_graph_edges [OF wf, of x] i es
      by (cases "scOwner (st ! x)") auto
  qed
  show "edges_open (with_edges st i es)"
    using eo es wf_graph_edges(3) [OF wf] by (auto simp: edges_open_def)
qed

text \<open>Replacing the edges of a scope moves what is held below it, and one reference, from the old
  edges to the new ones.\<close>

definition moved :: "store \<Rightarrow> sid \<Rightarrow> sid list \<Rightarrow> sid \<Rightarrow> int" where
  "moved st i es p = (if p \<in> set (scEdges (st ! i)) then 1 else 0) - (if p \<in> set es then 1 else 0)"

lemma with_edges_books:
  assumes bk: "books st own pend held"
    and i: "i < length st" "scOwner (st ! i) = None" "\<not> scDone (st ! i)"
    and es: "distinct es" "i \<notin> set es" "\<forall>e \<in> set es. e < length st \<and> scOwner (st ! e) = None \<and> \<not> scDone (st ! e)"
  shows "books (with_edges st i es) own (\<lambda>c p. pend c p + moved st i es p * held_below st (own c) i)
    (\<lambda>p. held p + moved st i es p)"
proof -
  have b: "wf_graph st" "edges_open st" "balanced st own pend" "counted st held"
    "\<And>x. x < length st \<Longrightarrow> rc_wf (scRC (st ! x))"
    using bk by (auto simp: books_def)
  note g = with_edges_graph [OF i]
  have "balanced (with_edges st i es) own (\<lambda>c p. pend c p + moved st i es p * held_below st (own c) i)"
    using b(3) by (auto simp: balanced_def usage_with_edges [OF i] moved_def algebra_simps)
  moreover have "counted (with_edges st i es) (\<lambda>p. held p + moved st i es p)"
    unfolding counted_def
  proof (intro allI impI)
    fix p assume p: "p < length (with_edges st i es)"
    have "int (card (holders (with_edges st i es) p)) = int (card (holders st p)) - moved st i es p"
    proof (cases "i \<in> holders st p")
      case True
      then have "0 < card (holders st p)" by (auto simp: card_gt_0_iff)
      then show ?thesis
        using True g(6) [of p] by (simp add: g moved_def insert_absorb card_Diff_singleton_if of_nat_diff)
    next
      case False
      then show ?thesis using g(6) [of p] by (auto simp: g moved_def)
    qed
    then show "scRefCnt (with_edges st i es ! p) = int (card (holders (with_edges st i es) p)) +
        int (card (open_spans (with_edges st i es) p)) + (held p + moved st i es p)"
      using b(4) p by (simp add: counted_def g)
  qed
  ultimately show ?thesis
    using with_edges_shape [OF b(1,2) i es] b(5) by (simp add: books_def)
qed

section \<open>The end of a scope\<close>

definition closed_at :: "store \<Rightarrow> sid \<Rightarrow> store" where
  "closed_at st i = st[i := (st ! i)\<lparr>scDone := True\<rparr>]"

lemma closed_at_fields [simp]:
  "length (closed_at st i) = length st"
  "p < length st \<Longrightarrow> scDone (closed_at st i ! p) \<longleftrightarrow> p = i \<or> scDone (st ! p)"
  "p < length st \<Longrightarrow> scOwner (closed_at st i ! p) = scOwner (st ! p)"
  "p < length st \<Longrightarrow> scEdges (closed_at st i ! p) = scEdges (st ! p)"
  by (cases "p = i"; simp add: closed_at_def)+

text \<open>A closed scope cuts the chains that run through it.\<close>

lemma chain_closed_at:
  "p \<in> set (chain (closed_at st i) x) \<longleftrightarrow>
     p \<in> set (chain st x) \<and> \<not> (i \<in> set (chain st x) \<and> p \<in> set (chain st i))"
proof (induction x rule: less_induct)
  case (less x)
  show ?case
  proof (cases "x < length st \<and> \<not> scDone (st ! x) \<and> x \<noteq> i")
    case True
    have up: "j < x" if "scOwner (st ! x) = Some ow" "ow < x" "j \<in> set (chain st ow)" for j ow
      using that chain_open [of j st ow] by simp
    have no: "\<not> (i \<in> set (chain st ow) \<and> x \<in> set (chain st i))"
      if "scOwner (st ! x) = Some ow" "ow < x" for ow
      using up [OF that, of i] chain_open [of x st i] by fastforce
    show ?thesis
      unfolding chain_mem_iff [of p "closed_at st i" x] chain_mem_iff [of p st x] chain_mem_iff [of i st x]
      using True less.IH no chain_mem_iff [of p st i] by auto
  next
    case False
    have "chain (closed_at st i) x = []"
      using False by (intro chain_closed) auto
    moreover have "x = i \<or> chain st x = []"
      using False by (auto intro: chain_closed)
    moreover have "p \<in> set (chain st i) \<Longrightarrow> i \<in> set (chain st i)"
      using chain_mem_iff [of p st i] chain_self [of i st] by blast
    ultimately show ?thesis by auto
  qed
qed

lemma released_closed_at:
  assumes wf: "wf_graph st" and p: "p < length st" "p \<noteq> i" "\<not> scDone (st ! p)"
  shows "p \<in> set (released (closed_at st i) x) \<longleftrightarrow>
      p \<in> set (released st x) \<and> \<not> (i \<in> set (chain st x) \<and> p \<in> set (released st i))"
proof -
  define via where "via = (\<lambda>r. scOwner (st ! r) = None \<and> p \<in> set (scEdges (st ! r)))"
  have old: "p \<in> set (released st y) \<longleftrightarrow> p \<in> set (chain st y) \<or> (\<exists>r \<in> set (chain st y). via r)" for y
    using p(3) by (simp add: released_iff via_def)
  have "(\<exists>r \<in> set (chain (closed_at st i) x). scOwner (closed_at st i ! r) = None \<and>
        p \<in> set (scEdges (closed_at st i ! r)) \<and> \<not> scDone (closed_at st i ! p)) \<longleftrightarrow>
      (\<exists>r \<in> set (chain (closed_at st i) x). via r)"
    by (rule bex_cong) (use chain_open [of _ "closed_at st i" x] p in \<open>auto simp: via_def\<close>)
  then have new: "p \<in> set (released (closed_at st i) x) \<longleftrightarrow>
      p \<in> set (chain (closed_at st i) x) \<or> (\<exists>r \<in> set (chain (closed_at st i) x). via r)"
    by (simp add: released_iff)
  show ?thesis
  proof (cases "i \<in> set (chain st x)")
    case False
    then show ?thesis unfolding new old Bex_def chain_closed_at by blast
  next
    case True
    have one: "r = r'" if "r \<in> set (chain st x)" "r' \<in> set (chain st i)"
        "scOwner (st ! r) = None" "scOwner (st ! r') = None" for r r'
      using chain_one_root [OF that(1) below_trans [OF True that(2)] that(3,4)] .
    have root: "scOwner (st ! p) = None \<and> p \<noteq> r" if "via r" "r \<in> set (chain st x)" for r
    proof -
      have "r < length st" using chain_open [OF that(2)] by simp
      from wf_graph_edges(2,3) [OF wf this] that(1) show ?thesis unfolding via_def by metis
    qed
    have out: "\<not> via r" if r: "p \<in> set (chain st x)" "p \<notin> set (chain st i)" "r \<in> set (chain st i)" for r
    proof
      assume v: "via r"
      then have "p = r" using one [OF r(1,3)] root [OF v below_trans [OF True r(3)]] by (simp add: via_def)
      then show False using r by simp
    qed
    have out': "p \<notin> set (chain st i) \<and> \<not> via r'"
      if r: "r \<in> set (chain st x)" "r \<notin> set (chain st i)" "via r" "r' \<in> set (chain st i)" for r r'
    proof
      show "p \<notin> set (chain st i)"
        using one [OF r(1), of p] root [OF r(3,1)] r(3) by (auto simp: via_def)
      show "\<not> via r'" using one [OF r(1,4)] r by (auto simp: via_def)
    qed
    have ne: "chain st i \<noteq> []" using chain_open [OF True] chain_self [of i st] by auto
    then obtain r0 where r0: "r0 \<in> set (chain st i)" by fastforce
    show ?thesis unfolding new old Bex_def chain_closed_at using True out out' r0 by blast
  qed
qed

lemma reached_closed_at:
  assumes "wf_graph st" "p < length st" "p \<noteq> i" "\<not> scDone (st ! p)"
  shows "reached (closed_at st i) p = reached st p - (if p \<in> set (released st i) then below st i else {})"
  by (auto simp: reached_def below_def released_closed_at [OF assms])

lemma below_reached:
  assumes "p \<in> set (released st i)" "\<not> scDone (st ! p)"
  shows "below st i \<subseteq> reached st p"
  using assms below_trans by (fastforce simp: below_def reached_def released_iff)

lemma closed_at_graph:
  assumes wf: "wf_graph st"
  shows "wf_graph (closed_at st i)"
  unfolding wf_graph_def
proof (intro allI impI)
  fix x assume "x < length (closed_at st i)"
  then show "case scOwner (closed_at st i ! x) of
      Some ow \<Rightarrow> ow < x \<and> scEdges (closed_at st i ! x) = []
    | None \<Rightarrow> distinct (scEdges (closed_at st i ! x)) \<and> x \<notin> set (scEdges (closed_at st i ! x)) \<and>
      (\<forall>e \<in> set (scEdges (closed_at st i ! x)). e < length (closed_at st i) \<and> scOwner (closed_at st i ! e) = None)"
    using wf_graph_owner [OF wf, of x] wf_graph_edges [OF wf, of x]
    by (cases "scOwner (st ! x)") auto
qed

lemma usage_closed_at:
  assumes wf: "wf_graph st" and p: "p < length st" "p \<noteq> i" "\<not> scDone (st ! p)" and i: "i < length st" "\<not> scDone (st ! i)"
  shows "usage (closed_at st i) (own(i := 0)) p =
    usage st own p - (if p \<in> set (released st i) then held_below st own i else 0)"
proof -
  have wf': "wf_graph (closed_at st i)" by (rule closed_at_graph [OF wf])
  have "i \<in> below st i" using i chain_self by (simp add: below_def)
  moreover have "i \<in> reached st p \<Longrightarrow> p \<in> set (released st i)" by (simp add: reached_def)
  ultimately have skip: "i \<notin> reached (closed_at st i) p"
    unfolding reached_closed_at [OF wf p] by auto
  have "usage (closed_at st i) (own(i := 0)) p = (\<Sum>x \<in> reached (closed_at st i) p. (own(i := 0)) x)"
    using p by (intro usage_reached [OF wf']) simp
  also have "\<dots> = (\<Sum>x \<in> reached (closed_at st i) p. own x)"
    using skip by (intro sum.cong) auto
  also have "\<dots> = (\<Sum>x \<in> reached st p. own x) - (if p \<in> set (released st i) then (\<Sum>x \<in> below st i. own x) else 0)"
    unfolding reached_closed_at [OF wf p] using below_reached [OF _ p(3)] by (simp add: sum_diff)
  finally show ?thesis by (simp add: usage_reached [OF wf p(3)] held_below_def)
qed

lemma closed_at_shape:
  assumes wf: "wf_graph st" and eo: "edges_open st" and free: "holders st i = {}"
  shows "wf_graph (closed_at st i)" "edges_open (closed_at st i)"
proof -
  show "wf_graph (closed_at st i)" by (rule closed_at_graph [OF wf])
  have "e \<noteq> i" if "r < length st" "\<not> scDone (st ! r)" "e \<in> set (scEdges (st ! r))" for r e
    using that free wf_graph_owner [OF wf that(1)] by (cases "scOwner (st ! r)") (auto simp: holders_def)
  then show "edges_open (closed_at st i)"
    using eo wf_graph_edges(3) [OF wf] by (auto simp: edges_open_def)
qed

lemma closed_at_refs:
  "holders (closed_at st i) p = holders st p - {i}" "open_spans (closed_at st i) p = open_spans st p - {i}"
  by (auto simp: holders_def open_spans_def)

text \<open>What \<open>Done\<close> leaves: the scopes a release from the scope reaches have given its usage back,
  its edges or its owner have lost a reference, and the scope is closed and empty.\<close>

definition done_effect :: "store \<Rightarrow> sid \<Rightarrow> store \<Rightarrow> bool" where
  "done_effect st i st' \<longleftrightarrow> same_skeleton (closed_at st i) st' \<and>
    (\<forall>p < length st. scRC (st' ! p) =
       (if p = i then empty_resources (limit (scRC (st ! i)))
        else if p \<in> set (released st i) then release_stat (scRC (st ! p)) (stat (scRC (st ! i)))
        else scRC (st ! p)) \<and>
      scRefCnt (st' ! p) = scRefCnt (st ! p) -
        (if p \<in> set (case scOwner (st ! i) of Some ow \<Rightarrow> [ow] | None \<Rightarrow> scEdges (st ! i)) then 1 else 0))"

lemma done_effectI:
  assumes sk: "same_skeleton st st1" and i: "i < length st" "st1 ! i = st ! i"
    and "\<And>p. p < length st \<Longrightarrow> p \<noteq> i \<Longrightarrow> scRC (st1 ! p) = (if p \<in> set (released st i)
      then release_stat (scRC (st ! p)) (stat (scRC (st ! i))) else scRC (st ! p))"
    and "\<And>p. p < length st \<Longrightarrow> scRefCnt (st1 ! p) = scRefCnt (st ! p) -
      (if p \<in> set (case scOwner (st ! i) of Some ow \<Rightarrow> [ow] | None \<Rightarrow> scEdges (st ! i)) then 1 else 0)"
  shows "done_effect st i (st1[i := (st ! i)\<lparr>scRC := empty_resources (limit (scRC (st ! i))), scDone := True\<rparr>])"
proof -
  have len: "length st1 = length st" by (rule skeleton_length [OF sk])
  have "same_skeleton (closed_at st i) (st1[i := (st ! i)\<lparr>scRC := empty_resources (limit (scRC (st ! i))), scDone := True\<rparr>])"
  proof (rule nth_equalityI)
    fix j assume "j < length (map skel (st1[i := (st ! i)\<lparr>scRC := empty_resources (limit (scRC (st ! i))), scDone := True\<rparr>]))"
    then show "map skel (st1[i := (st ! i)\<lparr>scRC := empty_resources (limit (scRC (st ! i))), scDone := True\<rparr>]) ! j =
        map skel (closed_at st i) ! j"
      using len skeleton_nth [OF sk, of j] by (cases "j = i") (simp_all add: closed_at_def skel_def)
  qed (simp add: len)
  then show ?thesis
    using i assms(4,5) assms(5) [OF i(1)] len unfolding done_effect_def by (auto simp: nth_list_update)
qed

lemma Done_effect:
  assumes wf: "wf_graph st" and eo: "edges_open st" and i: "i < length st" "\<not> scDone (st ! i)"
  shows "\<exists>st'. Done st i = Some st' \<and> done_effect st i st'"
proof (cases "scOwner (st ! i)")
  case (Some ow)
  define q where "q = stat (scRC (st ! i))"
  define stu where "stu = update_all (\<lambda>r. release_stat r q) st (released st ow)"
  define st1 where "st1 = stu[ow := (stu ! ow)\<lparr>scRefCnt := scRefCnt (stu ! ow) - 1\<rparr>]"
  have ow: "ow < i" using wf_graph_owner [OF wf i(1) Some] by simp
  have notin: "i \<notin> set (released st ow)"
    using span_not_charged_above [OF wf i(1) Some] released_subset [of st ow] by auto
  have len: "length stu = length st" by (simp add: stu_def)
  have "same_skeleton st stu" unfolding stu_def by (rule skeleton_update_all)
  moreover have "same_skeleton stu st1" unfolding st1_def using ow i(1) len by (intro skeleton_update) auto
  ultimately have sk: "same_skeleton st st1" by simp
  have "ReleaseResources st ow q = Some stu"
    unfolding stu_def using ow i(1) by (intro statrel.release_spec [OF wf]) simp
  moreover have same: "st1 ! i = st ! i" using ow i(1) notin by (simp add: st1_def stu_def)
  ultimately have "Done st i = Some (st1[i := (st ! i)\<lparr>scRC := empty_resources (limit (scRC (st ! i))), scDone := True\<rparr>])"
    using i ow len by (simp add: Done_def doneUnlocked_def Some q_def DecRef_def st1_def)
  moreover have "released st i = i # released st ow"
    using i ow Some by (simp add: released.simps [of st i])
  then have "done_effect st i (st1[i := (st ! i)\<lparr>scRC := empty_resources (limit (scRC (st ! i))), scDone := True\<rparr>])"
    using ow i(1) notin len Some
    by (intro done_effectI [OF sk i(1) same]) (auto simp: st1_def stu_def q_def nth_list_update)
  ultimately show ?thesis by blast
next
  case None
  define q where "q = stat (scRC (st ! i))"
  define f where "f = (\<lambda>s::rscope. (if scDone s then s else s\<lparr>scRC := release_stat (scRC s) q\<rparr>)
     \<lparr>scRefCnt := scRefCnt s - 1\<rparr>)"
  define st1 where "st1 = map_on f (scEdges (st ! i)) st"
  note e = wf_graph_edges [OF wf i(1)]
  have op: "\<not> scDone (st ! p)" if "p \<in> set (scEdges (st ! i))" for p
    using eo i that by (auto simp: edges_open_def)
  have sk: "same_skeleton st st1" unfolding st1_def by (rule skeleton_map_on) (simp add: f_def)
  have same: "st1 ! i = st ! i" using i(1) e(2) by (simp add: st1_def)
  have "forEach (\<lambda>st e. do { st' \<leftarrow> ReleaseForChild st e q; DecRef st' e }) st (scEdges (st ! i)) = Some st1"
    unfolding st1_def
    by (rule forEach_map_on) (use e in \<open>auto simp: ReleaseForChild_def DecRef_def f_def\<close>)
  then have "Done st i = Some (st1[i := (st ! i)\<lparr>scRC := empty_resources (limit (scRC (st ! i))), scDone := True\<rparr>])"
    using i same by (simp add: Done_def doneUnlocked_def None q_def) (simp add: st1_def)
  moreover have "set (released st i) = insert i (set (scEdges (st ! i)))"
    using i None op by (auto simp: released.simps [of st i])
  then have "done_effect st i (st1[i := (st ! i)\<lparr>scRC := empty_resources (limit (scRC (st ! i))), scDone := True\<rparr>])"
    using i(1) None op by (intro done_effectI [OF sk i(1) same]) (auto simp: st1_def f_def q_def)
  ultimately show ?thesis by blast
qed

lemma held_below_le:
  assumes "wf_graph st" "balanced st own settled" "sound st own"
    and p: "p < length st" "\<not> scDone (st ! p)" "p \<in> set (released st i)"
  shows "0 \<le> held_below st (own c) i \<and> held_below st (own c) i \<le> cval c (scRC (st ! p))"
proof -
  have "(\<Sum>x \<in> below st i. own c x) \<le> (\<Sum>x \<in> reached st p. own c x)"
    using assms(3) below_reached [OF p(3,2)] by (intro sum_mono2) (auto simp: sound_def)
  moreover have "0 \<le> (\<Sum>x \<in> below st i. own c x)" using assms(3) by (intro sum_nonneg) (simp add: sound_def)
  ultimately show ?thesis
    using assms(2) p by (simp add: balanced_def held_below_def usage_reached [OF assms(1)])
qed

lemma released_open: "p \<in> set (released st i) \<Longrightarrow> \<not> scDone (st ! p)"
  using chain_open [of p st i] by (auto simp: released_iff)

lemma done_value:
  assumes "done_effect st i st'" "wf_graph st" "balanced st own settled" "sound st own" "holders st i = {}"
    and rcs: "\<And>x. x < length st \<Longrightarrow> rc_wf (scRC (st ! x))"
    and i: "i < length st" "\<not> scDone (st ! i)" and p: "p < length st" "p \<noteq> i"
  shows "cval c (scRC (st' ! p)) = cval c (scRC (st ! p)) -
    (if p \<in> set (released st i) then held_below st (own c) i else 0)"
proof (cases "p \<in> set (released st i)")
  case True
  have hb: "cval c (scRC (st ! i)) = held_below st (own c) i" for c
    using assms(3,5) i by (simp add: balanced_def usage_def)
  show ?thesis
    using cval_release_stat [OF rcs [OF p(1)], of "stat (scRC (st ! i))" c] assms(1) p True
      held_below_le [OF assms(2-4) p(1) released_open [OF True] True]
    by (simp add: done_effect_def hb)
qed (use assms(1) p in \<open>simp add: done_effect_def\<close>)

lemma card_minus: "finite A \<Longrightarrow> int (card (A - {i})) = int (card A) - (if i \<in> A then 1 else 0)"
  using card_Suc_Diff1 [of A i] by (cases "i \<in> A") auto

lemma done_counted:
  assumes "done_effect st i st'" "counted st held" and i: "i < length st" "\<not> scDone (st ! i)"
  shows "counted st' held"
proof -
  have sk: "same_skeleton (closed_at st i) st'" using assms(1) by (simp add: done_effect_def)
  have "length st' = length st" using skeleton_length [OF sk] by simp
  moreover have "scRefCnt (st' ! p) = int (card (holders st p - {i})) + int (card (open_spans st p - {i})) + held p"
    if p: "p < length st" for p
  proof -
    have "i \<in> holders st p \<longleftrightarrow> scOwner (st ! i) = None \<and> p \<in> set (scEdges (st ! i))"
      "i \<in> open_spans st p \<longleftrightarrow> scOwner (st ! i) = Some p"
      using i by (auto simp: holders_def open_spans_def)
    then show ?thesis
      using assms(1,2) p
      by (cases "scOwner (st ! i)") (auto simp: counted_def done_effect_def card_minus)
  qed
  ultimately show ?thesis by (simp add: counted_def graph_skeleton [OF sk] closed_at_refs)
qed

text \<open>Closing a scope that no open scope has as an edge keeps the books, with nothing held on it
  any more.\<close>

lemma Done_books:
  assumes bk: "books st own settled held" and snd: "sound st own" and i: "i < length st" "\<not> scDone (st ! i)"
    and free: "holders st i = {}"
  shows "\<exists>st'. Done st i = Some st' \<and> books st' (\<lambda>c. (own c)(i := 0)) settled held \<and>
    same_skeleton (closed_at st i) st'"
proof -
  have b: "wf_graph st" "edges_open st" "balanced st own settled" "counted st held"
    "\<And>x. x < length st \<Longrightarrow> rc_wf (scRC (st ! x))"
    using bk by (auto simp: books_def)
  obtain st' where st': "Done st i = Some st'" "done_effect st i st'"
    using Done_effect [OF b(1,2) i] by blast
  have sk: "same_skeleton (closed_at st i) st'" using st'(2) by (simp add: done_effect_def)
  have len: "length st' = length st" using skeleton_length [OF sk] by simp
  have val: "cval c (scRC (st' ! p)) = cval c (scRC (st ! p)) -
      (if p \<in> set (released st i) then held_below st (own c) i else 0)" if "p < length st" "p \<noteq> i" for c p
    using b(5) i that by (intro done_value [OF st'(2) b(1,3) snd free]) auto
  have closed: "scDone (st' ! p) \<longleftrightarrow> p = i \<or> scDone (st ! p)" if "p < length st" for p
    using skeletonD(1) [OF sk] that by simp
  have empty: "cval c (scRC (st' ! i)) = 0" for c using st'(2) i by (simp add: done_effect_def)
  have "balanced st' (\<lambda>c. (own c)(i := 0)) settled"
    unfolding balanced_def
  proof (intro allI impI)
    fix c p assume "p < length st'"
    then have p: "p < length st" by (simp add: len)
    show "cval c (scRC (st' ! p)) =
        (if scDone (st' ! p) then 0 else usage st' ((own c)(i := 0)) p + 0)"
      using b(3) p val [OF p, of c] empty closed [OF p] released_open [of p st i]
        usage_closed_at [OF b(1) p _ _ i, of "own c"]
      by (cases "p = i") (auto simp: graph_skeleton [OF sk] balanced_def)
  qed
  moreover have "rc_wf (scRC (st' ! p))" if p: "p < length st" for p
  proof (cases "p = i \<or> p \<notin> set (released st i)")
    case True
    then show ?thesis using st'(2) p b(5) by (auto simp: done_effect_def)
  next
    case False
    have "0 \<le> cval c (scRC (st' ! p)) \<and> cval c (scRC (st' ! p)) \<le> MaxInt64" for c
    proof -
      have "cval c (scRC (st ! p)) \<le> MaxInt64" using b(5) [OF p] by (simp add: rc_wf_cval)
      then show ?thesis
        using val [OF p, of c] False released_open [of p st i]
          held_below_le [OF b(1,3) snd p, where i = i and c = c] by auto
    qed
    then show ?thesis by (simp add: rc_wf_cval)
  qed
  ultimately have "books st' (\<lambda>c. (own c)(i := 0)) settled held"
    using closed_at_shape [OF b(1,2) free] len done_counted [OF st'(2) b(4) i]
    by (simp add: books_def wf_graph_skeleton [OF sk] edges_open_skeleton [OF sk])
  then show ?thesis using st'(1) sk by blast
qed

lemma sound_close: "sound st own \<Longrightarrow> length st' = length st \<Longrightarrow> sound st' (\<lambda>c. (own c)(i := 0))"
  unfolding sound_def
proof (intro conjI allI impI; (elim conjE)?)
  fix c
  assume a: "length st' = length st" "\<forall>c x. 0 \<le> own c x" "\<forall>c. (\<Sum>x < length st. own c x) \<le> MaxHeld"
  have "(\<Sum>x < length st. ((own c)(i := 0)) x) \<le> (\<Sum>x < length st. own c x)"
    using a(2) by (intro sum_mono) auto
  also have "\<dots> \<le> MaxHeld" using a(3) by blast
  finally show "(\<Sum>x < length st'. ((own c)(i := 0)) x) \<le> MaxHeld" by (simp add: a(1))
qed auto

lemma sound_append: "sound st own \<Longrightarrow> length st' = Suc (length st) \<Longrightarrow> sound st' own"
  by (auto simp: sound_def)

section \<open>Limits\<close>

lemma all_fit_update: "all_fit st \<Longrightarrow> fits (scRC s) \<Longrightarrow> all_fit (st[i := s])"
  by (cases "i < length st") (auto simp: all_fit_def nth_list_update)

lemma all_fit_append: "all_fit st \<Longrightarrow> fits (scRC s) \<Longrightarrow> all_fit (st @ [s])"
  by (auto simp: all_fit_def nth_append less_Suc_eq)

lemma all_fit_same:
  assumes "all_fit st" "length st' = length st" "\<And>p. p < length st \<Longrightarrow> scRC (st' ! p) = scRC (st ! p)"
  shows "all_fit st'"
  using assms by (simp add: all_fit_def)

lemma fits_release_stat:
  assumes "rc_wf r" "fits r" "\<And>c. counter_ok (sval c q)"
  shows "fits (release_stat r q)"
proof -
  have q: "counter_ok (MemoryStat q)" "counter_ok (NumStreamsInbound q)" "counter_ok (NumStreamsOutbound q)"
    "counter_ok (NumConnsInbound q)" "counter_ok (NumConnsOutbound q)" "counter_ok (NumFD q)"
    using assms(3) [of CMem] assms(3) [of CStreamsIn] assms(3) [of CStreamsOut] assms(3) [of CConnsIn]
      assms(3) [of CConnsOut] assms(3) [of CFd] by simp_all
  show ?thesis
    using assms(1,2) q within_limits_release rc_wf_release
    by (simp add: release_stat_def fits_def)
qed

lemma reserve_child_fits:
  assumes res: "ReserveForChild st p q = Some (None, st')" and wf: "rc_wf (scRC (st ! p))"
    and room: "\<And>c. 0 \<le> sval c q \<and> cval c (scRC (st ! p)) + sval c q \<le> MaxHeld" and fit: "all_fit st"
  shows "all_fit st'"
proof -
  have p: "p < length st" "\<not> scDone (st ! p)"
    using res by (auto simp: ReserveForChild_def scope_at_def split: if_splits)
  obtain r1 r2 r3 where r: "reserveMemory (scRC (st ! p)) (MemoryStat q) 255 = Inr r1"
    "addStreams r1 (NumStreamsInbound q) (NumStreamsOutbound q) = Inr r2"
    "addConns r2 (NumConnsInbound q) (NumConnsOutbound q) (NumFD q) = Inr r3"
    "st' = st[p := (st ! p)\<lparr>scRC := r3\<rparr>]"
    using res p by (auto simp: ReserveForChild_def split: sum.splits)
  define rc where "rc = scRC (st ! p)"
  have room': "cval c rc + sval c q \<le> MaxHeld" "0 \<le> sval c q" "0 \<le> cval c rc" for c
    using room [of c] wf by (simp_all add: rc_def rc_wf_cval)
  note facts = room' [of CMem, simplified] room' [of CStreamsIn, simplified] room' [of CStreamsOut, simplified]
    room' [of CConnsIn, simplified] room' [of CConnsOut, simplified] room' [of CFd, simplified]
  have r1: "r1 = rc\<lparr>memory := memory rc + MemoryStat q\<rparr>"
    using reserveMemory_result [OF r(1)] facts by (simp add: rc_def [symmetric] add64_counter)
  have r2: "r2 = r1\<lparr>nstreamsIn := nstreamsIn rc + NumStreamsInbound q, nstreamsOut := nstreamsOut rc + NumStreamsOutbound q\<rparr>"
    using addStreams_result [OF r(2)] facts by (simp add: r1 add64_counter)
  have wf': "rc_wf rc" "rc_wf r1" "rc_wf r2"
    using facts by (simp_all add: r2 r1 rc_wf_def counter_ok_def)
  have "fits r1"
    by (rule fits_reserveMemory [OF wf'(1) _ r(1) [folded rc_def]])
      (use fit p(1) facts in \<open>simp_all add: rc_def all_fit_def\<close>)
  then have "fits r2" by (rule fits_add(1) [OF wf'(2) _ _ _ r(2)]) (use facts in \<open>simp_all add: r1\<close>)
  then have "fits r3" by (rule fits_add(2) [OF wf'(3) _ _ _ r(3)]) (use facts in \<open>simp_all add: r2 r1\<close>)
  then show ?thesis using fit by (simp add: r(4) all_fit_update)
qed

lemma release_child_fits:
  assumes "ReleaseForChild st p q = Some st'" "rc_wf (scRC (st ! p))" "\<And>c. counter_ok (sval c q)" "all_fit st"
  shows "all_fit st'"
  using assms fits_release_stat [of "scRC (st ! p)" q]
  by (auto simp: ReleaseForChild_def scope_at_def all_fit_def nth_list_update split: if_splits)

lemma Done_fits:
  assumes wf: "wf_graph st" "edges_open st" and i: "i < length st" "\<not> scDone (st ! i)"
    and rcs: "\<And>p. p < length st \<Longrightarrow> rc_wf (scRC (st ! p))" and st': "Done st i = Some st'" and fit: "all_fit st"
  shows "all_fit st'"
proof -
  have eff: "done_effect st i st'" using Done_effect [OF wf i] st' by auto
  then have len: "length st' = length st" using skeleton_length [of "closed_at st i" st'] by (simp add: done_effect_def)
  have "counter_ok (sval c (stat (scRC (st ! i))))" for c
    using rcs [OF i(1)] by (simp add: rc_wf_cval counter_ok_def)
  then have "fits (scRC (st' ! p))" if "p < length st" for p
    using eff fit that fits_release_stat [OF rcs [OF that]] by (simp add: done_effect_def all_fit_def)
  then show ?thesis by (simp add: all_fit_def len)
qed

end
