(* ===== verification/Conn_Limiter.thy ===== *)
theory Conn_Limiter
  imports Prelude "HOL-Library.Multiset"
begin

text \<open>
  The per-subnet connection limiter (p2p/host/resource-manager/conn_limiter.go).  An address is
  counted against the first network prefix that contains it, and, if there is none, against every
  subnet limit of its family.  The counter maps are keyed by the masked prefix that the code
  renders as a string.  A result \<open>None\<close> is an index out of range, a panic of the code.
\<close>

section \<open>Addresses and prefixes (net/netip)\<close>

datatype Addr = AddrZero | Addr4 "32 word" | Addr6 "128 word" string

definition Is6 :: "Addr \<Rightarrow> bool" where
  "Is6 ip = (case ip of Addr6 a zone \<Rightarrow> True | _ \<Rightarrow> False)"

record Prefix =
  pfxAddr :: Addr
  pfxBits :: int

text \<open>\<open>Addr.Prefix\<close> keeps the leading bits and drops the zone.\<close>

definition Addr_Prefix :: "Addr \<Rightarrow> int \<Rightarrow> Prefix option" where
  "Addr_Prefix ip b =
    (if b < 0 then None
     else case ip of
         AddrZero \<Rightarrow> Some \<lparr>pfxAddr = AddrZero, pfxBits = - 1\<rparr>
       | Addr4 a \<Rightarrow> if b > 32 then None
           else Some \<lparr>pfxAddr = Addr4 (push_bit (nat (32 - b)) (drop_bit (nat (32 - b)) a)), pfxBits = b\<rparr>
       | Addr6 a zone \<Rightarrow> if b > 128 then None
           else Some \<lparr>pfxAddr = Addr6 (push_bit (nat (128 - b)) (drop_bit (nat (128 - b)) a)) [],
                      pfxBits = b\<rparr>)"

definition Contains :: "Prefix \<Rightarrow> Addr \<Rightarrow> bool" where
  "Contains p ip =
    (pfxBits p \<ge> 0 \<and>
     (case (pfxAddr p, ip) of
        (Addr4 a, Addr4 b) \<Rightarrow> drop_bit (nat (32 - pfxBits p)) a = drop_bit (nat (32 - pfxBits p)) b
      | (Addr6 a z, Addr6 b zone) \<Rightarrow> zone = [] \<and>
          drop_bit (nat (128 - pfxBits p)) a = drop_bit (nat (128 - pfxBits p)) b
      | _ \<Rightarrow> False))"

section \<open>Limits and the limiter\<close>

record ConnLimitPerSubnet =
  PrefixLength :: int
  SubnetConnCount :: int

record NetworkPrefixLimit =
  Network :: Prefix
  PrefixConnCount :: int

definition defaultMaxConcurrentConns :: int where
  "defaultMaxConcurrentConns = 8"

definition defaultIP4Limit :: ConnLimitPerSubnet where
  "defaultIP4Limit = \<lparr>PrefixLength = 32, SubnetConnCount = defaultMaxConcurrentConns\<rparr>"

definition defaultIP6Limits :: "ConnLimitPerSubnet list" where
  "defaultIP6Limits =
    [\<lparr>PrefixLength = 56, SubnetConnCount = defaultMaxConcurrentConns\<rparr>,
     \<lparr>PrefixLength = 48, SubnetConnCount = 8 * defaultMaxConcurrentConns\<rparr>]"

definition sortNetworkPrefixes :: "NetworkPrefixLimit list \<Rightarrow> NetworkPrefixLimit list" where
  "sortNetworkPrefixes limits = sort_key (\<lambda>l. - pfxBits (Network l)) limits"

definition DefaultNetworkPrefixLimitV4 :: "NetworkPrefixLimit list" where
  "DefaultNetworkPrefixLimitV4 = sortNetworkPrefixes
    [\<lparr>Network = \<lparr>pfxAddr = Addr4 2130706432, pfxBits = 8\<rparr>, PrefixConnCount = MaxInt64\<rparr>]"

definition DefaultNetworkPrefixLimitV6 :: "NetworkPrefixLimit list" where
  "DefaultNetworkPrefixLimitV6 = sortNetworkPrefixes
    [\<lparr>Network = \<lparr>pfxAddr = Addr6 1 [], pfxBits = 128\<rparr>, PrefixConnCount = MaxInt64\<rparr>]"

record connLimiter =
  networkPrefixLimitV4 :: "NetworkPrefixLimit list"
  networkPrefixLimitV6 :: "NetworkPrefixLimit list"
  connsPerNetworkPrefixV4 :: "int list"
  connsPerNetworkPrefixV6 :: "int list"
  connLimitPerSubnetV4 :: "ConnLimitPerSubnet list"
  connLimitPerSubnetV6 :: "ConnLimitPerSubnet list"
  ip4connsPerLimit :: "(Prefix \<rightharpoonup> int) list"
  ip6connsPerLimit :: "(Prefix \<rightharpoonup> int) list"

definition newConnLimiter :: connLimiter where
  "newConnLimiter =
    \<lparr>networkPrefixLimitV4 = DefaultNetworkPrefixLimitV4,
     networkPrefixLimitV6 = DefaultNetworkPrefixLimitV6,
     connsPerNetworkPrefixV4 = [], connsPerNetworkPrefixV6 = [],
     connLimitPerSubnetV4 = [defaultIP4Limit], connLimitPerSubnetV6 = defaultIP6Limits,
     ip4connsPerLimit = [], ip6connsPerLimit = []\<rparr>"

definition WithNetworkPrefixLimit ::
  "NetworkPrefixLimit list option \<Rightarrow> NetworkPrefixLimit list option \<Rightarrow> connLimiter \<Rightarrow> connLimiter"
where
  "WithNetworkPrefixLimit ipv4 ipv6 cl =
    (let cl4 = (case ipv4 of Some l \<Rightarrow> cl\<lparr>networkPrefixLimitV4 := sortNetworkPrefixes l\<rparr> | None \<Rightarrow> cl)
     in case ipv6 of Some l \<Rightarrow> cl4\<lparr>networkPrefixLimitV6 := sortNetworkPrefixes l\<rparr> | None \<Rightarrow> cl4)"

definition WithLimitPerSubnet ::
  "ConnLimitPerSubnet list option \<Rightarrow> ConnLimitPerSubnet list option \<Rightarrow> connLimiter \<Rightarrow> connLimiter"
where
  "WithLimitPerSubnet ipv4 ipv6 cl =
    (let cl4 = (case ipv4 of Some l \<Rightarrow> cl\<lparr>connLimitPerSubnetV4 := l\<rparr> | None \<Rightarrow> cl)
     in case ipv6 of Some l \<Rightarrow> cl4\<lparr>connLimitPerSubnetV6 := l\<rparr> | None \<Rightarrow> cl4)"

definition addNetworkPrefixLimit :: "connLimiter \<Rightarrow> bool \<Rightarrow> NetworkPrefixLimit \<Rightarrow> connLimiter" where
  "addNetworkPrefixLimit cl isIP6 npLimit =
    (if isIP6 then
       cl\<lparr>networkPrefixLimitV6 := sortNetworkPrefixes (networkPrefixLimitV6 cl @ [npLimit])\<rparr>
     else
       cl\<lparr>networkPrefixLimitV4 := sortNetworkPrefixes (networkPrefixLimitV4 cl @ [npLimit])\<rparr>)"

text \<open>The local variables of \<open>addConn\<close> and \<open>rmConn\<close>: the limits and counters of the address's
  family, written back to the limiter when the method returns.\<close>

record family =
  npLimits :: "NetworkPrefixLimit list"
  npConns :: "int list"
  subLimits :: "ConnLimitPerSubnet list"
  subConns :: "(Prefix \<rightharpoonup> int) list"

definition select_family :: "connLimiter \<Rightarrow> bool \<Rightarrow> family" where
  "select_family cl isIP6 =
    (if isIP6 then \<lparr>npLimits = networkPrefixLimitV6 cl, npConns = connsPerNetworkPrefixV6 cl,
       subLimits = connLimitPerSubnetV6 cl, subConns = ip6connsPerLimit cl\<rparr>
     else \<lparr>npLimits = networkPrefixLimitV4 cl, npConns = connsPerNetworkPrefixV4 cl,
       subLimits = connLimitPerSubnetV4 cl, subConns = ip4connsPerLimit cl\<rparr>)"

definition store_family :: "connLimiter \<Rightarrow> bool \<Rightarrow> family \<Rightarrow> connLimiter" where
  "store_family cl isIP6 f =
    (if isIP6 then cl\<lparr>connsPerNetworkPrefixV6 := npConns f, ip6connsPerLimit := subConns f\<rparr>
     else cl\<lparr>connsPerNetworkPrefixV4 := npConns f, ip4connsPerLimit := subConns f\<rparr>)"

definition init_np :: "family \<Rightarrow> family" where
  "init_np f = (if npConns f = [] \<and> npLimits f \<noteq> []
     then f\<lparr>npConns := replicate (length (npLimits f)) 0\<rparr> else f)"

definition init_sub :: "family \<Rightarrow> family" where
  "init_sub f = (if subConns f = [] \<and> subLimits f \<noteq> []
     then f\<lparr>subConns := replicate (length (subLimits f)) Map.empty\<rparr> else f)"

text \<open>The first prefix limit that contains the address.\<close>

fun match_prefix :: "NetworkPrefixLimit list \<Rightarrow> nat \<Rightarrow> Addr \<Rightarrow> (nat \<times> NetworkPrefixLimit) option" where
  "match_prefix [] i ip = None"
| "match_prefix (l # ls) i ip =
    (if Contains (Network l) ip then Some (i, l) else match_prefix ls (Suc i) ip)"

definition masked :: "Addr \<Rightarrow> ConnLimitPerSubnet \<Rightarrow> Prefix" where
  "masked ip l = (case Addr_Prefix ip (PrefixLength l) of
      Some p \<Rightarrow> p | None \<Rightarrow> \<lparr>pfxAddr = AddrZero, pfxBits = - 1\<rparr>)"

definition count_of :: "('a \<rightharpoonup> int) \<Rightarrow> 'a \<Rightarrow> int" where
  "count_of m k = (case m k of Some n \<Rightarrow> n | None \<Rightarrow> 0)"

text \<open>The loop that checks the subnet limits.  It leaves a zero entry for a subnet it sees for
  the first time.\<close>

fun check_subnets ::
  "Addr \<Rightarrow> ConnLimitPerSubnet list \<Rightarrow> nat \<Rightarrow> (Prefix \<rightharpoonup> int) list \<Rightarrow> (bool \<times> (Prefix \<rightharpoonup> int) list) option"
where
  "check_subnets ip [] i cs = Some (True, cs)"
| "check_subnets ip (l # ls) i cs =
    (case Addr_Prefix ip (PrefixLength l) of
       None \<Rightarrow> Some (False, cs)
     | Some p \<Rightarrow>
         if i < length cs then
           let cs' = (if (cs ! i) p = None then cs[i := (cs ! i)(p \<mapsto> 0)] else cs) in
           if add64 (count_of (cs ! i) p) 1 > SubnetConnCount l then Some (False, cs')
           else check_subnets ip ls (Suc i) cs'
         else None)"

fun count_subnets ::
  "Addr \<Rightarrow> ConnLimitPerSubnet list \<Rightarrow> nat \<Rightarrow> (Prefix \<rightharpoonup> int) list \<Rightarrow> (Prefix \<rightharpoonup> int) list option"
where
  "count_subnets ip [] i cs = Some cs"
| "count_subnets ip (l # ls) i cs =
    (if i < length cs then
       count_subnets ip ls (Suc i)
         (cs[i := (cs ! i)(masked ip l \<mapsto> add64 (count_of (cs ! i) (masked ip l)) 1)])
     else None)"

definition add_family :: "family \<Rightarrow> Addr \<Rightarrow> (bool \<times> family) option" where
  "add_family f0 ip =
    (let f = init_np f0 in
     case match_prefix (npLimits f) 0 ip of
       Some (i, l) \<Rightarrow>
         if i < length (npConns f) then
           if add64 (npConns f ! i) 1 > PrefixConnCount l then Some (False, f)
           else Some (True, f\<lparr>npConns := (npConns f)[i := add64 (npConns f ! i) 1]\<rparr>)
         else None
     | None \<Rightarrow>
         let f1 = init_sub f in do {
           (ok, cs) \<leftarrow> check_subnets ip (subLimits f1) 0 (subConns f1);
           if \<not> ok then Some (False, f1\<lparr>subConns := cs\<rparr>)
           else do {
             cs' \<leftarrow> count_subnets ip (subLimits f1) 0 cs;
             Some (True, f1\<lparr>subConns := cs'\<rparr>) } })"

definition cl_addConn :: "connLimiter \<Rightarrow> Addr \<Rightarrow> (bool \<times> connLimiter) option" where
  "cl_addConn cl ip = do {
     (ok, f) \<leftarrow> add_family (select_family cl (Is6 ip)) ip;
     Some (ok, store_family cl (Is6 ip) f) }"

fun uncount_subnets ::
  "Addr \<Rightarrow> ConnLimitPerSubnet list \<Rightarrow> nat \<Rightarrow> (Prefix \<rightharpoonup> int) list \<Rightarrow> (Prefix \<rightharpoonup> int) list option"
where
  "uncount_subnets ip [] i cs = Some cs"
| "uncount_subnets ip (l # ls) i cs =
    (case Addr_Prefix ip (PrefixLength l) of
       None \<Rightarrow> uncount_subnets ip ls (Suc i) cs
     | Some p \<Rightarrow>
         if i < length cs then
           if count_of (cs ! i) p = 0 then uncount_subnets ip ls (Suc i) cs
           else
             let n = sub64 (count_of (cs ! i) p) 1 in
             uncount_subnets ip ls (Suc i)
               (cs[i := (if n \<le> 0 then (cs ! i)(p := None) else (cs ! i)(p \<mapsto> n))])
         else None)"

definition rm_family :: "family \<Rightarrow> Addr \<Rightarrow> family option" where
  "rm_family f0 ip =
    (let f = init_np f0 in
     case match_prefix (npLimits f) 0 ip of
       Some (i, l) \<Rightarrow>
         if i < length (npConns f) then
           if npConns f ! i \<le> 0 then Some f
           else Some (f\<lparr>npConns := (npConns f)[i := sub64 (npConns f ! i) 1]\<rparr>)
         else None
     | None \<Rightarrow>
         let f1 = init_sub f in do {
           cs \<leftarrow> uncount_subnets ip (subLimits f1) 0 (subConns f1);
           Some (f1\<lparr>subConns := cs\<rparr>) })"

definition cl_rmConn :: "connLimiter \<Rightarrow> Addr \<Rightarrow> connLimiter option" where
  "cl_rmConn cl ip = do {
     f \<leftarrow> rm_family (select_family cl (Is6 ip)) ip;
     Some (store_family cl (Is6 ip) f) }"

section \<open>What is promised: the live connections\<close>

text \<open>The abstract limiter is the multiset of the addresses of the connections that are open.
  A connection counts against its first matching prefix, or against its subnet of each length.\<close>

definition np_live :: "NetworkPrefixLimit list \<Rightarrow> Addr multiset \<Rightarrow> nat \<Rightarrow> int" where
  "np_live nps live i = int (size {#x \<in># live. map_option fst (match_prefix nps 0 x) = Some i#})"

definition sub_live ::
  "NetworkPrefixLimit list \<Rightarrow> ConnLimitPerSubnet \<Rightarrow> Addr multiset \<Rightarrow> Prefix \<Rightarrow> int"
where
  "sub_live nps l live p = int (size {#x \<in># live.
     match_prefix nps 0 x = None \<and> Addr_Prefix x (PrefixLength l) = Some p#})"

definition admits ::
  "NetworkPrefixLimit list \<Rightarrow> ConnLimitPerSubnet list \<Rightarrow> Addr multiset \<Rightarrow> Addr \<Rightarrow> bool"
where
  "admits nps subs live ip =
    (case match_prefix nps 0 ip of
       Some (i, l) \<Rightarrow> np_live nps live i < PrefixConnCount l
     | None \<Rightarrow> \<forall>l \<in> set subs. (case Addr_Prefix ip (PrefixLength l) of
           None \<Rightarrow> False | Some p \<Rightarrow> sub_live nps l live p < SubnetConnCount l))"

definition full_rel :: "family \<Rightarrow> Addr multiset \<Rightarrow> bool" where
  "full_rel f live \<longleftrightarrow>
     length (npConns f) = length (npLimits f) \<and> length (subConns f) = length (subLimits f) \<and>
     (\<forall>i < length (npLimits f). npConns f ! i = np_live (npLimits f) live i) \<and>
     (\<forall>i < length (subLimits f). count_of (subConns f ! i) = sub_live (npLimits f) (subLimits f ! i) live)"

definition fam_rel :: "family \<Rightarrow> Addr multiset \<Rightarrow> bool" where
  "fam_rel f live \<longleftrightarrow> full_rel (init_sub (init_np f)) live"

section \<open>The loops\<close>

lemma count_of_upd [simp]: "count_of (m(k \<mapsto> n)) = (count_of m)(k := n)"
  by (rule ext) (simp add: count_of_def)

lemma count_of_del [simp]: "count_of (m(k := None)) = (count_of m)(k := 0)"
  by (rule ext) (simp add: count_of_def)

lemma count_of_empty [simp]: "count_of Map.empty = (\<lambda>_. 0)"
  by (rule ext) (simp add: count_of_def)

definition subnet_room :: "Addr \<Rightarrow> ConnLimitPerSubnet \<Rightarrow> (Prefix \<Rightarrow> int) \<Rightarrow> bool" where
  "subnet_room ip l c = (case Addr_Prefix ip (PrefixLength l) of
     None \<Rightarrow> False | Some p \<Rightarrow> \<not> add64 (c p) 1 > SubnetConnCount l)"

lemma zero_entry: "m p = None \<Longrightarrow> (count_of m)(p := 0) = count_of m"
  by (rule ext) (simp add: count_of_def)

lemma map_update_same: "i < length xs \<Longrightarrow> f y = f (xs ! i) \<Longrightarrow> map f (xs[i := y]) = map f xs"
  by (simp add: map_update list_update_same_conv)

lemma check_subnets_spec:
  assumes "length cs = i + length ls"
  shows "\<exists>cs'. check_subnets ip ls i cs =
      Some (\<forall>j < length ls. subnet_room ip (ls ! j) (count_of (cs ! (i + j))), cs') \<and>
      map count_of cs' = map count_of cs"
  using assms
proof (induction ls arbitrary: i cs)
  case (Cons l ls)
  note all = All_less_Suc2
  show ?case
  proof (cases "Addr_Prefix ip (PrefixLength l)")
    case None
    then show ?thesis by (simp add: all subnet_room_def)
  next
    case (Some p)
    define cs1 where "cs1 = (if (cs ! i) p = None then cs[i := (cs ! i)(p \<mapsto> 0)] else cs)"
    have step: "check_subnets ip (l # ls) i cs =
        (if subnet_room ip l (count_of (cs ! i)) then check_subnets ip ls (Suc i) cs1 else Some (False, cs1))"
      using Some Cons.prems by (simp add: cs1_def subnet_room_def Let_def)
    have same: "map count_of cs1 = map count_of cs"
      using Cons.prems unfolding cs1_def
      by (auto intro!: map_update_same simp: zero_entry simp del: map_update)
    then have len: "length cs1 = length cs" by (rule map_eq_imp_length_eq)
    have nth: "count_of (cs1 ! j) = count_of (cs ! j)" if "j < length cs" for j
      using arg_cong [OF same, of "\<lambda>xs. xs ! j"] that len by simp
    obtain cs' where "check_subnets ip ls (Suc i) cs1 =
          Some (\<forall>j < length ls. subnet_room ip (ls ! j) (count_of (cs1 ! (Suc i + j))), cs')"
      "map count_of cs' = map count_of cs"
      using Cons.IH [of cs1 "Suc i"] Cons.prems same len by auto
    moreover have "(\<forall>j < length ls. subnet_room ip (ls ! j) (count_of (cs1 ! (Suc i + j)))) =
          (\<forall>j < length ls. subnet_room ip (ls ! j) (count_of (cs ! (Suc i + j))))"
      using nth Cons.prems by auto
    ultimately show ?thesis
      unfolding step using same by (auto simp: all)
  qed
qed simp

lemma count_subnets_spec:
  assumes "length cs = i + length ls"
  shows "\<exists>cs'. count_subnets ip ls i cs = Some cs' \<and> length cs' = length cs \<and>
    (\<forall>j < length cs. count_of (cs' ! j) = (if i \<le> j
       then (count_of (cs ! j))(masked ip (ls ! (j - i)) :=
              add64 (count_of (cs ! j) (masked ip (ls ! (j - i)))) 1)
       else count_of (cs ! j)))"
  using assms
proof (induction ls arbitrary: i cs)
  case (Cons l ls)
  let ?cs = "cs[i := (cs ! i)(masked ip l \<mapsto> add64 (count_of (cs ! i) (masked ip l)) 1)]"
  obtain cs' where cs': "count_subnets ip ls (Suc i) ?cs = Some cs'" "length cs' = length cs"
    and nth: "\<forall>j < length cs. count_of (cs' ! j) = (if Suc i \<le> j
       then (count_of (?cs ! j))(masked ip (ls ! (j - Suc i)) :=
              add64 (count_of (?cs ! j) (masked ip (ls ! (j - Suc i)))) 1)
       else count_of (?cs ! j))"
    using Cons.IH [of ?cs "Suc i"] Cons.prems by auto
  have "count_of (cs' ! j) = (if i \<le> j
       then (count_of (cs ! j))(masked ip ((l # ls) ! (j - i)) :=
              add64 (count_of (cs ! j) (masked ip ((l # ls) ! (j - i)))) 1)
       else count_of (cs ! j))" if "j < length cs" for j
    using nth that Cons.prems by (cases "j = i") (auto simp: nth_Cons')
  then show ?case using cs' Cons.prems by simp
qed simp

definition lowered :: "int \<Rightarrow> int" where
  "lowered n = (if n = 0 then 0 else if sub64 n 1 \<le> 0 then 0 else sub64 n 1)"

definition uncounted :: "Addr \<Rightarrow> ConnLimitPerSubnet \<Rightarrow> (Prefix \<Rightarrow> int) \<Rightarrow> Prefix \<Rightarrow> int" where
  "uncounted ip l c = (case Addr_Prefix ip (PrefixLength l) of
     None \<Rightarrow> c | Some p \<Rightarrow> c(p := lowered (c p)))"

lemma uncount_subnets_spec:
  assumes "length cs = i + length ls"
  shows "\<exists>cs'. uncount_subnets ip ls i cs = Some cs' \<and> length cs' = length cs \<and>
    (\<forall>j < length cs. count_of (cs' ! j) =
       (if i \<le> j then uncounted ip (ls ! (j - i)) (count_of (cs ! j)) else count_of (cs ! j)))"
  using assms
proof (induction ls arbitrary: i cs)
  case (Cons l ls)
  define m where "m = (case Addr_Prefix ip (PrefixLength l) of None \<Rightarrow> cs ! i
     | Some p \<Rightarrow> if count_of (cs ! i) p = 0 then cs ! i
         else if sub64 (count_of (cs ! i) p) 1 \<le> 0 then (cs ! i)(p := None)
         else (cs ! i)(p \<mapsto> sub64 (count_of (cs ! i) p) 1))"
  have i: "i < length cs" using Cons.prems by simp
  have step: "uncount_subnets ip (l # ls) i cs = uncount_subnets ip ls (Suc i) (cs[i := m])"
    using i by (simp add: m_def Let_def split: option.split)
  have m: "count_of m = uncounted ip l (count_of (cs ! i))"
    by (auto simp: m_def uncounted_def lowered_def fun_upd_idem split: option.split)
  obtain cs' where cs': "uncount_subnets ip ls (Suc i) (cs[i := m]) = Some cs'"
    "length cs' = length cs"
    and nth: "\<forall>j < length cs. count_of (cs' ! j) = (if Suc i \<le> j
       then uncounted ip (ls ! (j - Suc i)) (count_of (cs[i := m] ! j)) else count_of (cs[i := m] ! j))"
    using Cons.IH [of "cs[i := m]" "Suc i"] Cons.prems by auto
  have "count_of (cs' ! j) = (if i \<le> j
       then uncounted ip ((l # ls) ! (j - i)) (count_of (cs ! j)) else count_of (cs ! j))"
    if "j < length cs" for j
    using nth that m i by (cases "j = i") (auto simp: nth_Cons')
  then show ?case using cs' step by simp
qed simp

section \<open>The limiter implements the promise\<close>

lemma match_prefix_Some:
  "match_prefix ls k ip = Some (i, l) \<Longrightarrow>
     k \<le> i \<and> i < k + length ls \<and> ls ! (i - k) = l \<and> Contains (Network l) ip \<and>
     (\<forall>j < i - k. \<not> Contains (Network (ls ! j)) ip)"
proof (induction ls k ip rule: match_prefix.induct)
  case (2 m ms k ip)
  show ?case
  proof (cases "Contains (Network m) ip")
    case True
    then show ?thesis using 2(2) by auto
  next
    case False
    then have *: "Suc k \<le> i" "i < Suc k + length ms" "ms ! (i - Suc k) = l" "Contains (Network l) ip"
      "\<forall>j < i - Suc k. \<not> Contains (Network (ms ! j)) ip"
      using 2 by auto
    moreover have "i - k = Suc (i - Suc k)" using *(1) by simp
    ultimately show ?thesis using False by (auto simp: less_Suc_eq_0_disj)
  qed
qed simp

lemma np_live_add:
  "np_live nps (add_mset ip live) i =
     np_live nps live i + (if map_option fst (match_prefix nps 0 ip) = Some i then 1 else 0)"
  by (simp add: np_live_def)

lemma sub_live_add:
  "sub_live nps l (add_mset ip live) p = sub_live nps l live p +
     (if match_prefix nps 0 ip = None \<and> Addr_Prefix ip (PrefixLength l) = Some p then 1 else 0)"
  by (simp add: sub_live_def)

lemma live_bounds:
  "0 \<le> np_live nps live i" "np_live nps live i \<le> int (size live)"
  "0 \<le> sub_live nps l live p" "sub_live nps l live p \<le> int (size live)"
  by (simp_all add: np_live_def sub_live_def size_filter_mset_lesseq)

lemma init_fields [simp]:
  "npLimits (init_np f) = npLimits f" "subLimits (init_np f) = subLimits f"
  "subConns (init_np f) = subConns f"
  "npLimits (init_sub f) = npLimits f" "subLimits (init_sub f) = subLimits f"
  "npConns (init_sub f) = npConns f"
  by (simp_all add: init_np_def init_sub_def)

lemma init_np_id: "length (npConns f) = length (npLimits f) \<Longrightarrow> init_np f = f"
  by (auto simp: init_np_def)

lemma init_sub_id: "length (subConns f) = length (subLimits f) \<Longrightarrow> init_sub f = f"
  by (auto simp: init_sub_def)

lemma init_sub_npConns: "init_sub (f\<lparr>npConns := c\<rparr>) = (init_sub f)\<lparr>npConns := c\<rparr>"
  by (simp add: init_sub_def)

lemma add_live_exact:
  assumes "int (size live) < MaxInt64"
  shows "add64 (np_live nps live i) 1 = np_live nps live i + 1"
    "add64 (sub_live nps l live p) 1 = sub_live nps l live p + 1"
  using live_bounds(1,2) [of nps live i] live_bounds(3,4) [of nps l live p] assms
  by (auto intro!: add64_exact simp: int64_range_def)

lemma add_family_match:
  assumes rel: "fam_rel f live" and size: "int (size live) < MaxInt64"
    and m: "match_prefix (npLimits f) 0 ip = Some (i, l)"
  shows "\<exists>f'. add_family f ip = Some (admits (npLimits f) (subLimits f) live ip, f') \<and>
    npLimits f' = npLimits f \<and> subLimits f' = subLimits f \<and>
    fam_rel f' (if admits (npLimits f) (subLimits f) live ip then add_mset ip live else live)"
proof -
  let ?f = "init_np f"
  have i: "i < length (npLimits f)" using match_prefix_Some [OF m] by simp
  have full: "full_rel (init_sub ?f) live" using rel by (simp add: fam_rel_def)
  then have len: "length (npConns ?f) = length (npLimits f)" by (simp add: full_rel_def)
  have ci: "npConns ?f ! i = np_live (npLimits f) live i" using full i by (simp add: full_rel_def)
  let ?f' = "?f\<lparr>npConns := (npConns ?f)[i := np_live (npLimits f) live i + 1]\<rparr>"
  have "fam_rel ?f live" using full len by (simp add: fam_rel_def init_np_id)
  moreover have "fam_rel ?f' (add_mset ip live)"
  proof -
    have "init_np ?f' = ?f'" using len by (intro init_np_id) simp
    moreover have "full_rel (init_sub ?f') (add_mset ip live)"
      using full m i
      by (auto simp: init_sub_npConns full_rel_def np_live_add sub_live_add nth_list_update fun_eq_iff)
    ultimately show ?thesis by (simp add: fam_rel_def)
  qed
  ultimately show ?thesis
    using m i len by (simp add: add_family_def Let_def ci add_live_exact [OF size] admits_def)
qed

lemma add_family_subnets:
  assumes rel: "fam_rel f live" and size: "int (size live) < MaxInt64"
    and m: "match_prefix (npLimits f) 0 ip = None"
  shows "\<exists>f'. add_family f ip = Some (admits (npLimits f) (subLimits f) live ip, f') \<and>
    npLimits f' = npLimits f \<and> subLimits f' = subLimits f \<and>
    fam_rel f' (if admits (npLimits f) (subLimits f) live ip then add_mset ip live else live)"
proof -
  let ?f = "init_sub (init_np f)" and ?nps = "npLimits f" and ?subs = "subLimits f"
  let ?ok = "\<forall>j < length ?subs. subnet_room ip (?subs ! j) (count_of (subConns ?f ! j))"
  have full: "full_rel ?f live" using rel by (simp add: fam_rel_def)
  then have lens: "length (npConns ?f) = length ?nps" "length (subConns ?f) = length ?subs"
    by (simp_all add: full_rel_def)
  have id: "fam_rel (?f\<lparr>subConns := cs\<rparr>) live' = full_rel (?f\<lparr>subConns := cs\<rparr>) live'"
    if "length cs = length ?subs" for cs live'
  proof -
    have "init_np (?f\<lparr>subConns := cs\<rparr>) = ?f\<lparr>subConns := cs\<rparr>" using lens by (intro init_np_id) simp
    moreover have "init_sub (?f\<lparr>subConns := cs\<rparr>) = ?f\<lparr>subConns := cs\<rparr>"
      using that by (intro init_sub_id) simp
    ultimately show ?thesis by (simp add: fam_rel_def)
  qed
  have counts: "count_of (subConns ?f ! j) = sub_live ?nps (?subs ! j) live" if "j < length ?subs" for j
    using full that by (simp add: full_rel_def)
  have room: "subnet_room ip l (sub_live ?nps l live) = (case Addr_Prefix ip (PrefixLength l) of
      None \<Rightarrow> False | Some p \<Rightarrow> sub_live ?nps l live p < SubnetConnCount l)" for l
    by (auto simp: subnet_room_def add_live_exact [OF size] split: option.split)
  have ok: "?ok = admits ?nps ?subs live ip"
    using m by (simp add: admits_def counts room all_set_conv_all_nth)
  obtain cs where cs: "check_subnets ip ?subs 0 (subConns ?f) = Some (?ok, cs)"
    "map count_of cs = map count_of (subConns ?f)"
    using check_subnets_spec [of "subConns ?f" 0 ?subs ip] lens by auto
  have len: "length cs = length ?subs" using map_eq_imp_length_eq [OF cs(2)] lens by simp
  have nth: "count_of (cs ! j) = sub_live ?nps (?subs ! j) live" if "j < length ?subs" for j
    using arg_cong [OF cs(2), of "\<lambda>xs. xs ! j"] that len lens counts by simp
  show ?thesis
  proof (cases ?ok)
    case False
    have "full_rel (?f\<lparr>subConns := cs\<rparr>) live" using full nth len by (simp add: full_rel_def)
    then have "add_family f ip = Some (False, ?f\<lparr>subConns := cs\<rparr>)" "fam_rel (?f\<lparr>subConns := cs\<rparr>) live"
      using m cs(1) False len by (simp_all add: add_family_def Let_def id)
    then show ?thesis using False ok by simp
  next
    case True
    obtain cs' where cs': "count_subnets ip ?subs 0 cs = Some cs'" "length cs' = length cs"
      "\<forall>j < length cs. count_of (cs' ! j) = (count_of (cs ! j))(masked ip (?subs ! j) :=
         add64 (count_of (cs ! j) (masked ip (?subs ! j))) 1)"
      using count_subnets_spec [of cs 0 ?subs ip] len by auto
    have pfx: "Addr_Prefix ip (PrefixLength (?subs ! j)) = Some (masked ip (?subs ! j))"
      if "j < length ?subs" for j
      using True that by (auto simp: subnet_room_def masked_def split: option.splits)
    have "full_rel (?f\<lparr>subConns := cs'\<rparr>) (add_mset ip live)"
      using full m cs' len nth pfx
      by (auto simp: full_rel_def np_live_add sub_live_add add_live_exact [OF size] fun_eq_iff)
    then have "add_family f ip = Some (True, ?f\<lparr>subConns := cs'\<rparr>)"
      "fam_rel (?f\<lparr>subConns := cs'\<rparr>) (add_mset ip live)"
      using m cs(1) cs' True len by (simp_all add: add_family_def Let_def id)
    then show ?thesis using True ok by simp
  qed
qed

lemma add_family_sim:
  assumes "fam_rel f live" and "int (size live) < MaxInt64"
  shows "\<exists>f'. add_family f ip = Some (admits (npLimits f) (subLimits f) live ip, f') \<and>
    npLimits f' = npLimits f \<and> subLimits f' = subLimits f \<and>
    fam_rel f' (if admits (npLimits f) (subLimits f) live ip then add_mset ip live else live)"
proof (cases "match_prefix (npLimits f) 0 ip")
  case None
  then show ?thesis by (rule add_family_subnets [OF assms])
next
  case (Some m)
  then show ?thesis by (cases m) (simp only: add_family_match [OF assms])
qed

lemma lowered_pred: "0 < n \<Longrightarrow> n \<le> MaxInt64 \<Longrightarrow> lowered n = n - 1"
  by (simp add: lowered_def sub64_exact int64_range_def)

lemma rm_family_sim:
  assumes rel: "fam_rel f (add_mset ip live)" and size: "int (size live) < MaxInt64"
  shows "\<exists>f'. rm_family f ip = Some f' \<and> npLimits f' = npLimits f \<and> subLimits f' = subLimits f \<and>
    fam_rel f' live"
proof -
  let ?f = "init_np f" and ?nps = "npLimits f" and ?subs = "subLimits f"
  have full: "full_rel (init_sub ?f) (add_mset ip live)" using rel by (simp add: fam_rel_def)
  then have lens: "length (npConns ?f) = length ?nps" "length (subConns (init_sub ?f)) = length ?subs"
    by (simp_all add: full_rel_def)
  show ?thesis
  proof (cases "match_prefix ?nps 0 ip")
    case (Some m)
    then obtain i l where m: "match_prefix ?nps 0 ip = Some (i, l)" by (cases m) auto
    let ?f' = "?f\<lparr>npConns := (npConns ?f)[i := np_live ?nps live i]\<rparr>"
    have i: "i < length ?nps" using match_prefix_Some [OF m] by simp
    have ci: "npConns ?f ! i = np_live ?nps live i + 1"
      using full i m by (simp add: full_rel_def np_live_add)
    have "sub64 (np_live ?nps live i + 1) 1 = np_live ?nps live i"
      using live_bounds(1,2) [of ?nps live i] size by (simp add: sub64_exact int64_range_def)
    then have "rm_family f ip = Some ?f'"
      using m i lens ci live_bounds(1) [of ?nps live i] by (simp add: rm_family_def Let_def)
    moreover have "fam_rel ?f' live"
    proof -
      have "init_np ?f' = ?f'" using lens by (intro init_np_id) simp
      moreover have "full_rel (init_sub ?f') live"
        using full m i
        by (auto simp: init_sub_npConns full_rel_def np_live_add sub_live_add nth_list_update fun_eq_iff)
      ultimately show ?thesis by (simp add: fam_rel_def)
    qed
    ultimately show ?thesis by simp
  next
    case None
    let ?g = "init_sub ?f"
    obtain cs where cs: "uncount_subnets ip ?subs 0 (subConns ?g) = Some cs"
      "length cs = length ?subs"
      "\<forall>j < length ?subs. count_of (cs ! j) = uncounted ip (?subs ! j) (count_of (subConns ?g ! j))"
      using uncount_subnets_spec [of "subConns ?g" 0 ?subs ip] lens by auto
    have "count_of (cs ! j) = sub_live ?nps (?subs ! j) live" if j: "j < length ?subs" for j
    proof -
      have "lowered (sub_live ?nps l live p + 1) = sub_live ?nps l live p" for l p
        using live_bounds(3,4) [of ?nps l live p] size by (subst lowered_pred) auto
      moreover have "count_of (subConns ?g ! j) = sub_live ?nps (?subs ! j) (add_mset ip live)"
        using full j by (simp add: full_rel_def)
      ultimately show ?thesis
        using cs(3) j None
        by (auto simp: uncounted_def sub_live_add fun_eq_iff split: option.split)
    qed
    then have "full_rel (?g\<lparr>subConns := cs\<rparr>) live"
      using full cs(2) None by (simp add: full_rel_def np_live_add)
    moreover have "init_sub (init_np (?g\<lparr>subConns := cs\<rparr>)) = ?g\<lparr>subConns := cs\<rparr>"
      using lens cs(2) by (simp add: init_np_id init_sub_id)
    moreover have "rm_family f ip = Some (?g\<lparr>subConns := cs\<rparr>)"
      using None cs(1) by (simp add: rm_family_def Let_def)
    ultimately show ?thesis by (simp add: fam_rel_def)
  qed
qed

section \<open>Both families\<close>

definition cl_rel :: "connLimiter \<Rightarrow> Addr multiset \<Rightarrow> bool" where
  "cl_rel cl live \<longleftrightarrow> fam_rel (select_family cl False) {#x \<in># live. \<not> Is6 x#} \<and>
     fam_rel (select_family cl True) {#x \<in># live. Is6 x#}"

definition cl_admits :: "connLimiter \<Rightarrow> Addr multiset \<Rightarrow> Addr \<Rightarrow> bool" where
  "cl_admits cl live ip = admits (npLimits (select_family cl (Is6 ip)))
     (subLimits (select_family cl (Is6 ip))) {#x \<in># live. Is6 x = Is6 ip#} ip"

definition same_limits :: "connLimiter \<Rightarrow> connLimiter \<Rightarrow> bool" where
  "same_limits cl cl' \<longleftrightarrow>
     networkPrefixLimitV4 cl' = networkPrefixLimitV4 cl \<and> networkPrefixLimitV6 cl' = networkPrefixLimitV6 cl \<and>
     connLimitPerSubnetV4 cl' = connLimitPerSubnetV4 cl \<and> connLimitPerSubnetV6 cl' = connLimitPerSubnetV6 cl"

lemma select_store [simp]:
  "npLimits f = npLimits (select_family cl b) \<Longrightarrow> subLimits f = subLimits (select_family cl b) \<Longrightarrow>
     select_family (store_family cl b f) b = f"
  "select_family (store_family cl b f) (\<not> b) = select_family cl (\<not> b)"
  by (auto simp: select_family_def store_family_def)

lemma same_limits_store: "same_limits cl (store_family cl b f)"
  by (simp add: same_limits_def store_family_def)

lemma cl_rel_iff:
  "cl_rel cl live \<longleftrightarrow> fam_rel (select_family cl b) {#x \<in># live. Is6 x = b#} \<and>
     fam_rel (select_family cl (\<not> b)) {#x \<in># live. Is6 x = (\<not> b)#}"
  by (cases b) (auto simp: cl_rel_def)

lemma size_family: "int (size live) < MaxInt64 \<Longrightarrow> int (size {#x \<in># live. P x#}) < MaxInt64"
  using size_filter_mset_lesseq [of P live] by linarith

lemma cl_addConn_sim:
  assumes "cl_rel cl live" and "int (size live) < MaxInt64"
  shows "\<exists>cl'. cl_addConn cl ip = Some (cl_admits cl live ip, cl') \<and> same_limits cl cl' \<and>
    cl_rel cl' (if cl_admits cl live ip then add_mset ip live else live)"
proof -
  let ?b = "Is6 ip"
  let ?f = "select_family cl ?b" and ?live = "{#x \<in># live. Is6 x = ?b#}"
  let ?ok = "admits (npLimits ?f) (subLimits ?f) ?live ip"
  note rel = assms(1) [unfolded cl_rel_iff [of cl live ?b]]
  obtain f' where f': "add_family ?f ip = Some (?ok, f')" "npLimits f' = npLimits ?f"
    "subLimits f' = subLimits ?f" "fam_rel f' (if ?ok then add_mset ip ?live else ?live)"
    using add_family_sim [of ?f ?live ip] rel size_family [OF assms(2)] by auto
  have "cl_rel (store_family cl ?b f') (if ?ok then add_mset ip live else live)"
    unfolding cl_rel_iff [where b = ?b] using f' rel by auto
  then show ?thesis
    using f'(1) same_limits_store by (auto simp: cl_addConn_def cl_admits_def)
qed

lemma cl_rmConn_sim:
  assumes "cl_rel cl (add_mset ip live)" and "int (size live) < MaxInt64"
  shows "\<exists>cl'. cl_rmConn cl ip = Some cl' \<and> same_limits cl cl' \<and> cl_rel cl' live"
proof -
  let ?b = "Is6 ip"
  let ?f = "select_family cl ?b" and ?live = "{#x \<in># live. Is6 x = ?b#}"
  note rel = assms(1) [unfolded cl_rel_iff [of cl "add_mset ip live" ?b]]
  obtain f' where f': "rm_family ?f ip = Some f'" "npLimits f' = npLimits ?f"
    "subLimits f' = subLimits ?f" "fam_rel f' ?live"
    using rm_family_sim [of ?f ip ?live] rel size_family [OF assms(2)] by auto
  have "cl_rel (store_family cl ?b f') live"
    unfolding cl_rel_iff [where b = ?b] using f' rel by auto
  then show ?thesis
    using f'(1) same_limits_store by (auto simp: cl_rmConn_def)
qed

section \<open>The contract of a connection limiter\<close>

text \<open>What a client relies on: the limiter stands for the multiset of live connections, answers
  by that alone, and never panics on it.\<close>

locale conn_counter =
  fixes rel :: "'s \<Rightarrow> 'a multiset \<Rightarrow> bool"
    and ok :: "'a multiset \<Rightarrow> 'a \<Rightarrow> bool"
    and add :: "'s \<Rightarrow> 'a \<Rightarrow> (bool \<times> 's) option"
    and rm :: "'s \<Rightarrow> 'a \<Rightarrow> 's option"
  assumes add_law: "rel s live \<Longrightarrow> int (size live) < MaxInt64 \<Longrightarrow>
      \<exists>s'. add s x = Some (ok live x, s') \<and> rel s' (if ok live x then add_mset x live else live)"
    and rm_law: "rel s (add_mset x live) \<Longrightarrow> int (size live) < MaxInt64 \<Longrightarrow>
      \<exists>s'. rm s x = Some s' \<and> rel s' live"
begin

text \<open>A property of the live connections that every admission keeps is kept by \<open>add\<close>.\<close>

lemma add_keeps:
  assumes "rel s live" "int (size live) < MaxInt64" "P live" "add s x = Some (b, s')"
    and "ok live x \<Longrightarrow> P (add_mset x live)"
  shows "rel s' (if b then add_mset x live else live) \<and> P (if b then add_mset x live else live)"
  using add_law [OF assms(1,2), of x] assms(3-5) by auto

lemma rm_keeps:
  assumes "rel s (add_mset x live)" "int (size live) < MaxInt64" "rm s x = Some s'"
  shows "rel s' live"
  using rm_law [OF assms(1,2)] assms(3) by auto

lemma add_rm_admits:
  assumes "rel s live" "int (size live) < MaxInt64" "add s x = Some (True, s')"
  shows "\<exists>s''. rm s' x = Some s'' \<and> rel s'' live"
  using add_law [OF assms(1,2), of x] rm_law [of s' x live] assms(2,3) by auto

end

interpretation lim: conn_counter
  "\<lambda>cl live. cl_rel cl live \<and> same_limits cl0 cl" "cl_admits cl0" cl_addConn cl_rmConn for cl0
proof
  have same: "same_limits cl0 cl \<Longrightarrow> cl_admits cl live x = cl_admits cl0 live x" for cl live x
    by (simp add: cl_admits_def same_limits_def select_family_def)
  have trans: "same_limits cl0 cl \<Longrightarrow> same_limits cl cl' \<Longrightarrow> same_limits cl0 cl'" for cl cl'
    by (simp add: same_limits_def)
  fix cl live x
  show "cl_rel cl live \<and> same_limits cl0 cl \<Longrightarrow> int (size live) < MaxInt64 \<Longrightarrow>
      \<exists>s'. cl_addConn cl x = Some (cl_admits cl0 live x, s') \<and>
        cl_rel s' (if cl_admits cl0 live x then add_mset x live else live) \<and> same_limits cl0 s'"
    using cl_addConn_sim [of cl live x] same [of cl live x] trans [of cl] by auto
  show "cl_rel cl (add_mset x live) \<and> same_limits cl0 cl \<Longrightarrow> int (size live) < MaxInt64 \<Longrightarrow>
      \<exists>s'. cl_rmConn cl x = Some s' \<and> cl_rel s' live \<and> same_limits cl0 s'"
    using cl_rmConn_sim [of cl x live] trans [of cl] by auto
qed

text \<open>The states a configured limiter reaches, with the live connections: one is added when
  \<open>addConn\<close> answers true, and only a live one is removed.\<close>

inductive cl_reach :: "connLimiter \<Rightarrow> connLimiter \<Rightarrow> Addr multiset \<Rightarrow> bool" for cl0 where
  start: "cl_reach cl0 cl0 {#}"
| add: "cl_reach cl0 cl live \<Longrightarrow> int (size live) < MaxInt64 \<Longrightarrow> cl_addConn cl ip = Some (b, cl') \<Longrightarrow>
    cl_reach cl0 cl' (if b then add_mset ip live else live)"
| rm: "cl_reach cl0 cl (add_mset ip live) \<Longrightarrow> int (size live) < MaxInt64 \<Longrightarrow>
    cl_rmConn cl ip = Some cl' \<Longrightarrow> cl_reach cl0 cl' live"

definition no_conns :: "connLimiter \<Rightarrow> bool" where
  "no_conns cl \<longleftrightarrow> connsPerNetworkPrefixV4 cl = [] \<and> connsPerNetworkPrefixV6 cl = [] \<and>
     ip4connsPerLimit cl = [] \<and> ip6connsPerLimit cl = []"

lemma fam_rel_start: "npConns f = [] \<Longrightarrow> subConns f = [] \<Longrightarrow> fam_rel f {#}"
  by (auto simp: fam_rel_def full_rel_def init_np_def init_sub_def np_live_def sub_live_def fun_eq_iff)

lemma cl_rel_start: "no_conns cl \<Longrightarrow> cl_rel cl {#}"
  by (simp add: cl_rel_def no_conns_def fam_rel_start select_family_def)

definition within :: "family \<Rightarrow> Addr multiset \<Rightarrow> bool" where
  "within f live \<longleftrightarrow>
     (\<forall>i < length (npLimits f). np_live (npLimits f) live i \<le> max 0 (PrefixConnCount (npLimits f ! i))) \<and>
     (\<forall>l \<in> set (subLimits f). \<forall>p. sub_live (npLimits f) l live p \<le> max 0 (SubnetConnCount l))"

lemma within_add:
  assumes "within f live" "admits (npLimits f) (subLimits f) live ip"
  shows "within f (add_mset ip live)"
proof -
  have "np_live (npLimits f) (add_mset ip live) i \<le> max 0 (PrefixConnCount (npLimits f ! i))"
    if "i < length (npLimits f)" for i
    using assms that match_prefix_Some [of "npLimits f" 0 ip]
    by (fastforce simp: within_def np_live_add admits_def split: option.splits prod.splits)
  moreover have "sub_live (npLimits f) l (add_mset ip live) p \<le> max 0 (SubnetConnCount l)"
    if "l \<in> set (subLimits f)" for l p
    using assms that
    by (fastforce simp: within_def sub_live_add admits_def split: option.splits)
  ultimately show ?thesis by (simp add: within_def)
qed

lemma live_mono:
  "np_live nps live i \<le> np_live nps (add_mset ip live) i"
  "sub_live nps l live p \<le> sub_live nps l (add_mset ip live) p"
  by (simp_all add: np_live_add sub_live_add)

lemma within_mono: "within f (add_mset ip live) \<Longrightarrow> within f live"
  unfolding within_def by (meson live_mono order_trans)

definition cl_within :: "connLimiter \<Rightarrow> Addr multiset \<Rightarrow> bool" where
  "cl_within cl live \<longleftrightarrow> (\<forall>b. within (select_family cl b) {#x \<in># live. Is6 x = b#})"

lemma cl_within_add: "cl_within cl live \<Longrightarrow> cl_admits cl live ip \<Longrightarrow> cl_within cl (add_mset ip live)"
  by (auto simp: cl_within_def cl_admits_def within_add)

lemma cl_within_mono: "cl_within cl (add_mset ip live) \<Longrightarrow> cl_within cl live"
  by (auto simp: cl_within_def split: if_splits dest: within_mono)

lemma cl_reach_inv:
  assumes "cl_reach cl0 cl live" "no_conns cl0"
  shows "(cl_rel cl live \<and> same_limits cl0 cl) \<and> cl_within cl0 live"
  using assms
proof (induction rule: cl_reach.induct)
  case start
  then show ?case
    by (simp add: cl_rel_start same_limits_def cl_within_def within_def np_live_def sub_live_def)
next
  case (add cl live ip b cl')
  then show ?case
    using lim.add_keeps [of cl live cl0 "cl_within cl0" ip b cl'] cl_within_add by blast
next
  case (rm cl ip live cl')
  then show ?case
    using lim.rm_keeps [of cl ip live cl0 cl'] cl_within_mono by blast
qed

section \<open>Properties\<close>

definition ip_a :: Addr where "ip_a = Addr4 16909060"

definition small_limiter :: connLimiter where
  "small_limiter = WithLimitPerSubnet (Some [\<lparr>PrefixLength = 24, SubnetConnCount = 1\<rparr>]) None
     newConnLimiter"

text \<open>C12: The limiter implements its promise.  While the counters stand for a multiset of live
  connections, \<open>addConn\<close> returns (it never indexes out of range) and answers true exactly when the
  address's first matching prefix, or every one of its subnets if there is none, has fewer live
  connections than its limit; the counters then stand for the multiset with that connection
  added, and they are unchanged in meaning when it is refused.  \<open>rmConn\<close> of a live connection
  takes it out again.\<close>

theorem conn_limiter_refines:
  assumes "cl_rel cl live" and "int (size live) < MaxInt64"
  shows "(\<exists>cl'. cl_addConn cl ip = Some (cl_admits cl live ip, cl') \<and> same_limits cl cl' \<and>
      cl_rel cl' (if cl_admits cl live ip then add_mset ip live else live)) \<and>
    (\<forall>rest. live = add_mset ip rest \<longrightarrow>
      (\<exists>cl'. cl_rmConn cl ip = Some cl' \<and> same_limits cl cl' \<and> cl_rel cl' rest))"
proof (intro conjI allI impI)
  show "\<exists>cl'. cl_rmConn cl ip = Some cl' \<and> same_limits cl cl' \<and> cl_rel cl' rest"
    if "live = add_mset ip rest" for rest
    using assms that by (intro cl_rmConn_sim) simp_all
qed (rule cl_addConn_sim [OF assms])

lemma small_limiter_fresh: "no_conns small_limiter"
  by (simp add: no_conns_def small_limiter_def WithLimitPerSubnet_def newConnLimiter_def)

theorem conn_limiter_refines_witness:
  "\<exists>b cl'. cl_addConn small_limiter ip_a = Some (b, cl') \<and>
     cl_rel cl' (if b then {#ip_a#} else {#})"
proof -
  have "int (size {#}) < MaxInt64" by simp
  then show ?thesis
    using conn_limiter_refines [OF cl_rel_start [OF small_limiter_fresh], of ip_a] by blast
qed

text \<open>Starting from a limiter without connections, no history of \<open>addConn\<close> and \<open>rmConn\<close>
  leaves more live connections than a limit allows: for every network prefix the connections that
  match it first, and for every subnet limit the connections of any one subnet that match no
  prefix.\<close>

theorem conn_limits_hold:
  assumes "cl_reach cl0 cl live" and "no_conns cl0"
  shows "\<forall>v6. (\<forall>i < length (npLimits (select_family cl0 v6)).
        np_live (npLimits (select_family cl0 v6)) {#x \<in># live. Is6 x = v6#} i
          \<le> max 0 (PrefixConnCount (npLimits (select_family cl0 v6) ! i))) \<and>
      (\<forall>l \<in> set (subLimits (select_family cl0 v6)). \<forall>p.
        sub_live (npLimits (select_family cl0 v6)) l {#x \<in># live. Is6 x = v6#} p
          \<le> max 0 (SubnetConnCount l))"
  using cl_reach_inv [OF assms] by (simp add: cl_within_def within_def)

theorem conn_limits_hold_witness:
  "\<exists>cl live. cl_reach small_limiter cl live \<and>
     (\<forall>l \<in> set (subLimits (select_family small_limiter False)). \<forall>p.
        sub_live (npLimits (select_family small_limiter False)) l {#x \<in># live. Is6 x = False#} p
          \<le> max 0 (SubnetConnCount l))"
proof -
  obtain b cl' where "cl_addConn small_limiter ip_a = Some (b, cl')"
    using cl_addConn_sim [OF cl_rel_start [OF small_limiter_fresh], of ip_a] by auto
  then have r: "cl_reach small_limiter cl' (if b then {#ip_a#} else {#})"
    using cl_reach.add [OF cl_reach.start, of small_limiter ip_a b cl'] by simp
  show ?thesis
    using conn_limits_hold [OF r small_limiter_fresh] r by blast
qed

text \<open>C16: Sorting the prefix limits puts the more specific ones first and loses none, so the
  prefix an address is counted against is the most specific one that contains it, whatever order
  the limits were configured in.\<close>

theorem most_specific_prefix:
  assumes "match_prefix (sortNetworkPrefixes limits) 0 ip = Some (i, l)"
  shows "l \<in> set limits \<and> Contains (Network l) ip \<and>
    (\<forall>l' \<in> set limits. Contains (Network l') ip \<longrightarrow> pfxBits (Network l') \<le> pfxBits (Network l))"
proof -
  let ?ls = "sortNetworkPrefixes limits"
  note m = match_prefix_Some [OF assms]
  have set: "set ?ls = set limits" by (simp add: sortNetworkPrefixes_def)
  have sorted: "sorted (map (\<lambda>l. - pfxBits (Network l)) ?ls)"
    by (simp add: sortNetworkPrefixes_def)
  have "pfxBits (Network l') \<le> pfxBits (Network l)"
    if "l' \<in> set limits" "Contains (Network l') ip" for l'
  proof -
    obtain j where j: "j < length ?ls" "?ls ! j = l'"
      using \<open>l' \<in> set limits\<close> set by (metis in_set_conv_nth)
    then have "i \<le> j" using m that(2) by (cases "j < i") auto
    then show ?thesis using sorted_nth_mono [OF sorted, of i j] m j by simp
  qed
  moreover have "l \<in> set limits" using m set by (metis add_0 diff_zero nth_mem)
  ultimately show ?thesis using m by blast
qed

theorem most_specific_prefix_witness:
  "\<exists>i l. match_prefix (sortNetworkPrefixes
     [\<lparr>Network = \<lparr>pfxAddr = Addr4 16908288, pfxBits = 16\<rparr>, PrefixConnCount = 1\<rparr>,
      \<lparr>Network = \<lparr>pfxAddr = Addr4 16909056, pfxBits = 24\<rparr>, PrefixConnCount = 2\<rparr>]) 0 ip_a
     = Some (i, l) \<and> 24 \<le> pfxBits (Network l)"
proof -
  let ?ls = "[\<lparr>Network = \<lparr>pfxAddr = Addr4 16908288, pfxBits = 16\<rparr>, PrefixConnCount = 1\<rparr>,
      \<lparr>Network = \<lparr>pfxAddr = Addr4 16909056, pfxBits = 24\<rparr>, PrefixConnCount = 2\<rparr>]"
  have "match_prefix (sortNetworkPrefixes ?ls) 0 ip_a \<noteq> None"
    by (simp add: sortNetworkPrefixes_def Contains_def ip_a_def)
  then obtain i l where m: "match_prefix (sortNetworkPrefixes ?ls) 0 ip_a = Some (i, l)" by auto
  have "Contains (Network (?ls ! 1)) ip_a" by (simp add: Contains_def ip_a_def)
  then show ?thesis using most_specific_prefix [OF m] m by simp
qed

end
