(* ===== verification/Allow_List.thy ===== *)
theory Allow_List
  imports Prelude "HOL-Library.AList" "HOL-Library.Multiset"
begin

text \<open>
  The allowlist of the resource manager (p2p/host/resource-manager/allowlist.go): networks whose
  connections may use the allowlisted scopes, for every peer or for one peer.  A multiaddr is its
  list of components with their binary values; the map from peers to networks is an association
  list.
\<close>

section \<open>Multiaddr components and IP networks\<close>

datatype component = CIP4 "32 word" | CIP6 "128 word" | CIP6Zone | CIPCIDR "8 word" | CP2P string
  | COther

type_synonym maddr = "component list"

datatype IP = IP4 "32 word" | IP16 "128 word"

record ipnet =
  netIP :: IP
  maskOnes :: nat
  maskBits :: nat

text \<open>\<open>ToIP\<close> of multiformats/multiaddr/net/convert.go: only zones may precede the address.\<close>

fun ToIP :: "maddr \<Rightarrow> IP option" where
  "ToIP (CIP6Zone # cs) = ToIP cs"
| "ToIP (CIP4 a # cs) = Some (IP4 a)"
| "ToIP (CIP6 a # cs) = Some (IP16 a)"
| "ToIP _ = None"

text \<open>\<open>net.IP.To4\<close>: an address of four bytes, or one of sixteen with the IPv4-mapped prefix.\<close>

definition To4 :: "IP \<Rightarrow> 32 word option" where
  "To4 ip = (case ip of IP4 a \<Rightarrow> Some a
     | IP16 a \<Rightarrow> if drop_bit 32 a = 65535 then Some (ucast a) else None)"

definition mapped4 :: "32 word \<Rightarrow> 128 word" where
  "mapped4 a = or (push_bit 32 65535) (ucast a)"

text \<open>\<open>net.IPNet.Contains\<close>.\<close>

definition net_Contains :: "ipnet \<Rightarrow> IP \<Rightarrow> bool" where
  "net_Contains n ip =
    (case To4 (netIP n) of
       Some a \<Rightarrow> (case To4 ip of
           Some b \<Rightarrow> (let ones = (if maskBits n = 32 then maskOnes n else maskOnes n - 96)
                     in drop_bit (32 - ones) a = drop_bit (32 - ones) b)
         | None \<Rightarrow> False)
     | None \<Rightarrow> (case (To4 ip, netIP n, ip) of
           (None, IP16 a, IP16 b) \<Rightarrow> maskBits n = 128 \<and>
              drop_bit (128 - maskOnes n) a = drop_bit (128 - maskOnes n) b
         | _ \<Rightarrow> False))"

text \<open>\<open>net.IP.Equal\<close>: an IPv4 address equals its mapped form.\<close>

definition IP_Equal :: "IP \<Rightarrow> IP \<Rightarrow> bool" where
  "IP_Equal x y = (case (To4 x, To4 y) of
     (Some a, Some b) \<Rightarrow> a = b | (None, None) \<Rightarrow> x = y | _ \<Rightarrow> False)"

section \<open>Reading an entry\<close>

datatype allow_error = MissingIP | InvalidCIDR

record entry_scan =
  scanIP :: "component option"
  scanMask :: "nat option"
  scanPeer :: "string option"

fun scan_entry :: "entry_scan \<Rightarrow> maddr \<Rightarrow> entry_scan" where
  "scan_entry s [] = s"
| "scan_entry s (c # cs) =
    (let s' = (case c of
         CIP4 a \<Rightarrow> s\<lparr>scanIP := Some c\<rparr>
       | CIP6 a \<Rightarrow> s\<lparr>scanIP := Some c\<rparr>
       | CIPCIDR m \<Rightarrow> s\<lparr>scanMask := Some (unat m)\<rparr>
       | CP2P p \<Rightarrow> s\<lparr>scanPeer := Some p\<rparr>
       | _ \<Rightarrow> s)
     in if scanIP s' = None \<or> scanMask s' = None \<or> scanPeer s' = None then scan_entry s' cs else s')"

text \<open>\<open>net.ParseCIDR\<close> masks the address and gives an IPv4 network four bytes.\<close>

definition ParseCIDR :: "component \<Rightarrow> nat \<Rightarrow> ipnet option" where
  "ParseCIDR c n = (case c of
      CIP4 a \<Rightarrow> if n > 32 then None
        else Some \<lparr>netIP = IP4 (push_bit (32 - n) (drop_bit (32 - n) a)), maskOnes = n, maskBits = 32\<rparr>
    | CIP6 a \<Rightarrow> if n > 128 then None
        else Some \<lparr>netIP = IP16 (push_bit (128 - n) (drop_bit (128 - n) a)), maskOnes = n, maskBits = 128\<rparr>
    | _ \<Rightarrow> None)"

definition toIPNet :: "maddr \<Rightarrow> allow_error + (ipnet \<times> string option)" where
  "toIPNet ma =
    (let s = scan_entry \<lparr>scanIP = None, scanMask = None, scanPeer = None\<rparr> ma in
     case scanIP s of
       None \<Rightarrow> Inl MissingIP
     | Some c \<Rightarrow>
        (case scanMask s of
           None \<Rightarrow>
             Inr (case c of
                CIP4 a \<Rightarrow> \<lparr>netIP = IP16 (mapped4 a), maskOnes = 32, maskBits = 32\<rparr>
              | CIP6 a \<Rightarrow> \<lparr>netIP = IP16 a, maskOnes = 128, maskBits = 128\<rparr>
              | _ \<Rightarrow> \<lparr>netIP = IP16 0, maskOnes = 128, maskBits = 128\<rparr>, scanPeer s)
         | Some n \<Rightarrow>
             (case ParseCIDR c n of
                None \<Rightarrow> Inl InvalidCIDR
              | Some net \<Rightarrow> Inr (net, scanPeer s))))"

section \<open>The list\<close>

record Allowlist =
  allowedNetworks :: "ipnet list"
  allowedPeerByNetwork :: "(string \<times> ipnet list) list"

definition newAllowlist :: Allowlist where
  "newAllowlist = \<lparr>allowedNetworks = [], allowedPeerByNetwork = []\<rparr>"

definition networks_of :: "Allowlist \<Rightarrow> string \<Rightarrow> ipnet list" where
  "networks_of al p = (case map_of (allowedPeerByNetwork al) p of Some ns \<Rightarrow> ns | None \<Rightarrow> [])"

definition Allowlist_Add :: "Allowlist \<Rightarrow> maddr \<Rightarrow> allow_error + Allowlist" where
  "Allowlist_Add al ma = (case toIPNet ma of
      Inl e \<Rightarrow> Inl e
    | Inr (net, Some p) \<Rightarrow>
        Inr (al\<lparr>allowedPeerByNetwork :=
               AList.update p (networks_of al p @ [net]) (allowedPeerByNetwork al)\<rparr>)
    | Inr (net, None) \<Rightarrow> Inr (al\<lparr>allowedNetworks := allowedNetworks al @ [net]\<rparr>))"

fun WithAllowlistedMultiaddrs :: "maddr list \<Rightarrow> Allowlist \<Rightarrow> allow_error + Allowlist" where
  "WithAllowlistedMultiaddrs [] al = Inr al"
| "WithAllowlistedMultiaddrs (ma # mas) al = (case Allowlist_Add al ma of
     Inl e \<Rightarrow> Inl e | Inr al' \<Rightarrow> WithAllowlistedMultiaddrs mas al')"

definition same_net :: "ipnet \<Rightarrow> ipnet \<Rightarrow> bool" where
  "same_net m n = (IP_Equal (netIP m) (netIP n) \<and> maskOnes m = maskOnes n \<and> maskBits m = maskBits n)"

text \<open>The loop of \<open>Remove\<close>: from the end, swap the first match with the last entry and cut.\<close>

fun swap_remove :: "nat \<Rightarrow> ipnet list \<Rightarrow> ipnet \<Rightarrow> ipnet list" where
  "swap_remove 0 ns net = ns"
| "swap_remove (Suc i) ns net =
    (if same_net (ns ! i) net then butlast (ns[i := last ns]) else swap_remove i ns net)"

definition Allowlist_Remove :: "Allowlist \<Rightarrow> maddr \<Rightarrow> allow_error + Allowlist" where
  "Allowlist_Remove al ma = (case toIPNet ma of
      Inl e \<Rightarrow> Inl e
    | Inr (net, Some p) \<Rightarrow>
        (case map_of (allowedPeerByNetwork al) p of
           None \<Rightarrow> Inr al
         | Some ns \<Rightarrow> Inr (al\<lparr>allowedPeerByNetwork :=
               AList.update p (swap_remove (length ns) ns net) (allowedPeerByNetwork al)\<rparr>))
    | Inr (net, None) \<Rightarrow>
        Inr (al\<lparr>allowedNetworks :=
               swap_remove (length (allowedNetworks al)) (allowedNetworks al) net\<rparr>))"

definition Allowed :: "Allowlist \<Rightarrow> maddr \<Rightarrow> bool" where
  "Allowed al ma = (case ToIP ma of
      None \<Rightarrow> False
    | Some ip \<Rightarrow> list_ex (\<lambda>n. net_Contains n ip) (allowedNetworks al) \<or>
        list_ex (\<lambda>(p, ns). list_ex (\<lambda>n. net_Contains n ip) ns) (allowedPeerByNetwork al))"

definition AllowedPeerAndMultiaddr :: "Allowlist \<Rightarrow> string \<Rightarrow> maddr \<Rightarrow> bool" where
  "AllowedPeerAndMultiaddr al p ma = (case ToIP ma of
      None \<Rightarrow> False
    | Some ip \<Rightarrow> list_ex (\<lambda>n. net_Contains n ip) (allowedNetworks al) \<or>
        list_ex (\<lambda>n. net_Contains n ip) (networks_of al p))"

section \<open>What the list allows\<close>

definition al_wf :: "Allowlist \<Rightarrow> bool" where
  "al_wf al = distinct (map fst (allowedPeerByNetwork al))"

definition entry_covers :: "maddr \<Rightarrow> maddr \<Rightarrow> bool" where
  "entry_covers e ma = (case (toIPNet e, ToIP ma) of
     (Inr (net, p), Some ip) \<Rightarrow> net_Contains net ip | _ \<Rightarrow> False)"

definition entry_peer :: "maddr \<Rightarrow> string option" where
  "entry_peer e = (case toIPNet e of Inr (net, p) \<Rightarrow> p | Inl _ \<Rightarrow> None)"

lemma list_ex_alist:
  "distinct (map fst al) \<Longrightarrow> list_ex (\<lambda>(p, ns). Q ns) al \<longleftrightarrow> (\<exists>p ns. map_of al p = Some ns \<and> Q ns)"
  by (force simp: list_ex_iff)

lemma Allowed_iff:
  "al_wf al \<Longrightarrow> Allowed al ma \<longleftrightarrow> (\<exists>p. AllowedPeerAndMultiaddr al p ma)"
proof (cases "ToIP ma")
  case (Some ip)
  let ?Q = "list_ex (\<lambda>n. net_Contains n ip)"
  assume "al_wf al"
  moreover have "(\<exists>p. ?Q (networks_of al p)) \<longleftrightarrow>
      (\<exists>p ns. map_of (allowedPeerByNetwork al) p = Some ns \<and> ?Q ns)"
  proof
    assume "\<exists>p. ?Q (networks_of al p)"
    then show "\<exists>p ns. map_of (allowedPeerByNetwork al) p = Some ns \<and> ?Q ns"
      by (auto simp: networks_of_def split: option.splits)
  next
    assume "\<exists>p ns. map_of (allowedPeerByNetwork al) p = Some ns \<and> ?Q ns"
    then obtain p ns where "map_of (allowedPeerByNetwork al) p = Some ns" "?Q ns" by blast
    then have "?Q (networks_of al p)" by (simp add: networks_of_def)
    then show "\<exists>p. ?Q (networks_of al p)" by blast
  qed
  ultimately show ?thesis
    using Some by (simp add: Allowed_def AllowedPeerAndMultiaddr_def al_wf_def list_ex_alist)
qed (simp add: Allowed_def AllowedPeerAndMultiaddr_def)

lemma networks_of_update:
  "networks_of (al\<lparr>allowedPeerByNetwork := AList.update p ns (allowedPeerByNetwork al)\<rparr>) q =
     (if q = p then ns else networks_of al q)"
  by (simp add: networks_of_def AList.update_conv')

lemma AllowedPeer_cong:
  "allowedNetworks al = allowedNetworks al' \<Longrightarrow> networks_of al q = networks_of al' q \<Longrightarrow>
     AllowedPeerAndMultiaddr al q ma = AllowedPeerAndMultiaddr al' q ma"
  by (simp add: AllowedPeerAndMultiaddr_def split: option.split)

lemma al_wf_ops:
  "al_wf newAllowlist"
  "al_wf al \<Longrightarrow> Allowlist_Add al e = Inr al' \<Longrightarrow> al_wf al'"
  "al_wf al \<Longrightarrow> Allowlist_Remove al e = Inr al' \<Longrightarrow> al_wf al'"
  by (auto simp: al_wf_def newAllowlist_def Allowlist_Add_def Allowlist_Remove_def AList.distinct_update
      split: sum.splits option.splits)

lemma AllowedPeer_Add:
  assumes "Allowlist_Add al e = Inr al'"
  shows "AllowedPeerAndMultiaddr al' q ma \<longleftrightarrow> AllowedPeerAndMultiaddr al q ma \<or>
    (entry_covers e ma \<and> (entry_peer e = None \<or> entry_peer e = Some q))"
proof -
  obtain net po where e: "toIPNet e = Inr (net, po)"
    using assms by (cases "toIPNet e") (auto simp: Allowlist_Add_def)
  show ?thesis
  proof (cases po)
    case None
    then have "al' = al\<lparr>allowedNetworks := allowedNetworks al @ [net]\<rparr>"
      using assms e by (simp add: Allowlist_Add_def)
    then show ?thesis
      using e None
      by (auto simp: AllowedPeerAndMultiaddr_def entry_covers_def entry_peer_def networks_of_def
          split: option.splits)
  next
    case (Some p)
    then have "al' = al\<lparr>allowedPeerByNetwork :=
        AList.update p (networks_of al p @ [net]) (allowedPeerByNetwork al)\<rparr>"
      using assms e by (simp add: Allowlist_Add_def)
    then show ?thesis
      using e Some
      by (auto simp: AllowedPeerAndMultiaddr_def entry_covers_def entry_peer_def networks_of_update
          split: option.splits)
  qed
qed

lemma same_net_refl: "same_net n n"
  by (simp add: same_net_def IP_Equal_def split: option.split)

lemma swap_remove_last: "swap_remove (length (ns @ [n])) (ns @ [n]) n = ns"
  by (simp add: same_net_refl)

lemma AllowedPeer_Add_Remove:
  assumes "Allowlist_Add al e = Inr al'"
  shows "\<exists>al''. Allowlist_Remove al' e = Inr al'' \<and>
     (\<forall>q ma. AllowedPeerAndMultiaddr al'' q ma = AllowedPeerAndMultiaddr al q ma)"
proof -
  obtain net po where e: "toIPNet e = Inr (net, po)"
    using assms by (cases "toIPNet e") (auto simp: Allowlist_Add_def)
  show ?thesis
  proof (cases po)
    case None
    then have al': "al' = al\<lparr>allowedNetworks := allowedNetworks al @ [net]\<rparr>"
      using assms e by (simp add: Allowlist_Add_def)
    have "Allowlist_Remove al' e = Inr al"
      using e None swap_remove_last [of "allowedNetworks al" net]
      by (simp add: Allowlist_Remove_def al')
    then show ?thesis by auto
  next
    case (Some p)
    let ?peers = "AList.update p (networks_of al p @ [net]) (allowedPeerByNetwork al)"
    have al': "al' = al\<lparr>allowedPeerByNetwork := ?peers\<rparr>"
      using assms e Some by (simp add: Allowlist_Add_def)
    have "map_of (allowedPeerByNetwork al') p = Some (networks_of al p @ [net])"
      by (simp add: al' AList.update_conv')
    then have "Allowlist_Remove al' e =
        Inr (al'\<lparr>allowedPeerByNetwork := AList.update p (networks_of al p) (allowedPeerByNetwork al')\<rparr>)"
      using e Some swap_remove_last [of "networks_of al p" net] by (simp add: Allowlist_Remove_def)
    moreover have "networks_of (al'\<lparr>allowedPeerByNetwork :=
        AList.update p (networks_of al p) (allowedPeerByNetwork al')\<rparr>) q = networks_of al q" for q
      by (simp add: networks_of_update al')
    moreover have "allowedNetworks (al'\<lparr>allowedPeerByNetwork :=
        AList.update p (networks_of al p) (allowedPeerByNetwork al')\<rparr>) = allowedNetworks al"
      by (simp add: al')
    ultimately show ?thesis using AllowedPeer_cong by blast
  qed
qed

section \<open>Properties\<close>

text \<open>C17: Adding an entry to the allowlist allows exactly what was allowed before and the
  addresses of the entry's network, for every peer if the entry names none and otherwise for the
  named peer only; without a peer in hand, \<open>Allowed\<close> holds for an address exactly when some peer is
  allowed to use it.\<close>

theorem allowlist_add_exact:
  assumes "al_wf al" and "Allowlist_Add al e = Inr al'"
  shows "(AllowedPeerAndMultiaddr al' q ma \<longleftrightarrow> AllowedPeerAndMultiaddr al q ma \<or>
      (entry_covers e ma \<and> (entry_peer e = None \<or> entry_peer e = Some q))) \<and>
    (Allowed al' ma \<longleftrightarrow> (\<exists>p. AllowedPeerAndMultiaddr al' p ma))"
  using AllowedPeer_Add [OF assms(2)] Allowed_iff [OF al_wf_ops(2) [OF assms]] by blast

theorem allowlist_add_exact_witness:
  "\<exists>al'. Allowlist_Add newAllowlist [CIP4 16909060, CP2P ''p''] = Inr al' \<and>
     AllowedPeerAndMultiaddr al' ''p'' [CIP4 16909060, COther] \<and>
     \<not> AllowedPeerAndMultiaddr al' ''q'' [CIP4 16909060, COther]"
proof -
  let ?e = "[CIP4 16909060, CP2P ''p'']" and ?ma = "[CIP4 16909060, COther]"
  obtain al' where al': "Allowlist_Add newAllowlist ?e = Inr al'"
    by (simp add: Allowlist_Add_def toIPNet_def Let_def)
  have "entry_covers ?e ?ma" "entry_peer ?e = Some ''p''"
    by (simp_all add: entry_covers_def entry_peer_def toIPNet_def Let_def net_Contains_def To4_def
        mapped4_def)
  moreover have "\<not> AllowedPeerAndMultiaddr newAllowlist ''q'' ?ma"
    by (simp add: AllowedPeerAndMultiaddr_def newAllowlist_def networks_of_def)
  ultimately show ?thesis
    using allowlist_add_exact [OF al_wf_ops(1) al', of "''p''" ?ma]
      allowlist_add_exact [OF al_wf_ops(1) al', of "''q''" ?ma] al' by auto
qed

text \<open>C18: Removing the entry that was just added is always possible and gives back the
  permissions of before, for every peer and address.\<close>

theorem allowlist_remove_undoes_add:
  assumes "Allowlist_Add al e = Inr al'"
  shows "\<exists>al''. Allowlist_Remove al' e = Inr al'' \<and>
     (\<forall>q ma. AllowedPeerAndMultiaddr al'' q ma = AllowedPeerAndMultiaddr al q ma)"
  by (rule AllowedPeer_Add_Remove [OF assms])

theorem allowlist_remove_undoes_add_witness:
  "\<exists>al' al''. Allowlist_Add newAllowlist [CIP4 16909060, CP2P ''p''] = Inr al' \<and>
     Allowlist_Remove al' [CIP4 16909060, CP2P ''p''] = Inr al''"
proof -
  let ?e = "[CIP4 16909060, CP2P ''p'']"
  obtain al' where "Allowlist_Add newAllowlist ?e = Inr al'"
    by (simp add: Allowlist_Add_def toIPNet_def Let_def)
  then show ?thesis using allowlist_remove_undoes_add [of newAllowlist ?e al'] by blast
qed

end
