(* ===== verification/Manager.thy ===== *)
theory Manager
  imports Scope Conn_Limiter Allow_List
begin

text \<open>
  The resource manager (p2p/host/resource-manager/rcmgr.go).  The scopes of all kinds live in one
  store; the fields that a kind of scope adds to \<open>resourceScope\<close> are kept in a map from the scope's
  pointer.  A peer ID is its textual form.  The limiter is the fixed limiter.  \<open>None\<close> is a call
  that does not return, as for scopes.  Metrics and the trace are left out.
\<close>

section \<open>State\<close>

record serviceScope =
  svcService :: string
  svcPeers :: "peerID \<rightharpoonup> sid"

record protocolScope =
  protoProto :: protocolID
  protoPeers :: "peerID \<rightharpoonup> sid"

record connectionScope =
  cDir :: Direction
  cUsefd :: bool
  cIsAllowlisted :: bool
  cPeer :: "sid option"
  cEndpoint :: maddr
  cIP :: Addr

record streamScope =
  sDir :: Direction
  sPeer :: sid
  sSvc :: "sid option"
  sProto :: "sid option"
  sPeerProtoScope :: "sid option"
  sPeerSvcScope :: "sid option"

record resourceManager =
  rmLimits :: fixedLimiter
  rmConnLimiter :: connLimiter
  rmAllowlist :: Allowlist
  rmStore :: store
  rmSystem :: sid
  rmTransient :: sid
  rmAllowlistedSystem :: sid
  rmAllowlistedTransient :: sid
  rmSvc :: "string \<rightharpoonup> sid"
  rmProto :: "protocolID \<rightharpoonup> sid"
  rmPeer :: "peerID \<rightharpoonup> sid"
  rmStickyProto :: "protocolID set"
  rmStickyPeer :: "peerID set"
  rmConnId :: int
  rmStreamId :: int
  rmServices :: "sid \<rightharpoonup> serviceScope"
  rmProtocols :: "sid \<rightharpoonup> protocolScope"
  rmPeers :: "sid \<rightharpoonup> peerID"
  rmConns :: "sid \<rightharpoonup> connectionScope"
  rmStreams :: "sid \<rightharpoonup> streamScope"

datatype rm_error =
    ErrScope rcmgr_error
  | ErrTooManyConnsFromIP
  | ErrPeerAlreadySet
  | ErrProtocolAlreadySet
  | ErrServiceAlreadySet
  | ErrNoProtocol

section \<open>Names\<close>

definition IsSystemScope :: "string \<Rightarrow> bool" where
  "IsSystemScope name = (name = ''system'')"

definition IsTransientScope :: "string \<Rightarrow> bool" where
  "IsTransientScope name = (name = ''transient'')"

definition streamScopeName :: "int \<Rightarrow> string" where
  "streamScopeName n = ''stream-'' @ itoa n"

definition IsStreamScope :: "string \<Rightarrow> bool" where
  "IsStreamScope name = (hasPrefix name ''stream-'' \<and> \<not> IsSpan name)"

definition connScopeName :: "int \<Rightarrow> string" where
  "connScopeName n = ''conn-'' @ itoa n"

definition IsConnScope :: "string \<Rightarrow> bool" where
  "IsConnScope name = (hasPrefix name ''conn-'' \<and> \<not> IsSpan name)"

definition peerScopeName :: "peerID \<Rightarrow> string" where
  "peerScopeName p = ''peer:'' @ p"

definition PeerStrInScopeName :: "string \<Rightarrow> string" where
  "PeerStrInScopeName name =
    (if \<not> hasPrefix name ''peer:'' \<or> IsSpan name then []
     else case strIndex name ''peer:'' of None \<Rightarrow> [] | Some i \<Rightarrow> drop (i + 5) name)"

definition ParseProtocolScopeName :: "string \<Rightarrow> string" where
  "ParseProtocolScopeName name =
    (if hasPrefix name ''protocol:'' \<and> \<not> IsSpan name then
       if strContains name ''peer:'' then []
       else case strIndex name '':'' of None \<Rightarrow> [] | Some i \<Rightarrow> drop (i + 1) name
     else [])"

section \<open>Creating scopes\<close>

definition newSystemScope :: "store \<Rightarrow> BaseLimit \<Rightarrow> string \<Rightarrow> (sid \<times> store) option" where
  "newSystemScope st lim name = newResourceScope st lim [] name"

definition newTransientScope :: "store \<Rightarrow> BaseLimit \<Rightarrow> string \<Rightarrow> sid \<Rightarrow> (sid \<times> store) option" where
  "newTransientScope st lim name systemScope = newResourceScope st lim [systemScope] name"

definition newServiceScope :: "resourceManager \<Rightarrow> string \<Rightarrow> (sid \<times> resourceManager) option" where
  "newServiceScope r service = do {
     (s, st) \<leftarrow> newResourceScope (rmStore r) (GetServiceLimits (rmLimits r) service) [rmSystem r]
                 (''service:'' @ service);
     Some (s, r\<lparr>rmStore := st,
       rmServices := (rmServices r)(s \<mapsto> \<lparr>svcService = service, svcPeers = Map.empty\<rparr>)\<rparr>) }"

definition newProtocolScope :: "resourceManager \<Rightarrow> protocolID \<Rightarrow> (sid \<times> resourceManager) option" where
  "newProtocolScope r proto = do {
     (s, st) \<leftarrow> newResourceScope (rmStore r) (GetProtocolLimits (rmLimits r) proto) [rmSystem r]
                 (''protocol:'' @ proto);
     Some (s, r\<lparr>rmStore := st,
       rmProtocols := (rmProtocols r)(s \<mapsto> \<lparr>protoProto = proto, protoPeers = Map.empty\<rparr>)\<rparr>) }"

definition newPeerScope :: "resourceManager \<Rightarrow> peerID \<Rightarrow> (sid \<times> resourceManager) option" where
  "newPeerScope r p = do {
     (s, st) \<leftarrow> newResourceScope (rmStore r) (GetPeerLimits (rmLimits r) p) [rmSystem r]
                 (peerScopeName p);
     Some (s, r\<lparr>rmStore := st, rmPeers := (rmPeers r)(s \<mapsto> p)\<rparr>) }"

definition nextConnId :: "resourceManager \<Rightarrow> int \<times> resourceManager" where
  "nextConnId r = (add64 (rmConnId r) 1, r\<lparr>rmConnId := add64 (rmConnId r) 1\<rparr>)"

definition nextStreamId :: "resourceManager \<Rightarrow> int \<times> resourceManager" where
  "nextStreamId r = (add64 (rmStreamId r) 1, r\<lparr>rmStreamId := add64 (rmStreamId r) 1\<rparr>)"

definition newConnectionScope ::
  "resourceManager \<Rightarrow> Direction \<Rightarrow> bool \<Rightarrow> maddr \<Rightarrow> Addr \<Rightarrow> (sid \<times> resourceManager) option"
where
  "newConnectionScope r0 dir usefd endpoint ip =
    (let (n, r) = nextConnId r0 in do {
       (s, st) \<leftarrow> newResourceScope (rmStore r) (GetConnLimits (rmLimits r))
                   [rmTransient r, rmSystem r] (connScopeName n);
       Some (s, r\<lparr>rmStore := st, rmConns := (rmConns r)(s \<mapsto>
         \<lparr>cDir = dir, cUsefd = usefd, cIsAllowlisted = False, cPeer = None, cEndpoint = endpoint,
          cIP = ip\<rparr>)\<rparr>) })"

definition newAllowListedConnectionScope ::
  "resourceManager \<Rightarrow> Direction \<Rightarrow> bool \<Rightarrow> maddr \<Rightarrow> (sid \<times> resourceManager) option"
where
  "newAllowListedConnectionScope r0 dir usefd endpoint =
    (let (n, r) = nextConnId r0 in do {
       (s, st) \<leftarrow> newResourceScope (rmStore r) (GetConnLimits (rmLimits r))
                   [rmAllowlistedTransient r, rmAllowlistedSystem r] (connScopeName n);
       Some (s, r\<lparr>rmStore := st, rmConns := (rmConns r)(s \<mapsto>
         \<lparr>cDir = dir, cUsefd = usefd, cIsAllowlisted = True, cPeer = None, cEndpoint = endpoint,
          cIP = AddrZero\<rparr>)\<rparr>) })"

definition newStreamScope ::
  "resourceManager \<Rightarrow> Direction \<Rightarrow> peerID \<Rightarrow> sid \<Rightarrow> (sid \<times> resourceManager) option"
where
  "newStreamScope r0 dir p peer =
    (let (n, r) = nextStreamId r0 in do {
       (s, st) \<leftarrow> newResourceScope (rmStore r) (GetStreamLimits (rmLimits r) p)
                   [peer, rmTransient r, rmSystem r] (streamScopeName n);
       Some (s, r\<lparr>rmStore := st, rmStreams := (rmStreams r)(s \<mapsto>
         \<lparr>sDir = dir, sPeer = peer, sSvc = None, sProto = None, sPeerProtoScope = None,
          sPeerSvcScope = None\<rparr>)\<rparr>) })"

section \<open>The shared scopes\<close>

definition rm_IncRef :: "resourceManager \<Rightarrow> sid \<Rightarrow> resourceManager option" where
  "rm_IncRef r s = do { st \<leftarrow> IncRef (rmStore r) s; Some (r\<lparr>rmStore := st\<rparr>) }"

definition rm_DecRef :: "resourceManager \<Rightarrow> sid \<Rightarrow> resourceManager option" where
  "rm_DecRef r s = do { st \<leftarrow> DecRef (rmStore r) s; Some (r\<lparr>rmStore := st\<rparr>) }"

definition getServiceScope :: "resourceManager \<Rightarrow> string \<Rightarrow> (sid \<times> resourceManager) option" where
  "getServiceScope r svc = do {
     (s, r1) \<leftarrow> (case rmSvc r svc of
         Some s \<Rightarrow> Some (s, r)
       | None \<Rightarrow> do { (s, r') \<leftarrow> newServiceScope r svc; Some (s, r'\<lparr>rmSvc := (rmSvc r')(svc \<mapsto> s)\<rparr>) });
     r2 \<leftarrow> rm_IncRef r1 s;
     Some (s, r2) }"

definition getProtocolScope :: "resourceManager \<Rightarrow> protocolID \<Rightarrow> (sid \<times> resourceManager) option" where
  "getProtocolScope r proto = do {
     (s, r1) \<leftarrow> (case rmProto r proto of
         Some s \<Rightarrow> Some (s, r)
       | None \<Rightarrow> do {
           (s, r') \<leftarrow> newProtocolScope r proto; Some (s, r'\<lparr>rmProto := (rmProto r')(proto \<mapsto> s)\<rparr>) });
     r2 \<leftarrow> rm_IncRef r1 s;
     Some (s, r2) }"

definition getPeerScope :: "resourceManager \<Rightarrow> peerID \<Rightarrow> (sid \<times> resourceManager) option" where
  "getPeerScope r p = do {
     (s, r1) \<leftarrow> (case rmPeer r p of
         Some s \<Rightarrow> Some (s, r)
       | None \<Rightarrow> do { (s, r') \<leftarrow> newPeerScope r p; Some (s, r'\<lparr>rmPeer := (rmPeer r')(p \<mapsto> s)\<rparr>) });
     r2 \<leftarrow> rm_IncRef r1 s;
     Some (s, r2) }"

definition setStickyProtocol :: "resourceManager \<Rightarrow> protocolID \<Rightarrow> resourceManager" where
  "setStickyProtocol r proto = r\<lparr>rmStickyProto := insert proto (rmStickyProto r)\<rparr>"

definition setStickyPeer :: "resourceManager \<Rightarrow> peerID \<Rightarrow> resourceManager" where
  "setStickyPeer r p = r\<lparr>rmStickyPeer := insert p (rmStickyPeer r)\<rparr>"

text \<open>\<open>getPeerScope\<close> of a service and of a protocol: scopes without edges.\<close>

definition service_getPeerScope ::
  "resourceManager \<Rightarrow> sid \<Rightarrow> peerID \<Rightarrow> (sid \<times> resourceManager) option"
where
  "service_getPeerScope r s p = do {
     sv \<leftarrow> rmServices r s;
     case svcPeers sv p of
       Some ps \<Rightarrow> do { r' \<leftarrow> rm_IncRef r ps; Some (ps, r') }
     | None \<Rightarrow> do {
         sc \<leftarrow> scope_at (rmStore r) s;
         (ps, st) \<leftarrow> newResourceScope (rmStore r) (GetServicePeerLimits (rmLimits r) (svcService sv)) []
                     (scName sc @ ''.peer:'' @ p);
         r' \<leftarrow> rm_IncRef (r\<lparr>rmStore := st,
           rmServices := (rmServices r)(s \<mapsto> sv\<lparr>svcPeers := (svcPeers sv)(p \<mapsto> ps)\<rparr>)\<rparr>) ps;
         Some (ps, r') } }"

definition protocol_getPeerScope ::
  "resourceManager \<Rightarrow> sid \<Rightarrow> peerID \<Rightarrow> (sid \<times> resourceManager) option"
where
  "protocol_getPeerScope r s p = do {
     pr \<leftarrow> rmProtocols r s;
     case protoPeers pr p of
       Some ps \<Rightarrow> do { r' \<leftarrow> rm_IncRef r ps; Some (ps, r') }
     | None \<Rightarrow> do {
         sc \<leftarrow> scope_at (rmStore r) s;
         (ps, st) \<leftarrow> newResourceScope (rmStore r) (GetProtocolPeerLimits (rmLimits r) (protoProto pr)) []
                     (scName sc @ ''.peer:'' @ p);
         r' \<leftarrow> rm_IncRef (r\<lparr>rmStore := st,
           rmProtocols := (rmProtocols r)(s \<mapsto> pr\<lparr>protoPeers := (protoPeers pr)(p \<mapsto> ps)\<rparr>)\<rparr>) ps;
         Some (ps, r') } }"

section \<open>The manager\<close>

text \<open>\<open>net.IPNet.String\<close> read back by \<open>netip.ParsePrefix\<close>.\<close>

definition net_prefix :: "ipnet \<Rightarrow> Prefix option" where
  "net_prefix n = (case To4 (netIP n) of
      Some a \<Rightarrow> Some \<lparr>pfxAddr = Addr4 a,
        pfxBits = int (if maskBits n = 32 then maskOnes n else maskOnes n - 96)\<rparr>
    | None \<Rightarrow> (case netIP n of
        IP16 a \<Rightarrow> if maskBits n = 128
          then Some \<lparr>pfxAddr = Addr6 a [], pfxBits = int (maskOnes n)\<rparr> else None
      | IP4 a \<Rightarrow> None))"

text \<open>The loop that gives each allowlisted network a limit of its own; \<open>registered\<close> are the
  prefixes that had one before.\<close>

fun register_allowlist ::
  "Prefix set \<Rightarrow> int \<Rightarrow> ipnet list \<Rightarrow> connLimiter \<Rightarrow> connLimiter"
where
  "register_allowlist registered n [] cl = cl"
| "register_allowlist registered n (net # nets) cl =
    (case net_prefix net of
       None \<Rightarrow> register_allowlist registered n nets cl
     | Some prefix \<Rightarrow> register_allowlist registered n nets
         (if prefix \<in> registered then cl
          else addNetworkPrefixLimit cl (Is6 (pfxAddr prefix))
                 \<lparr>Network = prefix, PrefixConnCount = n\<rparr>))"

type_synonym rm_option = "connLimiter \<times> Allowlist \<Rightarrow> allow_error + (connLimiter \<times> Allowlist)"

fun apply_options ::
  "rm_option list \<Rightarrow> connLimiter \<times> Allowlist \<Rightarrow> allow_error + (connLimiter \<times> Allowlist)"
where
  "apply_options [] c = Inr c"
| "apply_options (opt # opts) c = (case opt c of Inl e \<Rightarrow> Inl e | Inr c' \<Rightarrow> apply_options opts c')"

definition initial_scopes :: "fixedLimiter \<Rightarrow> ((sid \<times> sid \<times> sid \<times> sid) \<times> store) option" where
  "initial_scopes limits = do {
     (sys, st1) \<leftarrow> newSystemScope [] (GetSystemLimits limits) ''system'';
     st2 \<leftarrow> IncRef st1 sys;
     (tr, st3) \<leftarrow> newTransientScope st2 (GetTransientLimits limits) ''transient'' sys;
     st4 \<leftarrow> IncRef st3 tr;
     (asys, st5) \<leftarrow> newSystemScope st4 (GetAllowlistedSystemLimits limits) ''allowlistedSystem'';
     st6 \<leftarrow> IncRef st5 asys;
     (atr, st7) \<leftarrow> newTransientScope st6 (GetAllowlistedTransientLimits limits) ''allowlistedTransient'' asys;
     st8 \<leftarrow> IncRef st7 atr;
     Some ((sys, tr, asys, atr), st8) }"

definition NewResourceManager ::
  "fixedLimiter \<Rightarrow> rm_option list \<Rightarrow> (allow_error + resourceManager) option"
where
  "NewResourceManager limits opts =
    (case apply_options opts (newConnLimiter, newAllowlist) of
       Inl e \<Rightarrow> Some (Inl e)
     | Inr (cl, al) \<Rightarrow>
        (let registered = set (map Network (networkPrefixLimitV4 cl) @ map Network (networkPrefixLimitV6 cl));
             cl' = register_allowlist registered (GetConnTotalLimit (GetAllowlistedSystemLimits limits))
                     (allowedNetworks al) cl
         in do {
           ((sys, tr, asys, atr), st) \<leftarrow> initial_scopes limits;
           Some (Inr \<lparr>rmLimits = limits, rmConnLimiter = cl', rmAllowlist = al, rmStore = st,
             rmSystem = sys, rmTransient = tr, rmAllowlistedSystem = asys,
             rmAllowlistedTransient = atr, rmSvc = Map.empty, rmProto = Map.empty,
             rmPeer = Map.empty, rmStickyProto = {}, rmStickyPeer = {}, rmConnId = 0, rmStreamId = 0,
             rmServices = Map.empty, rmProtocols = Map.empty, rmPeers = Map.empty,
             rmConns = Map.empty, rmStreams = Map.empty\<rparr>) }))"

text \<open>The \<open>View\<close> functions run a function of the caller on a scope.\<close>

definition ViewSystem ::
  "resourceManager \<Rightarrow> (sid \<Rightarrow> resourceManager \<Rightarrow> ('e \<times> resourceManager) option) \<Rightarrow> ('e \<times> resourceManager) option"
where
  "ViewSystem r f = f (rmSystem r) r"

definition ViewTransient ::
  "resourceManager \<Rightarrow> (sid \<Rightarrow> resourceManager \<Rightarrow> ('e \<times> resourceManager) option) \<Rightarrow> ('e \<times> resourceManager) option"
where
  "ViewTransient r f = f (rmTransient r) r"

definition ViewService ::
  "resourceManager \<Rightarrow> string \<Rightarrow> (sid \<Rightarrow> resourceManager \<Rightarrow> ('e \<times> resourceManager) option)
     \<Rightarrow> ('e \<times> resourceManager) option"
where
  "ViewService r svc f = do {
     (s, r1) \<leftarrow> getServiceScope r svc; (e, r2) \<leftarrow> f s r1; r3 \<leftarrow> rm_DecRef r2 s; Some (e, r3) }"

definition ViewProtocol ::
  "resourceManager \<Rightarrow> protocolID \<Rightarrow> (sid \<Rightarrow> resourceManager \<Rightarrow> ('e \<times> resourceManager) option)
     \<Rightarrow> ('e \<times> resourceManager) option"
where
  "ViewProtocol r proto f = do {
     (s, r1) \<leftarrow> getProtocolScope r proto; (e, r2) \<leftarrow> f s r1; r3 \<leftarrow> rm_DecRef r2 s; Some (e, r3) }"

definition ViewPeer ::
  "resourceManager \<Rightarrow> peerID \<Rightarrow> (sid \<Rightarrow> resourceManager \<Rightarrow> ('e \<times> resourceManager) option)
     \<Rightarrow> ('e \<times> resourceManager) option"
where
  "ViewPeer r p f = do {
     (s, r1) \<leftarrow> getPeerScope r p; (e, r2) \<leftarrow> f s r1; r3 \<leftarrow> rm_DecRef r2 s; Some (e, r3) }"

section \<open>Connections and streams\<close>

definition rm_Done :: "resourceManager \<Rightarrow> sid \<Rightarrow> resourceManager option" where
  "rm_Done r s = do { st \<leftarrow> Done (rmStore r) s; Some (r\<lparr>rmStore := st\<rparr>) }"

definition IsValid :: "Addr \<Rightarrow> bool" where
  "IsValid ip = (ip \<noteq> AddrZero)"

definition connectionScope_Done :: "resourceManager \<Rightarrow> sid \<Rightarrow> resourceManager option" where
  "connectionScope_Done r c = do {
     s \<leftarrow> scope_at (rmStore r) c;
     cs \<leftarrow> rmConns r c;
     if scDone s then Some r
     else do {
       r1 \<leftarrow> (if IsValid (cIP cs) then do {
                 cl \<leftarrow> cl_rmConn (rmConnLimiter r) (cIP cs); Some (r\<lparr>rmConnLimiter := cl\<rparr>) }
             else Some r);
       st \<leftarrow> doneUnlocked (rmStore r1) c;
       Some (r1\<lparr>rmStore := st\<rparr>) } }"

definition openConnection ::
  "resourceManager \<Rightarrow> Direction \<Rightarrow> bool \<Rightarrow> maddr \<Rightarrow> Addr \<Rightarrow> ((rm_error + sid) \<times> resourceManager) option"
where
  "openConnection r dir usefd endpoint ip = do {
     (ok, r1) \<leftarrow> (if IsValid ip then do {
                    (ok, cl) \<leftarrow> cl_addConn (rmConnLimiter r) ip; Some (ok, r\<lparr>rmConnLimiter := cl\<rparr>) }
                  else Some (True, r));
     if \<not> ok then Some (Inl ErrTooManyConnsFromIP, r1)
     else do {
       (c, r2) \<leftarrow> newConnectionScope r1 dir usefd endpoint ip;
       (err, st) \<leftarrow> AddConn (rmStore r2) c dir usefd;
       let r3 = r2\<lparr>rmStore := st\<rparr>;
       (err, c, r4) \<leftarrow>
         (if err \<noteq> None \<and> IsValid ip \<and> Allowed (rmAllowlist r3) endpoint then do {
            r5 \<leftarrow> connectionScope_Done r3 c;
            (c', r6) \<leftarrow> newAllowListedConnectionScope r5 dir usefd endpoint;
            (err', st') \<leftarrow> AddConn (rmStore r6) c' dir usefd;
            Some (err', c', r6\<lparr>rmStore := st'\<rparr>) }
          else Some (err, c, r3));
       case err of
         Some e \<Rightarrow> do { r7 \<leftarrow> connectionScope_Done r4 c; Some (Inl (ErrScope e), r7) }
       | None \<Rightarrow> Some (Inr c, r4) } }"

definition OpenConnectionNoIP ::
  "resourceManager \<Rightarrow> Direction \<Rightarrow> bool \<Rightarrow> maddr \<Rightarrow> ((rm_error + sid) \<times> resourceManager) option"
where
  "OpenConnectionNoIP r dir usefd endpoint = openConnection r dir usefd endpoint AddrZero"

text \<open>\<open>netip.AddrFromSlice\<close> takes the four or sixteen bytes of an IP as they are.\<close>

definition AddrFromSlice :: "IP \<Rightarrow> Addr" where
  "AddrFromSlice ip = (case ip of IP4 a \<Rightarrow> Addr4 a | IP16 a \<Rightarrow> Addr6 a [])"

definition OpenConnection ::
  "resourceManager \<Rightarrow> Direction \<Rightarrow> bool \<Rightarrow> maddr \<Rightarrow> ((rm_error + sid) \<times> resourceManager) option"
where
  "OpenConnection r dir usefd endpoint = (case ToIP endpoint of
      None \<Rightarrow> openConnection r dir usefd endpoint AddrZero
    | Some ip \<Rightarrow> openConnection r dir usefd endpoint (AddrFromSlice ip))"

definition OpenStream ::
  "resourceManager \<Rightarrow> peerID \<Rightarrow> Direction \<Rightarrow> ((rm_error + sid) \<times> resourceManager) option"
where
  "OpenStream r p dir = do {
     (peer, r1) \<leftarrow> getPeerScope r p;
     (s, r2) \<leftarrow> newStreamScope r1 dir p peer;
     r3 \<leftarrow> rm_DecRef r2 peer;
     (err, st) \<leftarrow> AddStream (rmStore r3) s dir;
     let r4 = r3\<lparr>rmStore := st\<rparr>;
     case err of
       Some e \<Rightarrow> do { r5 \<leftarrow> rm_Done r4 s; Some (Inl (ErrScope e), r5) }
     | None \<Rightarrow> Some (Inr s, r4) }"

section \<open>Moving a connection or stream to its peer, protocol and service\<close>

definition rm_ReserveForChild ::
  "resourceManager \<Rightarrow> sid \<Rightarrow> ScopeStat \<Rightarrow> (rcmgr_error option \<times> resourceManager) option"
where
  "rm_ReserveForChild r s q = do {
     (e, st) \<leftarrow> ReserveForChild (rmStore r) s q; Some (e, r\<lparr>rmStore := st\<rparr>) }"

definition rm_ReleaseForChild :: "resourceManager \<Rightarrow> sid \<Rightarrow> ScopeStat \<Rightarrow> resourceManager option" where
  "rm_ReleaseForChild r s q = do {
     st \<leftarrow> ReleaseForChild (rmStore r) s q; Some (r\<lparr>rmStore := st\<rparr>) }"

definition set_edges :: "resourceManager \<Rightarrow> sid \<Rightarrow> sid list \<Rightarrow> resourceManager option" where
  "set_edges r i es = do {
     s \<leftarrow> scope_at (rmStore r) i; Some (r\<lparr>rmStore := (rmStore r)[i := s\<lparr>scEdges := es\<rparr>]\<rparr>) }"

definition transferAllowedToStandard ::
  "resourceManager \<Rightarrow> sid \<Rightarrow> (rcmgr_error option \<times> resourceManager) option"
where
  "transferAllowedToStandard r c = do {
     sc \<leftarrow> scope_at (rmStore r) c;
     let q = stat (scRC sc);
     r1 \<leftarrow> forEach (\<lambda>r e. do { r' \<leftarrow> rm_ReleaseForChild r e q; rm_DecRef r' e }) r (scEdges sc);
     r2 \<leftarrow> set_edges r1 c [];
     (err, r3) \<leftarrow> rm_ReserveForChild r2 (rmSystem r) q;
     case err of
       Some e \<Rightarrow> Some (Some e, r3)
     | None \<Rightarrow> do {
         r4 \<leftarrow> rm_IncRef r3 (rmSystem r);
         (err', r5) \<leftarrow> rm_ReserveForChild r4 (rmTransient r) q;
         case err' of
           Some e \<Rightarrow> do {
             r6 \<leftarrow> rm_ReleaseForChild r5 (rmSystem r) q;
             r7 \<leftarrow> rm_DecRef r6 (rmSystem r);
             Some (Some e, r7) }
         | None \<Rightarrow> do {
             r6 \<leftarrow> rm_IncRef r5 (rmTransient r);
             r7 \<leftarrow> set_edges r6 c [rmSystem r, rmTransient r];
             Some (None, r7) } } }"

text \<open>The part of \<open>SetPeer\<close> after the scopes to move between are chosen.\<close>

definition move_to_peer ::
  "resourceManager \<Rightarrow> sid \<Rightarrow> peerID \<Rightarrow> sid \<Rightarrow> sid \<Rightarrow> (rm_error option \<times> resourceManager) option"
where
  "move_to_peer r c p sys tr = do {
     (peer, r1) \<leftarrow> getPeerScope r p;
     sc \<leftarrow> scope_at (rmStore r1) c;
     cs \<leftarrow> rmConns r1 c;
     let q = stat (scRC sc);
     (err, r2) \<leftarrow> rm_ReserveForChild r1 peer q;
     case err of
       Some e \<Rightarrow> do { r3 \<leftarrow> rm_DecRef r2 peer; Some (Some (ErrScope e), r3) }
     | None \<Rightarrow> do {
         r3 \<leftarrow> rm_ReleaseForChild r2 tr q;
         r4 \<leftarrow> rm_DecRef r3 tr;
         r5 \<leftarrow> set_edges r4 c [peer, sys];
         Some (None, r5\<lparr>rmConns := (rmConns r5)(c \<mapsto> cs\<lparr>cPeer := Some peer\<rparr>)\<rparr>) } }"

definition SetPeer ::
  "resourceManager \<Rightarrow> sid \<Rightarrow> peerID \<Rightarrow> (rm_error option \<times> resourceManager) option"
where
  "SetPeer r c p = do {
     cs \<leftarrow> rmConns r c;
     if cPeer cs \<noteq> None then Some (Some ErrPeerAlreadySet, r)
     else if \<not> cIsAllowlisted cs then move_to_peer r c p (rmSystem r) (rmTransient r)
     else if AllowedPeerAndMultiaddr (rmAllowlist r) p (cEndpoint cs) then
       move_to_peer r c p (rmAllowlistedSystem r) (rmAllowlistedTransient r)
     else do {
       (err, r1) \<leftarrow> transferAllowedToStandard
         (r\<lparr>rmConns := (rmConns r)(c \<mapsto> cs\<lparr>cIsAllowlisted := False\<rparr>)\<rparr>) c;
       case err of
         Some e \<Rightarrow> Some (Some (ErrScope e), r1)
       | None \<Rightarrow> move_to_peer r1 c p (rmSystem r1) (rmTransient r1) } }"

definition SetProtocol ::
  "resourceManager \<Rightarrow> sid \<Rightarrow> protocolID \<Rightarrow> (rm_error option \<times> resourceManager) option"
where
  "SetProtocol r s proto = do {
     ss \<leftarrow> rmStreams r s;
     if sProto ss \<noteq> None then Some (Some ErrProtocolAlreadySet, r)
     else do {
       (pr, r1) \<leftarrow> getProtocolScope r proto;
       sc \<leftarrow> scope_at (rmStore r1) s;
       let q = stat (scRC sc);
       (err, r2) \<leftarrow> rm_ReserveForChild r1 pr q;
       case err of
         Some e \<Rightarrow> do { r3 \<leftarrow> rm_DecRef r2 pr; Some (Some (ErrScope e), r3) }
       | None \<Rightarrow> do {
           p \<leftarrow> rmPeers r2 (sPeer ss);
           (ps, r3) \<leftarrow> protocol_getPeerScope r2 pr p;
           (err', r4) \<leftarrow> rm_ReserveForChild r3 ps q;
           case err' of
             Some e \<Rightarrow> do {
               r5 \<leftarrow> rm_ReleaseForChild r4 pr q;
               r6 \<leftarrow> rm_DecRef r5 pr;
               r7 \<leftarrow> rm_DecRef r6 ps;
               Some (Some (ErrScope e), r7) }
           | None \<Rightarrow> do {
               r5 \<leftarrow> rm_ReleaseForChild r4 (rmTransient r) q;
               r6 \<leftarrow> rm_DecRef r5 (rmTransient r);
               r7 \<leftarrow> set_edges r6 s [sPeer ss, ps, pr, rmSystem r];
               Some (None, r7\<lparr>rmStreams := (rmStreams r7)
                 (s \<mapsto> ss\<lparr>sProto := Some pr, sPeerProtoScope := Some ps\<rparr>)\<rparr>) } } } }"

definition SetService ::
  "resourceManager \<Rightarrow> sid \<Rightarrow> string \<Rightarrow> (rm_error option \<times> resourceManager) option"
where
  "SetService r s svc = do {
     ss \<leftarrow> rmStreams r s;
     if sSvc ss \<noteq> None then Some (Some ErrServiceAlreadySet, r)
     else case sProto ss of
       None \<Rightarrow> Some (Some ErrNoProtocol, r)
     | Some pr \<Rightarrow> do {
       (sv, r1) \<leftarrow> getServiceScope r svc;
       sc \<leftarrow> scope_at (rmStore r1) s;
       let q = stat (scRC sc);
       (err, r2) \<leftarrow> rm_ReserveForChild r1 sv q;
       case err of
         Some e \<Rightarrow> do { r3 \<leftarrow> rm_DecRef r2 sv; Some (Some (ErrScope e), r3) }
       | None \<Rightarrow> do {
           p \<leftarrow> rmPeers r2 (sPeer ss);
           (ps, r3) \<leftarrow> service_getPeerScope r2 sv p;
           (err', r4) \<leftarrow> rm_ReserveForChild r3 ps q;
           case err' of
             Some e \<Rightarrow> do {
               r5 \<leftarrow> rm_ReleaseForChild r4 sv q;
               r6 \<leftarrow> rm_DecRef r5 sv;
               r7 \<leftarrow> rm_DecRef r6 ps;
               Some (Some (ErrScope e), r7) }
           | None \<Rightarrow> do {
               pps \<leftarrow> sPeerProtoScope ss;
               r5 \<leftarrow> set_edges r4 s [sPeer ss, pps, ps, pr, sv, rmSystem r];
               Some (None, r5\<lparr>rmStreams := (rmStreams r5)
                 (s \<mapsto> ss\<lparr>sSvc := Some sv, sPeerSvcScope := Some ps\<rparr>)\<rparr>) } } } }"

section \<open>Garbage collection\<close>

text \<open>A range over a Go map visits the keys in some order, which is an argument here.\<close>

definition gc_proto :: "resourceManager \<Rightarrow> protocolID \<Rightarrow> resourceManager option" where
  "gc_proto r proto = (case rmProto r proto of
      None \<Rightarrow> Some r
    | Some s \<Rightarrow>
        if proto \<in> rmStickyProto r then Some r
        else do {
          unused \<leftarrow> IsUnused (rmStore r) s;
          if unused then do {
            r' \<leftarrow> rm_Done r s; Some (r'\<lparr>rmProto := (rmProto r')(proto := None)\<rparr>) }
          else Some r })"

definition gc_peer ::
  "resourceManager \<times> peerID list \<Rightarrow> peerID \<Rightarrow> (resourceManager \<times> peerID list) option"
where
  "gc_peer rd p = (case rd of (r, dead) \<Rightarrow>
     (case rmPeer r p of
        None \<Rightarrow> Some (r, dead)
      | Some s \<Rightarrow>
          if p \<in> rmStickyPeer r then Some (r, dead)
          else do {
            unused \<leftarrow> IsUnused (rmStore r) s;
            if unused then do {
              r' \<leftarrow> rm_Done r s; Some (r'\<lparr>rmPeer := (rmPeer r')(p := None)\<rparr>, dead @ [p]) }
            else Some (r, dead) }))"

definition gc_service_peer :: "sid \<Rightarrow> resourceManager \<Rightarrow> peerID \<Rightarrow> resourceManager option" where
  "gc_service_peer s r p = do {
     sv \<leftarrow> rmServices r s;
     case svcPeers sv p of
       None \<Rightarrow> Some r
     | Some ps \<Rightarrow> do {
         r' \<leftarrow> rm_Done r ps;
         Some (r'\<lparr>rmServices := (rmServices r')(s \<mapsto> sv\<lparr>svcPeers := (svcPeers sv)(p := None)\<rparr>)\<rparr>) } }"

definition gc_protocol_peer :: "sid \<Rightarrow> resourceManager \<Rightarrow> peerID \<Rightarrow> resourceManager option" where
  "gc_protocol_peer s r p = do {
     pr \<leftarrow> rmProtocols r s;
     case protoPeers pr p of
       None \<Rightarrow> Some r
     | Some ps \<Rightarrow> do {
         r' \<leftarrow> rm_Done r ps;
         Some (r'\<lparr>rmProtocols :=
           (rmProtocols r')(s \<mapsto> pr\<lparr>protoPeers := (protoPeers pr)(p := None)\<rparr>)\<rparr>) } }"

definition gc ::
  "protocolID list \<Rightarrow> peerID list \<Rightarrow> string list \<Rightarrow> protocolID list \<Rightarrow> resourceManager
     \<Rightarrow> resourceManager option"
where
  "gc protos peers svcs protos' r = do {
     r1 \<leftarrow> forEach gc_proto r protos;
     (r2, deadPeers) \<leftarrow> forEach gc_peer (r1, []) peers;
     r3 \<leftarrow> forEach (\<lambda>r svc. case rmSvc r svc of
              None \<Rightarrow> Some r | Some s \<Rightarrow> forEach (gc_service_peer s) r deadPeers) r2 svcs;
     forEach (\<lambda>r proto. case rmProto r proto of
              None \<Rightarrow> Some r | Some s \<Rightarrow> forEach (gc_protocol_peer s) r deadPeers) r3 protos' }"

end
