(* ===== verification/Manager_Inv.thy ===== *)
theory Manager_Inv
  imports Graph_Steps Manager
begin

text \<open>
  The invariant of the resource manager.  Every scope of the store has a kind, which says where
  the manager keeps it, what its edges are and which scopes may have it as an edge.  The kinds
  are a ghost of the proof; the shape they describe is a property of the skeleton of the store and
  the maps of the manager, and each step of the manager changes it in one place.
\<close>

section \<open>Kinds and shapes\<close>

datatype kind = KFixed | KPeer peerID | KProto protocolID | KService string | KSub sid peerID
  | KConn | KStream | KSpan

type_synonym kinds = "sid \<Rightarrow> kind"

type_synonym skeleton = "(bool \<times> sid option \<times> sid list) list"

definition dn :: "skeleton \<Rightarrow> sid \<Rightarrow> bool" where
  "dn ks s = fst (ks ! s)"

definition ow :: "skeleton \<Rightarrow> sid \<Rightarrow> sid option" where
  "ow ks s = fst (snd (ks ! s))"

definition ed :: "skeleton \<Rightarrow> sid \<Rightarrow> sid list" where
  "ed ks s = snd (snd (ks ! s))"

definition kind_at :: "kinds \<Rightarrow> skeleton \<Rightarrow> sid \<Rightarrow> kind \<Rightarrow> bool" where
  "kind_at K ks s k \<longleftrightarrow> s < length ks \<and> K s = k"

text \<open>The scopes a manager has from the start.\<close>

record fixed_ids =
  fSys :: sid
  fTr :: sid
  fASys :: sid
  fATr :: sid

definition ids :: "resourceManager \<Rightarrow> fixed_ids" where
  "ids r = \<lparr>fSys = rmSystem r, fTr = rmTransient r, fASys = rmAllowlistedSystem r,
     fATr = rmAllowlistedTransient r\<rparr>"

lemma ids_fields [simp]: "fSys (ids r) = rmSystem r" "fTr (ids r) = rmTransient r"
  "fASys (ids r) = rmAllowlistedSystem r" "fATr (ids r) = rmAllowlistedTransient r"
  by (simp_all add: ids_def)

lemma ids_upd [simp]:
  "ids (r\<lparr>rmStore := a\<rparr>) = ids r" "ids (r\<lparr>rmConnLimiter := cl\<rparr>) = ids r"
  "ids (r\<lparr>rmSvc := ms\<rparr>) = ids r" "ids (r\<lparr>rmProto := mp\<rparr>) = ids r" "ids (r\<lparr>rmPeer := mr\<rparr>) = ids r"
  "ids (r\<lparr>rmServices := sv\<rparr>) = ids r" "ids (r\<lparr>rmProtocols := ps\<rparr>) = ids r"
  "ids (r\<lparr>rmPeers := rs\<rparr>) = ids r" "ids (r\<lparr>rmConns := cs\<rparr>) = ids r"
  "ids (r\<lparr>rmStreams := ss\<rparr>) = ids r" "ids (r\<lparr>rmConnId := n\<rparr>) = ids r"
  "ids (r\<lparr>rmStreamId := n\<rparr>) = ids r"
  by (simp_all add: ids_def)

definition fixed_scopes :: "fixed_ids \<Rightarrow> sid list" where
  "fixed_scopes F = [fSys F, fTr F, fASys F, fATr F]"

text \<open>The scopes a connection or stream is counted against, as its record says.\<close>

definition conn_edges :: "kinds \<Rightarrow> fixed_ids \<Rightarrow> skeleton \<Rightarrow> connectionScope \<Rightarrow> sid list \<Rightarrow> bool" where
  "conn_edges K F ks cs es \<longleftrightarrow> (case cPeer cs of
     None \<Rightarrow> es = [] \<or> set es = (if cIsAllowlisted cs then {fASys F, fATr F} else {fSys F, fTr F})
   | Some pr \<Rightarrow> (\<exists>p. kind_at K ks pr (KPeer p)) \<and> (es = [pr, fSys F] \<or> es = [pr, fASys F]))"

definition stream_edges :: "kinds \<Rightarrow> fixed_ids \<Rightarrow> skeleton \<Rightarrow> streamScope \<Rightarrow> sid list \<Rightarrow> bool" where
  "stream_edges K F ks ss es \<longleftrightarrow> (\<exists>p. kind_at K ks (sPeer ss) (KPeer p) \<and> (case sProto ss of
     None \<Rightarrow> sSvc ss = None \<and> es = [sPeer ss, fTr F, fSys F]
   | Some pr \<Rightarrow> (\<exists>q pps. kind_at K ks pr (KProto q) \<and> sPeerProtoScope ss = Some pps \<and>
       kind_at K ks pps (KSub pr p) \<and> (case sSvc ss of
         None \<Rightarrow> es = [sPeer ss, pps, pr, fSys F]
       | Some sv \<Rightarrow> (\<exists>v sps. kind_at K ks sv (KService v) \<and> kind_at K ks sps (KSub sv p) \<and>
           es = [sPeer ss, pps, sps, pr, sv, fSys F])))))"

definition subs_ok :: "kinds \<Rightarrow> skeleton \<Rightarrow> sid \<Rightarrow> (peerID \<rightharpoonup> sid) \<Rightarrow> bool" where
  "subs_ok K ks s m \<longleftrightarrow> (\<forall>p ps. m p = Some ps \<longrightarrow> kind_at K ks ps (KSub s p) \<and> \<not> dn ks ps)"

definition fixed_shape :: "kinds \<Rightarrow> fixed_ids \<Rightarrow> skeleton \<Rightarrow> bool" where
  "fixed_shape K F ks \<longleftrightarrow> distinct (fixed_scopes F) \<and>
     (\<forall>s. kind_at K ks s KFixed \<longleftrightarrow> s \<in> set (fixed_scopes F)) \<and> (\<forall>s \<in> set (fixed_scopes F). \<not> dn ks s) \<and>
     ed ks (fSys F) = [] \<and> ed ks (fTr F) = [fSys F] \<and>
     ed ks (fASys F) = [] \<and> ed ks (fATr F) = [fASys F]"

definition root_shape :: "kinds \<Rightarrow> skeleton \<Rightarrow> bool" where
  "root_shape K ks \<longleftrightarrow> (\<forall>s < length ks. K s = KSpan \<longleftrightarrow> ow ks s \<noteq> None)"

definition peer_shape ::
  "kinds \<Rightarrow> fixed_ids \<Rightarrow> (peerID \<rightharpoonup> sid) \<Rightarrow> (sid \<rightharpoonup> peerID) \<Rightarrow> skeleton \<Rightarrow> bool"
where
  "peer_shape K F peer peers ks \<longleftrightarrow>
     (\<forall>s p. kind_at K ks s (KPeer p) \<longrightarrow> ed ks s = [fSys F] \<and> peers s = Some p \<and>
        (\<not> dn ks s \<longrightarrow> peer p = Some s)) \<and>
     (\<forall>p s. peer p = Some s \<longrightarrow> kind_at K ks s (KPeer p) \<and> \<not> dn ks s)"

text \<open>Protocols and services: the shared scope, and one scope per peer below it.\<close>

definition group_shape ::
  "(string \<Rightarrow> kind) \<Rightarrow> kinds \<Rightarrow> fixed_ids \<Rightarrow> (string \<rightharpoonup> sid) \<Rightarrow> (sid \<rightharpoonup> (peerID \<rightharpoonup> sid)) \<Rightarrow> skeleton \<Rightarrow> bool"
where
  "group_shape kd K F reg subs ks \<longleftrightarrow>
     (\<forall>s q. kind_at K ks s (kd q) \<longrightarrow> ed ks s = [fSys F] \<and> (\<exists>m. subs s = Some m \<and> subs_ok K ks s m)) \<and>
     (\<forall>q s. reg q = Some s \<longrightarrow> kind_at K ks s (kd q) \<and> \<not> dn ks s)"

definition subs_of :: "('a \<Rightarrow> (peerID \<rightharpoonup> sid)) \<Rightarrow> (sid \<rightharpoonup> 'a) \<Rightarrow> (sid \<rightharpoonup> (peerID \<rightharpoonup> sid))" where
  "subs_of f m = (\<lambda>s. map_option f (m s))"

abbreviation proto_subs :: "resourceManager \<Rightarrow> sid \<rightharpoonup> (peerID \<rightharpoonup> sid)" where
  "proto_subs r \<equiv> subs_of protoPeers (rmProtocols r)"

abbreviation service_subs :: "resourceManager \<Rightarrow> sid \<rightharpoonup> (peerID \<rightharpoonup> sid)" where
  "service_subs r \<equiv> subs_of svcPeers (rmServices r)"

lemma subs_of_upd [simp]: "subs_of f (m(s \<mapsto> x)) = (subs_of f m)(s \<mapsto> f x)"
  by (rule ext) (simp add: subs_of_def)

definition sub_shape :: "kinds \<Rightarrow> skeleton \<Rightarrow> bool" where
  "sub_shape K ks \<longleftrightarrow> (\<forall>s own p. kind_at K ks s (KSub own p) \<longrightarrow> ed ks s = [])"

definition conn_shape :: "kinds \<Rightarrow> fixed_ids \<Rightarrow> (sid \<rightharpoonup> connectionScope) \<Rightarrow> skeleton \<Rightarrow> bool" where
  "conn_shape K F conns ks \<longleftrightarrow>
     (\<forall>s. kind_at K ks s KConn \<longleftrightarrow> conns s \<noteq> None) \<and>
     (\<forall>s cs. conns s = Some cs \<longrightarrow> \<not> dn ks s \<longrightarrow> conn_edges K F ks cs (ed ks s))"

definition stream_shape :: "kinds \<Rightarrow> fixed_ids \<Rightarrow> (sid \<rightharpoonup> streamScope) \<Rightarrow> skeleton \<Rightarrow> bool" where
  "stream_shape K F streams ks \<longleftrightarrow>
     (\<forall>s. kind_at K ks s KStream \<longleftrightarrow> streams s \<noteq> None) \<and>
     (\<forall>s ss. streams s = Some ss \<longrightarrow> \<not> dn ks s \<longrightarrow> stream_edges K F ks ss (ed ks s))"

definition shapes :: "kinds \<Rightarrow> resourceManager \<Rightarrow> skeleton \<Rightarrow> bool" where
  "shapes K r ks \<longleftrightarrow> fixed_shape K (ids r) ks \<and> root_shape K ks \<and>
     peer_shape K (ids r) (rmPeer r) (rmPeers r) ks \<and>
     group_shape KProto K (ids r) (rmProto r) (proto_subs r) ks \<and>
     group_shape KService K (ids r) (rmSvc r) (service_subs r) ks \<and>
     sub_shape K ks \<and> conn_shape K (ids r) (rmConns r) ks \<and> stream_shape K (ids r) (rmStreams r) ks"

lemmas shape_defs = fixed_shape_def root_shape_def peer_shape_def group_shape_def sub_shape_def
  conn_shape_def stream_shape_def

lemma peer_shapeD:
  assumes "peer_shape K F peer peers ks"
  shows "kind_at K ks s (KPeer p) \<Longrightarrow> ed ks s = [fSys F] \<and> peers s = Some p"
    "kind_at K ks s (KPeer p) \<Longrightarrow> \<not> dn ks s \<Longrightarrow> peer p = Some s"
    "peer p = Some s \<Longrightarrow> kind_at K ks s (KPeer p) \<and> \<not> dn ks s"
  using assms unfolding peer_shape_def by blast+

lemma group_shapeD:
  assumes "group_shape kd K F reg subs ks"
  shows "kind_at K ks s (kd q) \<Longrightarrow> ed ks s = [fSys F]"
    "kind_at K ks s (kd q) \<Longrightarrow> \<exists>m. subs s = Some m \<and> subs_ok K ks s m"
    "reg q = Some s \<Longrightarrow> kind_at K ks s (kd q) \<and> \<not> dn ks s"
  using assms unfolding group_shape_def by blast+

lemma conn_shapeD:
  assumes "conn_shape K F conns ks"
  shows "kind_at K ks s KConn \<longleftrightarrow> conns s \<noteq> None"
    "conns s = Some cs \<Longrightarrow> \<not> dn ks s \<Longrightarrow> conn_edges K F ks cs (ed ks s)"
  using assms unfolding conn_shape_def by blast+

lemma stream_shapeD:
  assumes "stream_shape K F streams ks"
  shows "kind_at K ks s KStream \<longleftrightarrow> streams s \<noteq> None"
    "streams s = Some ss \<Longrightarrow> \<not> dn ks s \<Longrightarrow> stream_edges K F ks ss (ed ks s)"
  using assms unfolding stream_shape_def by blast+

lemma subs_okD: "subs_ok K ks s m \<Longrightarrow> m p = Some ps \<Longrightarrow> kind_at K ks ps (KSub s p) \<and> \<not> dn ks ps"
  unfolding subs_ok_def by blast

section \<open>Skeletons\<close>

lemma skeleton_fields:
  assumes "s < length st"
  shows "dn (map skel st) s = scDone (st ! s)" "ow (map skel st) s = scOwner (st ! s)"
    "ed (map skel st) s = scEdges (st ! s)"
  using assms by (simp_all add: dn_def ow_def ed_def skel_def)

lemma skeleton_append [simp]:
  "s < length ks \<Longrightarrow> dn (ks @ [x]) s = dn ks s" "s < length ks \<Longrightarrow> ow (ks @ [x]) s = ow ks s"
  "s < length ks \<Longrightarrow> ed (ks @ [x]) s = ed ks s"
  "dn (ks @ [x]) (length ks) = fst x" "ow (ks @ [x]) (length ks) = fst (snd x)"
  "ed (ks @ [x]) (length ks) = snd (snd x)"
  by (simp_all add: dn_def ow_def ed_def nth_append)

lemma skeleton_upd [simp]:
  "i < length ks \<Longrightarrow> dn (ks[i := x]) s = (if s = i then fst x else dn ks s)"
  "i < length ks \<Longrightarrow> ow (ks[i := x]) s = (if s = i then fst (snd x) else ow ks s)"
  "i < length ks \<Longrightarrow> ed (ks[i := x]) s = (if s = i then snd (snd x) else ed ks s)"
  by (auto simp: dn_def ow_def ed_def)

lemma kind_at_upd [simp]: "kind_at K (ks[i := x]) s k = kind_at K ks s k"
  by (simp add: kind_at_def)

lemma kind_at_append:
  "kind_at (K(length ks := k)) (ks @ [x]) s k' \<longleftrightarrow> kind_at K ks s k' \<or> (s = length ks \<and> k' = k)"
  by (auto simp: kind_at_def less_Suc_eq)

lemma kind_at_unique: "kind_at K ks s k \<Longrightarrow> kind_at K ks s k' \<Longrightarrow> k = k'"
  by (simp add: kind_at_def)

lemma kind_at_range: "kind_at K ks s k \<Longrightarrow> s < length ks"
  by (simp add: kind_at_def)

text \<open>What is known of older scopes stays known when one is added.\<close>

lemma kind_at_mono: "kind_at K ks s k' \<Longrightarrow> kind_at (K(length ks := k)) (ks @ [x]) s k'"
  by (auto simp: kind_at_def)

lemma conn_edges_append:
  assumes "conn_edges K F ks cs es"
  shows "conn_edges (K(length ks := k)) F (ks @ [x]) cs es"
proof (cases "cPeer cs")
  case (Some pr)
  then show ?thesis using assms kind_at_mono [of K ks pr _ k x] by (simp add: conn_edges_def) metis
qed (use assms in \<open>simp add: conn_edges_def\<close>)

lemma stream_edges_append:
  assumes "stream_edges K F ks ss es"
  shows "stream_edges (K(length ks := k)) F (ks @ [x]) ss es"
proof -
  note mono = kind_at_mono [of K ks _ _ k x]
  obtain p where p: "kind_at K ks (sPeer ss) (KPeer p)"
    using assms by (auto simp: stream_edges_def)
  show ?thesis
  proof (cases "sProto ss")
    case None
    then show ?thesis using assms mono unfolding stream_edges_def by (metis option.simps(4))
  next
    case pr: (Some pr)
    show ?thesis
      using assms mono pr unfolding stream_edges_def
      by (cases "sSvc ss") (simp_all, (metis+))
  qed
qed

lemma subs_ok_append:
  "subs_ok K ks s m \<Longrightarrow> subs_ok (K(length ks := k)) (ks @ [x]) s m"
  unfolding subs_ok_def by (metis kind_at_mono kind_at_range skeleton_append(1))

section \<open>A new scope\<close>

lemma fixed_append:
  assumes "fixed_shape K F ks" "k \<noteq> KFixed"
  shows "fixed_shape (K(length ks := k)) F (ks @ [x])"
proof -
  have old: "s < length ks" if "s \<in> set (fixed_scopes F)" for s
    using assms(1) that kind_at_range by (fastforce simp: fixed_shape_def)
  then have "fSys F < length ks" "fTr F < length ks" "fASys F < length ks" "fATr F < length ks"
    by (auto simp: fixed_scopes_def)
  then show ?thesis
    using assms old unfolding fixed_shape_def kind_at_append by auto
qed

lemma root_append:
  "root_shape K ks \<Longrightarrow> (k = KSpan \<longleftrightarrow> fst (snd x) \<noteq> None) \<Longrightarrow> root_shape (K(length ks := k)) (ks @ [x])"
  by (auto simp: root_shape_def less_Suc_eq)

lemma peer_append:
  assumes "peer_shape K F peer peers ks" "\<And>p. k \<noteq> KPeer p"
  shows "peer_shape (K(length ks := k)) F peer peers (ks @ [x])"
  unfolding peer_shape_def kind_at_append
  using assms unfolding peer_shape_def by (metis kind_at_range skeleton_append(1,3))

lemma group_append:
  assumes "group_shape kd K F reg subs ks" "\<And>q. k \<noteq> kd q"
  shows "group_shape kd (K(length ks := k)) F reg subs (ks @ [x])"
  unfolding group_shape_def kind_at_append
  using assms unfolding group_shape_def by (metis kind_at_range skeleton_append(1,3) subs_ok_append)

lemma sub_append:
  assumes "sub_shape K ks" "\<And>own p. k = KSub own p \<Longrightarrow> snd (snd x) = []"
  shows "sub_shape (K(length ks := k)) (ks @ [x])"
  unfolding sub_shape_def kind_at_append
  using assms unfolding sub_shape_def by (metis kind_at_range skeleton_append(3,6))

lemma conn_append:
  assumes "conn_shape K F conns ks" "k \<noteq> KConn"
  shows "conn_shape (K(length ks := k)) F conns (ks @ [x])"
  unfolding conn_shape_def kind_at_append
  using assms unfolding conn_shape_def
  by (metis kind_at_range skeleton_append(1,3) conn_edges_append option.distinct(1))

lemma stream_append:
  assumes "stream_shape K F streams ks" "k \<noteq> KStream"
  shows "stream_shape (K(length ks := k)) F streams (ks @ [x])"
  unfolding stream_shape_def kind_at_append
  using assms unfolding stream_shape_def
  by (metis kind_at_range skeleton_append(1,3) stream_edges_append option.distinct(1))

lemma not_sub_append:
  assumes "sub_shape K ks" "\<And>own p. k \<noteq> KSub own p"
  shows "sub_shape (K(length ks := k)) (ks @ [x])"
  using assms by (intro sub_append) auto

lemmas shape_appends = fixed_append root_append peer_append group_append not_sub_append conn_append stream_append

text \<open>The new scope itself, registered where its kind says.\<close>

lemma new_peer_shape:
  assumes old: "peer_shape K F peer peers ks" and free: "peer p = None"
  shows "peer_shape (K(length ks := KPeer p)) F (peer(p \<mapsto> length ks)) (peers(length ks \<mapsto> p))
    (ks @ [(False, None, [fSys F])])"
  unfolding peer_shape_def kind_at_append
proof (rule conjI; intro allI impI)
  fix s p'
  assume "kind_at K ks s (KPeer p') \<or> s = length ks \<and> KPeer p' = KPeer p"
  then show "ed (ks @ [(False, None, [fSys F])]) s = [fSys F] \<and> (peers(length ks \<mapsto> p)) s = Some p' \<and>
      (\<not> dn (ks @ [(False, None, [fSys F])]) s \<longrightarrow> (peer(p \<mapsto> length ks)) p' = Some s)"
  proof
    assume s: "kind_at K ks s (KPeer p')"
    show ?thesis
      using kind_at_range [OF s] peer_shapeD(1,2) [OF old s] free by (cases "dn ks s") auto
  qed simp
next
  fix p' s
  assume "(peer(p \<mapsto> length ks)) p' = Some s"
  then have "p' = p \<and> s = length ks \<or> peer p' = Some s" by (auto split: if_splits)
  then show "(kind_at K ks s (KPeer p') \<or> s = length ks \<and> KPeer p' = KPeer p) \<and>
      \<not> dn (ks @ [(False, None, [fSys F])]) s"
    using peer_shapeD(3) [OF old, of p' s] kind_at_range [of K ks s "KPeer p'"] by auto
qed

lemma new_group_shape:
  assumes old: "group_shape kd K F reg subs ks" and free: "reg q = None" and "inj kd"
  shows "group_shape kd (K(length ks := kd q)) F (reg(q \<mapsto> length ks)) (subs(length ks \<mapsto> Map.empty))
    (ks @ [(False, None, [fSys F])])"
  unfolding group_shape_def kind_at_append
proof (rule conjI; intro allI impI)
  fix s q'
  assume "kind_at K ks s (kd q') \<or> s = length ks \<and> kd q' = kd q"
  then show "ed (ks @ [(False, None, [fSys F])]) s = [fSys F] \<and>
      (\<exists>m. (subs(length ks \<mapsto> Map.empty)) s = Some m \<and>
        subs_ok (K(length ks := kd q)) (ks @ [(False, None, [fSys F])]) s m)"
  proof
    assume s: "kind_at K ks s (kd q')"
    obtain m where "subs s = Some m" "subs_ok K ks s m" using group_shapeD(2) [OF old s] by blast
    then show ?thesis
      using kind_at_range [OF s] group_shapeD(1) [OF old s] subs_ok_append by auto
  qed (simp add: subs_ok_def)
next
  fix q' s
  assume "(reg(q \<mapsto> length ks)) q' = Some s"
  then have "q' = q \<and> s = length ks \<or> reg q' = Some s" by (auto split: if_splits)
  then show "(kind_at K ks s (kd q') \<or> s = length ks \<and> kd q' = kd q) \<and>
      \<not> dn (ks @ [(False, None, [fSys F])]) s"
    using group_shapeD(3) [OF old, of q' s] kind_at_range [of K ks s "kd q'"] by auto
qed

lemma new_sub_shape:
  assumes g: "group_shape kd K F reg subs ks" and s: "kind_at K ks s (kd q)" "subs s = Some m"
    and kd: "\<And>q. kd q \<noteq> KSub s p"
  shows "group_shape kd (K(length ks := KSub s p)) F reg (subs(s \<mapsto> m(p \<mapsto> length ks)))
    (ks @ [(False, None, [])])"
proof -
  have "subs_ok K ks s m" using g s by (fastforce simp: group_shape_def)
  then have "subs_ok (K(length ks := KSub s p)) (ks @ [(False, None, [])]) s (m(p \<mapsto> length ks))"
    using subs_ok_append [of K ks s m "KSub s p" "(False, None, [])"]
    by (auto simp: subs_ok_def kind_at_append)
  moreover have "group_shape kd (K(length ks := KSub s p)) F reg subs (ks @ [(False, None, [])])"
    using kd by (intro group_append [OF g]) metis
  ultimately show ?thesis unfolding group_shape_def by (metis fun_upd_apply)
qed

lemma new_conn_shape:
  assumes "conn_shape K F conns ks" "conn_edges K F ks cs es"
  shows "conn_shape (K(length ks := KConn)) F (conns(length ks \<mapsto> cs)) (ks @ [(False, None, es)])"
proof -
  have "s < length ks" if "conns s = Some c" for s c
    using assms(1) that kind_at_range by (metis conn_shape_def option.distinct(1))
  then show ?thesis
    using assms conn_edges_append [of K F ks] unfolding conn_shape_def kind_at_append
    by (auto split: if_splits)
qed

lemma new_stream_shape:
  assumes "stream_shape K F streams ks" "stream_edges K F ks ss es"
  shows "stream_shape (K(length ks := KStream)) F (streams(length ks \<mapsto> ss)) (ks @ [(False, None, es)])"
proof -
  have "s < length ks" if "streams s = Some c" for s c
    using assms(1) that kind_at_range by (metis stream_shape_def option.distinct(1))
  then show ?thesis
    using assms stream_edges_append [of K F ks] unfolding stream_shape_def kind_at_append
    by (auto split: if_splits)
qed

section \<open>A changed scope\<close>

lemma edges_upd [simp]:
  "conn_edges K F (ks[i := x]) cs es = conn_edges K F ks cs es"
  "stream_edges K F (ks[i := x]) ss es = stream_edges K F ks ss es"
  unfolding conn_edges_def stream_edges_def kind_at_upd by simp_all

lemma fixed_upd:
  assumes "fixed_shape K F ks" "i < length ks" "K i \<noteq> KFixed"
  shows "fixed_shape K F (ks[i := x])"
proof -
  have "i \<notin> set (fixed_scopes F)" using assms unfolding fixed_shape_def kind_at_def by blast
  then show ?thesis using assms(1,2) by (auto simp: fixed_shape_def fixed_scopes_def)
qed

lemma root_upd: "root_shape K ks \<Longrightarrow> i < length ks \<Longrightarrow> fst (snd x) = ow ks i \<Longrightarrow> root_shape K (ks[i := x])"
  by (simp add: root_shape_def)

lemma peer_upd:
  assumes "peer_shape K F peer peers ks" "i < length ks" "\<And>p. K i \<noteq> KPeer p"
  shows "peer_shape K F peer peers (ks[i := x])"
  using assms unfolding peer_shape_def kind_at_upd by (metis kind_at_def skeleton_upd(1,3))

lemma subs_ok_upd:
  assumes "subs_ok K ks s m" "i < length ks" "\<And>p. K i \<noteq> KSub s p"
  shows "subs_ok K (ks[i := x]) s m"
  using assms unfolding subs_ok_def kind_at_upd by (metis kind_at_def skeleton_upd(1))

lemma group_upd:
  assumes "group_shape kd K F reg subs ks" "i < length ks" "\<And>q. K i \<noteq> kd q"
    and "\<And>s p q. K i = KSub s p \<Longrightarrow> K s \<noteq> kd q"
  shows "group_shape kd K F reg subs (ks[i := x])"
  using assms unfolding group_shape_def kind_at_upd
  by (metis kind_at_def skeleton_upd(1,3) subs_ok_upd)

lemma sub_upd:
  assumes "sub_shape K ks" "i < length ks" "\<And>own p. K i = KSub own p \<Longrightarrow> snd (snd x) = []"
  shows "sub_shape K (ks[i := x])"
  using assms unfolding sub_shape_def kind_at_upd by (metis kind_at_def skeleton_upd(3))

lemma conn_upd:
  assumes "conn_shape K F conns ks" "i < length ks" "K i \<noteq> KConn"
  shows "conn_shape K F conns (ks[i := x])"
  using assms unfolding conn_shape_def kind_at_upd edges_upd
  by (metis kind_at_def option.distinct(1) skeleton_upd(1,3))

lemma stream_upd:
  assumes "stream_shape K F streams ks" "i < length ks" "K i \<noteq> KStream"
  shows "stream_shape K F streams (ks[i := x])"
  using assms unfolding stream_shape_def kind_at_upd edges_upd
  by (metis kind_at_def option.distinct(1) skeleton_upd(1,3))

lemma group_upd_other:
  assumes "group_shape kd K F reg subs ks" "i < length ks" "\<And>q. K i \<noteq> kd q" "\<And>s p. K i \<noteq> KSub s p"
  shows "group_shape kd K F reg subs (ks[i := x])"
  using assms by (intro group_upd) auto

lemma sub_upd_other:
  assumes "sub_shape K ks" "i < length ks" "\<And>s p. K i \<noteq> KSub s p"
  shows "sub_shape K (ks[i := x])"
  using assms by (intro sub_upd) auto

lemmas shape_upds = fixed_upd root_upd peer_upd group_upd sub_upd conn_upd stream_upd

lemma conn_upd_at:
  assumes "conn_shape K F conns ks" "i < length ks" "K i = KConn"
    and "\<not> fst x \<Longrightarrow> conn_edges K F ks cs (snd (snd x))"
  shows "conn_shape K F (conns(i \<mapsto> cs)) (ks[i := x])"
  using assms unfolding conn_shape_def kind_at_upd edges_upd
  by (metis kind_at_def fun_upd_apply option.distinct(1) option.inject skeleton_upd(1,3))

lemma stream_upd_at:
  assumes "stream_shape K F streams ks" "i < length ks" "K i = KStream"
    and "\<not> fst x \<Longrightarrow> stream_edges K F ks ss (snd (snd x))"
  shows "stream_shape K F (streams(i \<mapsto> ss)) (ks[i := x])"
  using assms unfolding stream_shape_def kind_at_upd edges_upd
  by (metis kind_at_def fun_upd_apply option.distinct(1) option.inject skeleton_upd(1,3))

lemma conn_closed:
  assumes "conn_shape K F conns ks" "i < length ks"
  shows "conn_shape K F conns (ks[i := (True, a, es)])"
  using assms unfolding conn_shape_def kind_at_upd edges_upd by (metis fst_conv skeleton_upd(1,3))

lemma stream_closed:
  assumes "stream_shape K F streams ks" "i < length ks"
  shows "stream_shape K F streams (ks[i := (True, a, es)])"
  using assms unfolding stream_shape_def kind_at_upd edges_upd by (metis fst_conv skeleton_upd(1,3))

text \<open>A closed peer, protocol or per-peer scope leaves its register.\<close>

lemma peer_closed:
  assumes old: "peer_shape K F peer peers ks" and reg: "peer p = Some i"
  shows "peer_shape K F (peer(p := None)) peers (ks[i := (True, a, [fSys F])])"
  unfolding peer_shape_def kind_at_upd
proof (rule conjI; intro allI impI)
  have i: "kind_at K ks i (KPeer p)" using peer_shapeD(3) [OF old reg] by simp
  note i' = kind_at_range [OF i]
  fix s p'
  assume s: "kind_at K ks s (KPeer p')"
  then have "\<not> dn ks s \<Longrightarrow> p' = p \<Longrightarrow> s = i" using peer_shapeD(2) [OF old s] reg by simp
  then show "ed (ks[i := (True, a, [fSys F])]) s = [fSys F] \<and> peers s = Some p' \<and>
      (\<not> dn (ks[i := (True, a, [fSys F])]) s \<longrightarrow> (peer(p := None)) p' = Some s)"
    using i' peer_shapeD(1,2) [OF old s] by auto
next
  have i: "kind_at K ks i (KPeer p)" using peer_shapeD(3) [OF old reg] by simp
  fix p' s
  assume "(peer(p := None)) p' = Some s"
  then have "p' \<noteq> p" "peer p' = Some s" by (auto split: if_splits)
  then show "kind_at K ks s (KPeer p') \<and> \<not> dn (ks[i := (True, a, [fSys F])]) s"
    using peer_shapeD(3) [OF old, of p' s] i by (auto simp: kind_at_def)
qed

lemma group_closed:
  assumes old: "group_shape kd K F reg subs ks" and reg: "reg q = Some i"
    and kd: "inj kd" "\<And>q s p. kd q \<noteq> KSub s p"
  shows "group_shape kd K F (reg(q := None)) subs (ks[i := (True, a, [fSys F])])"
  unfolding group_shape_def kind_at_upd
proof (rule conjI; intro allI impI)
  have i: "kind_at K ks i (kd q)" using group_shapeD(3) [OF old reg] by simp
  note i' = kind_at_range [OF i]
  fix s q'
  assume s: "kind_at K ks s (kd q')"
  obtain m where "subs s = Some m" "subs_ok K ks s m" using group_shapeD(2) [OF old s] by blast
  moreover have "K i \<noteq> KSub s p" for p using i kd(2) by (simp add: kind_at_def)
  ultimately show "ed (ks[i := (True, a, [fSys F])]) s = [fSys F] \<and>
      (\<exists>m. subs s = Some m \<and> subs_ok K (ks[i := (True, a, [fSys F])]) s m)"
    using i' group_shapeD(1) [OF old s] subs_ok_upd [OF _ i'] by auto
next
  have i: "kind_at K ks i (kd q)" using group_shapeD(3) [OF old reg] by simp
  fix q' s
  assume "(reg(q := None)) q' = Some s"
  then have "q' \<noteq> q" "reg q' = Some s" by (auto split: if_splits)
  moreover have "s \<noteq> i" using calculation group_shapeD(3) [OF old, of q' s] i kd(1)
    by (auto simp: kind_at_def dest: injD)
  ultimately show "kind_at K ks s (kd q') \<and> \<not> dn (ks[i := (True, a, [fSys F])]) s"
    using group_shapeD(3) [OF old, of q' s] kind_at_range [OF i] by simp
qed

lemma sub_closed:
  assumes old: "group_shape kd K F reg subs ks" and s: "kind_at K ks s (kd q)" "subs s = Some m" "m p = Some i"
    and kd: "\<And>q s p. kd q \<noteq> KSub s p"
  shows "group_shape kd K F reg (subs(s \<mapsto> m(p := None))) (ks[i := (True, a, es)])"
  unfolding group_shape_def kind_at_upd
proof (rule conjI; intro allI impI)
  have ok: "subs_ok K ks s m" using group_shapeD(2) [OF old s(1)] s(2) by simp
  have i: "kind_at K ks i (KSub s p)" using subs_okD [OF ok s(3)] by simp
  note i' = kind_at_range [OF i]
  fix s' q'
  assume s': "kind_at K ks s' (kd q')"
  obtain m' where m': "subs s' = Some m'" "subs_ok K ks s' m'" using group_shapeD(2) [OF old s'] by blast
  have "s' \<noteq> s \<Longrightarrow> subs_ok K (ks[i := (True, a, es)]) s' m'"
    using subs_ok_upd [OF m'(2) i'] i by (simp add: kind_at_def)
  moreover have "subs_ok K (ks[i := (True, a, es)]) s (m(p := None))"
    using ok i unfolding subs_ok_def kind_at_upd by (auto simp: kind_at_def)
  moreover have "s' \<noteq> i" using s' i kd by (metis kind_at_unique)
  ultimately show "ed (ks[i := (True, a, es)]) s' = [fSys F] \<and>
      (\<exists>m'. (subs(s \<mapsto> m(p := None))) s' = Some m' \<and> subs_ok K (ks[i := (True, a, es)]) s' m')"
    using i' group_shapeD(1) [OF old s'] m'(1) by auto
next
  have ok: "subs_ok K ks s m" using group_shapeD(2) [OF old s(1)] s(2) by simp
  have i: "kind_at K ks i (KSub s p)" using subs_okD [OF ok s(3)] by simp
  fix q' s'
  assume "reg q' = Some s'"
  then show "kind_at K ks s' (kd q') \<and> \<not> dn (ks[i := (True, a, es)]) s'"
    using group_shapeD(3) [OF old, of q' s'] i kd kind_at_range [OF i] by (auto simp: kind_at_def)
qed

section \<open>The books of a manager\<close>

abbreviation rks :: "resourceManager \<Rightarrow> skeleton" where
  "rks r \<equiv> map skel (rmStore r)"

definition base_refs :: "fixed_ids \<Rightarrow> sid \<Rightarrow> int" where
  "base_refs F p = (if p \<in> set (fixed_scopes F) then 1 else 0)"

text \<open>\<open>pend\<close> and \<open>held\<close> are what the running operation has in hand; between operations nothing is
  pending and \<open>held\<close> counts the views that are open.\<close>

definition kept :: "kinds \<Rightarrow> resourceManager \<Rightarrow> ledger \<Rightarrow> ledger \<Rightarrow> (sid \<Rightarrow> int) \<Rightarrow> bool" where
  "kept K r own pend held \<longleftrightarrow> shapes K r (rks r) \<and>
     books (rmStore r) own pend (\<lambda>p. base_refs (ids r) p + held p) \<and> sound (rmStore r) own \<and>
     all_fit (rmStore r) \<and> (\<forall>p \<ge> length (rmStore r). held p = 0 \<and> (\<forall>c. pend c p = 0))"

definition recount :: "resourceManager \<Rightarrow> resourceManager \<Rightarrow> bool" where
  "recount r r' \<longleftrightarrow> (\<exists>st. r' = r\<lparr>rmStore := st\<rparr> \<and> same_skeleton (rmStore r) st)"

lemma recount_refl: "recount r r"
  unfolding recount_def by (intro exI [of _ "rmStore r"]) simp

lemma recount_trans: "recount r r' \<Longrightarrow> recount r' r'' \<Longrightarrow> recount r r''"
  by (auto simp: recount_def)

lemma recountI: "same_skeleton (rmStore r) st \<Longrightarrow> recount r (r\<lparr>rmStore := st\<rparr>)"
  by (auto simp: recount_def)

lemma recountD:
  assumes "recount r r'"
  shows "rks r' = rks r" "ids r' = ids r" "rmConns r' = rmConns r" "rmStreams r' = rmStreams r"
    "rmPeers r' = rmPeers r" "rmProtocols r' = rmProtocols r" "rmServices r' = rmServices r"
    "rmPeer r' = rmPeer r" "rmProto r' = rmProto r" "rmSvc r' = rmSvc r"
    "rmSystem r' = rmSystem r" "rmTransient r' = rmTransient r"
    "length (rmStore r') = length (rmStore r)"
  using assms by (auto simp: recount_def dest: map_eq_imp_length_eq)

lemma shapes_store [simp]: "shapes K (r\<lparr>rmStore := st\<rparr>) ks = shapes K r ks"
  by (simp add: shapes_def)

lemma keptD:
  assumes "kept K r own pend held"
  shows "shapes K r (rks r)" "books (rmStore r) own pend (\<lambda>p. base_refs (ids r) p + held p)"
    "sound (rmStore r) own" "\<And>p. length (rmStore r) \<le> p \<Longrightarrow> held p = 0"
    "\<And>c p. length (rmStore r) \<le> p \<Longrightarrow> pend c p = 0"
    "wf_graph (rmStore r)" "edges_open (rmStore r)" "balanced (rmStore r) own pend"
    "\<And>p. p < length (rmStore r) \<Longrightarrow> rc_wf (scRC (rmStore r ! p))" "all_fit (rmStore r)"
  using assms by (auto simp: kept_def books_def)

text \<open>A step on the store that keeps the skeleton.\<close>

lemma kept_store:
  assumes k: "kept K r own pend held" and sk: "same_skeleton (rmStore r) st"
    and bk: "books st own' pend' (\<lambda>p. base_refs (ids r) p + held' p)" and snd: "sound st own'" and fit: "all_fit st"
    and out: "\<And>p. length (rmStore r) \<le> p \<Longrightarrow> held' p = 0" "\<And>c p. length (rmStore r) \<le> p \<Longrightarrow> pend' c p = 0"
  shows "kept K (r\<lparr>rmStore := st\<rparr>) own' pend' held'"
proof -
  have len: "length st = length (rmStore r)" by (rule skeleton_length [OF sk])
  have sh: "shapes K r (rks r)" using k by (simp add: kept_def)
  have "shapes K (r\<lparr>rmStore := st\<rparr>) (rks (r\<lparr>rmStore := st\<rparr>))" using sh sk by simp
  moreover have "books (rmStore (r\<lparr>rmStore := st\<rparr>)) own' pend' (\<lambda>p. base_refs (ids (r\<lparr>rmStore := st\<rparr>)) p + held' p)" using bk by simp
  moreover have "\<forall>p\<ge>length (rmStore (r\<lparr>rmStore := st\<rparr>)). held' p = 0 \<and> (\<forall>c. pend' c p = 0)"
    using out len by simp
  ultimately show ?thesis using snd fit unfolding kept_def by simp
qed

lemma sound_same:
  assumes "same_skeleton st st'" "sound st own"
  shows "sound st' own"
  using assms(2) by (simp add: sound_def skeleton_length [OF assms(1)])

lemma fun_add: "(\<lambda>p. b p + (f(s := f s + n)) p) = (\<lambda>p. b p + f p)(s := b s + f s + (n :: int))"
  by (rule ext) simp

lemma refs_fit:
  assumes "all_fit st"
  shows "IncRef st s = Some st' \<Longrightarrow> all_fit st'" "DecRef st s = Some st' \<Longrightarrow> all_fit st'"
  using assms by (auto simp: IncRef_def DecRef_def scope_at_def bind_eq_Some_conv nth_list_update all_fit_def split: if_splits)

lemma kept_IncRef:
  assumes k: "kept K r own pend held" and s: "s < length (rmStore r)"
  shows "\<exists>r'. rm_IncRef r s = Some r' \<and> recount r r' \<and> kept K r' own pend (held(s := held s + 1))"
proof -
  obtain st where st: "IncRef (rmStore r) s = Some st" using ref_total(1) [OF s] by blast
  note b = IncRef_books [OF keptD(2) [OF k] st]
  have "kept K (r\<lparr>rmStore := st\<rparr>) own pend (held(s := held s + 1))"
    using b s keptD(3-5) [OF k] fun_add [of "base_refs (ids r)" held s 1] refs_fit(1) [OF keptD(10) [OF k] st]
    by (intro kept_store [OF k]) (auto simp: sound_same)
  then show ?thesis using st b by (auto simp: rm_IncRef_def intro: recountI)
qed

lemma kept_DecRef:
  assumes k: "kept K r own pend held" and s: "s < length (rmStore r)"
  shows "\<exists>r'. rm_DecRef r s = Some r' \<and> recount r r' \<and> kept K r' own pend (held(s := held s - 1))"
proof -
  obtain st where st: "DecRef (rmStore r) s = Some st" using ref_total(2) [OF s] by blast
  note b = DecRef_books [OF keptD(2) [OF k] st]
  have "kept K (r\<lparr>rmStore := st\<rparr>) own pend (held(s := held s - 1))"
    using b s keptD(3-5) [OF k] fun_add [of "base_refs (ids r)" held s "- 1"] refs_fit(2) [OF keptD(10) [OF k] st]
    by (intro kept_store [OF k]) (auto simp: sound_same)
  then show ?thesis using st b by (auto simp: rm_DecRef_def intro: recountI)
qed

lemma kept_bump:
  assumes k: "kept K r own pend held" and sk: "same_skeleton (rmStore r) st" and s: "s < length (rmStore r)"
    and bk: "books st own (bump pend s d) (\<lambda>p. base_refs (ids r) p + held p)" and fit: "all_fit st"
  shows "kept K (r\<lparr>rmStore := st\<rparr>) own (bump pend s d) held"
proof (rule kept_store [OF k sk bk sound_same [OF sk keptD(3) [OF k]] fit])
  fix p assume p: "length (rmStore r) \<le> p"
  show "held p = 0" by (rule keptD(4) [OF k p])
  show "bump pend s d c p = 0" for c using p s keptD(5) [OF k p] by (simp add: bump_def)
qed

lemma kept_Reserve:
  assumes k: "kept K r own pend held" and s: "s < length (rmStore r)"
    and room: "\<And>c. 0 \<le> sval c q \<and> cval c (scRC (rmStore r ! s)) + sval c q \<le> MaxHeld"
  shows "(\<exists>e. rm_ReserveForChild r s q = Some (Some e, r)) \<or>
    (\<exists>r'. rm_ReserveForChild r s q = Some (None, r') \<and> recount r r' \<and>
      kept K r' own (bump pend s (\<lambda>c. sval c q)) held)"
proof -
  obtain e st where st: "ReserveForChild (rmStore r) s q = Some (e, st)"
    using child_total(1) [OF s keptD(9) [OF k s]] by fastforce
  show ?thesis
  proof (cases e)
    case (Some e')
    then have "st = rmStore r" using reserve_child_refused [OF keptD(2) [OF k]] st s by blast
    then show ?thesis using st Some by (auto simp: rm_ReserveForChild_def)
  next
    case None
    have b: "books st own (bump pend s (\<lambda>c. sval c q)) (\<lambda>p. base_refs (ids r) p + held p) \<and>
        same_skeleton (rmStore r) st"
      by (rule reserve_child_books [OF keptD(2) [OF k] st [unfolded None] s])
        (use room in \<open>auto intro: order_trans [of _ MaxHeld]\<close>)
    moreover have "all_fit st"
      by (rule reserve_child_fits [OF st [unfolded None] keptD(9) [OF k s] room keptD(10) [OF k]])
    ultimately have "kept K (r\<lparr>rmStore := st\<rparr>) own (bump pend s (\<lambda>c. sval c q)) held"
      using s by (intro kept_bump [OF k]) simp_all
    then show ?thesis using st None b by (auto simp: rm_ReserveForChild_def intro: recountI)
  qed
qed

lemma kept_Release:
  assumes k: "kept K r own pend held" and s: "s < length (rmStore r)" "\<not> scDone (rmStore r ! s)"
    and q: "\<And>c. 0 \<le> sval c q \<and> sval c q \<le> cval c (scRC (rmStore r ! s))"
  shows "\<exists>r'. rm_ReleaseForChild r s q = Some r' \<and> recount r r' \<and>
    kept K r' own (bump pend s (\<lambda>c. - sval c q)) held"
proof -
  obtain st where st: "ReleaseForChild (rmStore r) s q = Some st" using child_total(2) [OF s(1)] by blast
  have b: "books st own (bump pend s (\<lambda>c. - sval c q)) (\<lambda>p. base_refs (ids r) p + held p) \<and>
      same_skeleton (rmStore r) st"
    by (rule release_child_books [OF keptD(2) [OF k] st s q])
  moreover have "all_fit st"
  proof (rule release_child_fits [OF st keptD(9) [OF k s(1)] _ keptD(10) [OF k]])
    fix c show "counter_ok (sval c q)"
      using q [of c] keptD(9) [OF k s(1)] by (auto simp: rc_wf_cval counter_ok_def intro: order_trans)
  qed
  ultimately have "kept K (r\<lparr>rmStore := st\<rparr>) own (bump pend s (\<lambda>c. - sval c q)) held"
    using s by (intro kept_bump [OF k]) simp_all
  then show ?thesis using st b by (auto simp: rm_ReleaseForChild_def intro: recountI)
qed

section \<open>Getting a shared scope\<close>

text \<open>What an operation relies on after another scope may have been created.\<close>

definition grown :: "kinds \<Rightarrow> resourceManager \<Rightarrow> kinds \<Rightarrow> resourceManager \<Rightarrow> bool" where
  "grown K r K' r' \<longleftrightarrow> (\<exists>ext. rks r' = rks r @ ext) \<and> (\<forall>s < length (rmStore r). K' s = K s) \<and>
     ids r' = ids r \<and> rmConns r' = rmConns r \<and> rmStreams r' = rmStreams r \<and>
     rmConnLimiter r' = rmConnLimiter r"

lemma grownD:
  assumes "grown K r K' r'"
  shows "ids r' = ids r" "rmConns r' = rmConns r" "rmStreams r' = rmStreams r"
    "rmConnLimiter r' = rmConnLimiter r" "length (rmStore r) \<le> length (rmStore r')"
    "kind_at K (rks r) s k \<Longrightarrow> kind_at K' (rks r') s k"
    "s < length (rmStore r) \<Longrightarrow> skel (rmStore r' ! s) = skel (rmStore r ! s)"
proof -
  obtain ext where ext: "rks r' = rks r @ ext" using assms by (auto simp: grown_def)
  then have len: "length (rmStore r') = length (rmStore r) + length ext"
    by (metis length_append length_map)
  show "ids r' = ids r" "rmConns r' = rmConns r" "rmStreams r' = rmStreams r"
    "rmConnLimiter r' = rmConnLimiter r"
    using assms by (auto simp: grown_def)
  show "length (rmStore r) \<le> length (rmStore r')" using len by simp
  show "kind_at K (rks r) s k \<Longrightarrow> kind_at K' (rks r') s k"
    using assms len by (auto simp: grown_def kind_at_def)
  show "skel (rmStore r' ! s) = skel (rmStore r ! s)" if "s < length (rmStore r)"
  proof -
    have "rks r' ! s = rks r ! s" using that by (simp add: ext nth_append)
    then show ?thesis using that len by simp
  qed
qed

lemma grown_same:
  assumes "grown K r K' r'" "s < length (rmStore r)"
  shows "scDone (rmStore r' ! s) = scDone (rmStore r ! s)" "scOwner (rmStore r' ! s) = scOwner (rmStore r ! s)"
    "scEdges (rmStore r' ! s) = scEdges (rmStore r ! s)" "s < length (rmStore r')"
  using grownD(7) [OF assms] grownD(5) [OF assms(1)] assms(2) by (auto simp: skel_def)

lemma grown_trans:
  assumes "grown K r K' r'" "grown K' r' K'' r''"
  shows "grown K r K'' r''"
  using assms grownD(5) [OF assms(1)] unfolding grown_def by auto

lemma grown_recount: "recount r r' \<Longrightarrow> rmConnLimiter r' = rmConnLimiter r \<Longrightarrow> grown K r K r'"
  by (auto simp: grown_def recount_def)

lemma recount_limiter: "recount r r' \<Longrightarrow> rmConnLimiter r' = rmConnLimiter r"
  by (auto simp: recount_def)

definition may_hold :: "store \<Rightarrow> sid list \<Rightarrow> bool" where
  "may_hold st es \<longleftrightarrow> distinct es \<and> (\<forall>e \<in> set es. e < length st \<and> scOwner (st ! e) = None \<and> \<not> scDone (st ! e))"

lemma kept_new:
  assumes k: "kept K r own pend held" and es: "may_hold (rmStore r) es"
  shows "\<exists>st'. newResourceScope (rmStore r) lim es name = Some (length (rmStore r), st') \<and>
    map skel st' = rks r @ [(False, None, es)] \<and>
    (\<forall>r' K'. rmStore r' = st' \<longrightarrow> ids r' = ids r \<longrightarrow> shapes K' r' (rks r @ [(False, None, es)]) \<longrightarrow>
       kept K' r' own pend held)"
proof -
  define f where "f = (\<lambda>s::rscope. s\<lparr>scRefCnt := scRefCnt s + 1\<rparr>)"
  define s where "s = \<lparr>scDone = False, scRefCnt = 0, scSpanID = 0, scRC = empty_resources lim,
    scOwner = None, scEdges = es, scName = name\<rparr>"
  define st' where "st' = map_on f es (rmStore r) @ [s]"
  have es': "distinct es" "\<forall>e \<in> set es. e < length (rmStore r) \<and> scOwner (rmStore r ! e) = None \<and> \<not> scDone (rmStore r ! e)"
    using es by (auto simp: may_hold_def)
  have "forEach IncRef (rmStore r) es = Some (map_on f es (rmStore r))"
    by (rule forEach_map_on) (use es' in \<open>auto simp: IncRef_def f_def\<close>)
  then have new: "newResourceScope (rmStore r) lim es name = Some (length (rmStore r), st')"
    by (simp add: newResourceScope_def st'_def s_def)
  have "map skel (map_on f es (rmStore r)) = rks r" by (rule skeleton_map_on) (simp add: f_def)
  then have sk: "map skel st' = rks r @ [(False, None, es)]"
    by (simp add: st'_def s_def skel_def)
  note z = keptD(3-5) [OF k]
  have zero: "own c (length (rmStore r)) = 0" "pend c (length (rmStore r)) = 0"
    "base_refs (ids r) (length (rmStore r)) + held (length (rmStore r)) = 0" for c
  proof -
    have "length (rmStore r) \<notin> set (fixed_scopes (ids r))"
      using keptD(1) [OF k] unfolding shapes_def fixed_shape_def kind_at_def
      by (metis length_map less_irrefl)
    then show "base_refs (ids r) (length (rmStore r)) + held (length (rmStore r)) = 0"
      using z(2) by (simp add: base_refs_def)
  qed (use z in \<open>simp_all add: sound_def\<close>)
  have bk: "books st' own pend (\<lambda>p. base_refs (ids r) p + held p)"
    by (rule new_scope_books [OF keptD(2) [OF k] new es' zero])
  have len: "length st' = Suc (length (rmStore r))" by (simp add: st'_def)
  have "all_fit (map_on f es (rmStore r))"
    by (rule all_fit_same [OF keptD(10) [OF k]]) (simp_all add: f_def)
  then have fit: "all_fit st'" by (simp add: st'_def s_def all_fit_append)
  have "kept K' r' own pend held"
    if "rmStore r' = st'" "ids r' = ids r" "shapes K' r' (rks r @ [(False, None, es)])" for r' K'
    using bk that z sound_append [OF z(1) len] len sk fit by (simp add: kept_def)
  then show ?thesis using new sk by blast
qed

lemma shapesD:
  assumes "shapes K r ks"
  shows "fixed_shape K (ids r) ks" "root_shape K ks" "peer_shape K (ids r) (rmPeer r) (rmPeers r) ks"
    "group_shape KProto K (ids r) (rmProto r) (proto_subs r) ks"
    "group_shape KService K (ids r) (rmSvc r) (service_subs r) ks" "sub_shape K ks"
    "conn_shape K (ids r) (rmConns r) ks" "stream_shape K (ids r) (rmStreams r) ks"
  using assms by (simp_all add: shapes_def)

lemma shapes_new_peer:
  assumes "shapes K r ks" "rmPeer r p = None"
  shows "shapes (K(length ks := KPeer p))
    (r\<lparr>rmPeers := (rmPeers r)(length ks \<mapsto> p), rmPeer := (rmPeer r)(p \<mapsto> length ks)\<rparr>)
    (ks @ [(False, None, [rmSystem r])])"
  using shapesD [OF assms(1)] new_peer_shape [OF shapesD(3) [OF assms(1)] assms(2)]
  by (simp add: shapes_def fixed_append root_append group_append not_sub_append conn_append stream_append)

lemma shapes_new_proto:
  assumes "shapes K r ks" "rmProto r q = None"
  shows "shapes (K(length ks := KProto q))
    (r\<lparr>rmProtocols := (rmProtocols r)(length ks \<mapsto> \<lparr>protoProto = q, protoPeers = Map.empty\<rparr>),
       rmProto := (rmProto r)(q \<mapsto> length ks)\<rparr>)
    (ks @ [(False, None, [rmSystem r])])"
  using shapesD [OF assms(1)] new_group_shape [OF shapesD(4) [OF assms(1)] assms(2)]
  by (simp add: shapes_def fixed_append root_append peer_append group_append not_sub_append conn_append
      stream_append inj_def)

lemma shapes_new_service:
  assumes "shapes K r ks" "rmSvc r v = None"
  shows "shapes (K(length ks := KService v))
    (r\<lparr>rmServices := (rmServices r)(length ks \<mapsto> \<lparr>svcService = v, svcPeers = Map.empty\<rparr>),
       rmSvc := (rmSvc r)(v \<mapsto> length ks)\<rparr>)
    (ks @ [(False, None, [rmSystem r])])"
  using shapesD [OF assms(1)] new_group_shape [OF shapesD(5) [OF assms(1)] assms(2)]
  by (simp add: shapes_def fixed_append root_append peer_append group_append not_sub_append conn_append
      stream_append inj_def)

lemma fixed_scope:
  assumes "kept K r own pend held" "s \<in> set (fixed_scopes (ids r))"
  shows "s < length (rmStore r)" "scOwner (rmStore r ! s) = None" "\<not> scDone (rmStore r ! s)"
    "kind_at K (rks r) s KFixed"
proof -
  note sh = shapesD [OF keptD(1) [OF assms(1)]]
  show kf: "kind_at K (rks r) s KFixed" using sh(1) assms(2) unfolding fixed_shape_def by blast
  then show s: "s < length (rmStore r)" by (auto simp: kind_at_def)
  show "scOwner (rmStore r ! s) = None"
    using sh(2) s kf unfolding root_shape_def kind_at_def
    by (metis kind.distinct(13) length_map skeleton_fields(2))
  show "\<not> scDone (rmStore r ! s)"
    using sh(1) assms(2) s unfolding fixed_shape_def by (metis skeleton_fields(1))
qed

lemma system_may_hold:
  assumes "kept K r own pend held"
  shows "may_hold (rmStore r) [rmSystem r]"
  using fixed_scope [OF assms, of "rmSystem r"] by (simp add: may_hold_def fixed_scopes_def)

text \<open>A scope of the wanted kind, open, with one more reference in hand.\<close>

definition got ::
  "kinds \<Rightarrow> resourceManager \<Rightarrow> ledger \<Rightarrow> ledger \<Rightarrow> (sid \<Rightarrow> int) \<Rightarrow> kind \<Rightarrow> sid \<Rightarrow> kinds \<Rightarrow> resourceManager \<Rightarrow> bool"
where
  "got K r own pend held kd s K' r' \<longleftrightarrow> kept K' r' own pend (held(s := held s + 1)) \<and> grown K r K' r' \<and>
     kind_at K' (rks r') s kd \<and> \<not> scDone (rmStore r' ! s)"

lemma got_registered:
  assumes k: "kept K r own pend held" and s: "kind_at K (rks r) s kd" "\<not> dn (rks r) s"
  shows "\<exists>r'. rm_IncRef r s = Some r' \<and> got K r own pend held kd s K r'"
proof -
  have lt: "s < length (rmStore r)" using s(1) by (auto simp: kind_at_def)
  obtain r' where r': "rm_IncRef r s = Some r'" "recount r r'" "kept K r' own pend (held(s := held s + 1))"
    using kept_IncRef [OF k lt] by blast
  have "\<not> scDone (rmStore r' ! s)"
    using s(2) lt recountD(1,13) [OF r'(2)] by (metis skeleton_fields(1))
  then show ?thesis
    unfolding got_def using r' s(1) recountD(1) [OF r'(2)] grown_recount [OF r'(2) recount_limiter [OF r'(2)]]
    by metis
qed

lemma got_new:
  assumes k: "kept K r own pend held" and es: "may_hold (rmStore r) es"
    and sh: "\<And>st. shapes (K(length (rmStore r) := kd)) (reg st) (rks r @ [(False, None, es)])"
    and reg: "\<And>st. rmStore (reg st) = st" "\<And>st. ids (reg st) = ids r" "\<And>st. rmConns (reg st) = rmConns r"
      "\<And>st. rmStreams (reg st) = rmStreams r" "\<And>st. rmConnLimiter (reg st) = rmConnLimiter r"
  shows "\<exists>st r' K'. newResourceScope (rmStore r) lim es name = Some (length (rmStore r), st) \<and>
    rm_IncRef (reg st) (length (rmStore r)) = Some r' \<and> got K r own pend held kd (length (rmStore r)) K' r'"
proof -
  define n where "n = length (rks r)"
  define K1 where "K1 = K(n := kd)"
  have n: "length (rmStore r) = n" by (simp add: n_def)
  obtain st where st: "newResourceScope (rmStore r) lim es name = Some (n, st)"
    "map skel st = rks r @ [(False, None, es)]"
    "\<And>r' K'. rmStore r' = st \<Longrightarrow> ids r' = ids r \<Longrightarrow> shapes K' r' (rks r @ [(False, None, es)]) \<Longrightarrow>
       kept K' r' own pend held"
    using kept_new [OF k es, of lim name] unfolding n by blast
  have k1: "kept K1 (reg st) own pend held"
    using sh [of st] unfolding n K1_def by (intro st(3)) (simp_all add: reg)
  have ln: "length (rmStore (reg st)) = Suc n"
    using arg_cong [OF st(2), of length] by (simp add: reg n_def)
  obtain r' where r': "rm_IncRef (reg st) n = Some r'" "recount (reg st) r'" "kept K1 r' own pend (held(n := held n + 1))"
    using kept_IncRef [OF k1, of n] ln by auto
  have ks: "rks r' = rks r @ [(False, None, es)]"
    using recountD(1) [OF r'(2)] st(2) by (simp add: reg)
  have "grown K r K1 r'"
    using ks recountD(2-4) [OF r'(2)] recount_limiter [OF r'(2)] reg n by (simp add: grown_def K1_def)
  moreover have "kind_at K1 (rks r') n kd" unfolding ks K1_def n_def kind_at_append by simp
  moreover have "\<not> scDone (rmStore r' ! n)"
  proof -
    have "dn (rks r') n = False" unfolding ks n_def by (simp only: skeleton_append fst_conv)
    then show ?thesis using ln recountD(13) [OF r'(2)] by (simp add: skeleton_fields)
  qed
  ultimately show ?thesis unfolding n got_def using st(1) r' by blast
qed

lemma kept_getPeerScope:
  assumes k: "kept K r own pend held"
  shows "\<exists>s r' K'. getPeerScope r p = Some (s, r') \<and> got K r own pend held (KPeer p) s K' r'"
proof (cases "rmPeer r p")
  case (Some s)
  then obtain r' where "rm_IncRef r s = Some r'" "got K r own pend held (KPeer p) s K r'"
    using got_registered [OF k] peer_shapeD(3) [OF shapesD(3) [OF keptD(1) [OF k]] Some] by blast
  then show ?thesis by (auto simp: getPeerScope_def Some)
next
  case None
  let ?n = "length (rmStore r)"
  define reg where "reg = (\<lambda>st. r\<lparr>rmStore := st, rmPeers := (rmPeers r)(?n \<mapsto> p), rmPeer := (rmPeer r)(p \<mapsto> ?n)\<rparr>)"
  have "shapes (K(?n := KPeer p)) (reg st) (rks r @ [(False, None, [rmSystem r])])" for st
    using shapes_new_peer [OF keptD(1) [OF k] None] by (simp add: shapes_def reg_def)
  then have "\<exists>st r' K'. newResourceScope (rmStore r) (GetPeerLimits (rmLimits r) p) [rmSystem r] (peerScopeName p) =
      Some (?n, st) \<and>
      rm_IncRef (reg st) ?n = Some r' \<and>
      got K r own pend held (KPeer p) ?n K' r'"
    by (intro got_new [OF k system_may_hold [OF k]]) (simp_all add: reg_def)
  then show ?thesis using None by (auto simp: getPeerScope_def newPeerScope_def reg_def)
qed

lemma kept_getProtocolScope:
  assumes k: "kept K r own pend held"
  shows "\<exists>s r' K'. getProtocolScope r q = Some (s, r') \<and> got K r own pend held (KProto q) s K' r'"
proof (cases "rmProto r q")
  case (Some s)
  then obtain r' where "rm_IncRef r s = Some r'" "got K r own pend held (KProto q) s K r'"
    using got_registered [OF k] group_shapeD(3) [OF shapesD(4) [OF keptD(1) [OF k]] Some] by blast
  then show ?thesis by (auto simp: getProtocolScope_def Some)
next
  case None
  let ?n = "length (rmStore r)"
  define reg where "reg = (\<lambda>st. r\<lparr>rmStore := st,
    rmProtocols := (rmProtocols r)(?n \<mapsto> \<lparr>protoProto = q, protoPeers = Map.empty\<rparr>), rmProto := (rmProto r)(q \<mapsto> ?n)\<rparr>)"
  have "shapes (K(?n := KProto q)) (reg st) (rks r @ [(False, None, [rmSystem r])])" for st
    using shapes_new_proto [OF keptD(1) [OF k] None] by (simp add: shapes_def reg_def)
  then have "\<exists>st r' K'. newResourceScope (rmStore r) (GetProtocolLimits (rmLimits r) q) [rmSystem r]
      (''protocol:'' @ q) = Some (?n, st) \<and>
      rm_IncRef (reg st) ?n = Some r' \<and>
      got K r own pend held (KProto q) ?n K' r'"
    by (intro got_new [OF k system_may_hold [OF k]]) (simp_all add: reg_def)
  then show ?thesis using None by (auto simp: getProtocolScope_def newProtocolScope_def reg_def)
qed

lemma kept_getServiceScope:
  assumes k: "kept K r own pend held"
  shows "\<exists>s r' K'. getServiceScope r v = Some (s, r') \<and> got K r own pend held (KService v) s K' r'"
proof (cases "rmSvc r v")
  case (Some s)
  then obtain r' where "rm_IncRef r s = Some r'" "got K r own pend held (KService v) s K r'"
    using got_registered [OF k] group_shapeD(3) [OF shapesD(5) [OF keptD(1) [OF k]] Some] by blast
  then show ?thesis by (auto simp: getServiceScope_def Some)
next
  case None
  let ?n = "length (rmStore r)"
  define reg where "reg = (\<lambda>st. r\<lparr>rmStore := st,
    rmServices := (rmServices r)(?n \<mapsto> \<lparr>svcService = v, svcPeers = Map.empty\<rparr>), rmSvc := (rmSvc r)(v \<mapsto> ?n)\<rparr>)"
  have "shapes (K(?n := KService v)) (reg st) (rks r @ [(False, None, [rmSystem r])])" for st
    using shapes_new_service [OF keptD(1) [OF k] None] by (simp add: shapes_def reg_def)
  then have "\<exists>st r' K'. newResourceScope (rmStore r) (GetServiceLimits (rmLimits r) v) [rmSystem r]
      (''service:'' @ v) = Some (?n, st) \<and>
      rm_IncRef (reg st) ?n = Some r' \<and>
      got K r own pend held (KService v) ?n K' r'"
    by (intro got_new [OF k system_may_hold [OF k]]) (simp_all add: reg_def)
  then show ?thesis using None by (auto simp: getServiceScope_def newServiceScope_def reg_def)
qed

lemma shapes_new_proto_peer:
  assumes "shapes K r ks" "kind_at K ks s (KProto q)" "rmProtocols r s = Some pr"
  shows "shapes (K(length ks := KSub s p))
    (r\<lparr>rmProtocols := (rmProtocols r)(s \<mapsto> pr\<lparr>protoPeers := (protoPeers pr)(p \<mapsto> length ks)\<rparr>)\<rparr>)
    (ks @ [(False, None, [])])"
  using shapesD [OF assms(1)] new_sub_shape [OF shapesD(4) [OF assms(1)] assms(2), of "protoPeers pr" p] assms(3)
  by (simp add: shapes_def fixed_append root_append peer_append group_append sub_append conn_append
      stream_append subs_of_def [of _ "rmProtocols r"])

lemma shapes_new_service_peer:
  assumes "shapes K r ks" "kind_at K ks s (KService v)" "rmServices r s = Some sv"
  shows "shapes (K(length ks := KSub s p))
    (r\<lparr>rmServices := (rmServices r)(s \<mapsto> sv\<lparr>svcPeers := (svcPeers sv)(p \<mapsto> length ks)\<rparr>)\<rparr>)
    (ks @ [(False, None, [])])"
  using shapesD [OF assms(1)] new_sub_shape [OF shapesD(5) [OF assms(1)] assms(2), of "svcPeers sv" p] assms(3)
  by (simp add: shapes_def fixed_append root_append peer_append group_append sub_append conn_append
      stream_append subs_of_def [of _ "rmServices r"])

lemma kept_protocol_peer:
  assumes k: "kept K r own pend held" and s: "kind_at K (rks r) s (KProto q)"
  shows "\<exists>ps r' K'. protocol_getPeerScope r s p = Some (ps, r') \<and> got K r own pend held (KSub s p) ps K' r'"
proof -
  obtain pr where pr: "rmProtocols r s = Some pr" "subs_ok K (rks r) s (protoPeers pr)"
    using group_shapeD(2) [OF shapesD(4) [OF keptD(1) [OF k]] s] by (auto simp: subs_of_def)
  show ?thesis
  proof (cases "protoPeers pr p")
    case (Some ps)
    then obtain r' where "rm_IncRef r ps = Some r'" "got K r own pend held (KSub s p) ps K r'"
      using got_registered [OF k] subs_okD [OF pr(2) Some] by blast
    then show ?thesis by (auto simp: protocol_getPeerScope_def pr(1) Some)
  next
    case None
    let ?n = "length (rmStore r)"
    define reg where "reg = (\<lambda>st. r\<lparr>rmStore := st,
      rmProtocols := (rmProtocols r)(s \<mapsto> pr\<lparr>protoPeers := (protoPeers pr)(p \<mapsto> ?n)\<rparr>)\<rparr>)"
    have lt: "s < ?n" using s by (auto simp: kind_at_def)
    have "shapes (K(?n := KSub s p)) (reg st) (rks r @ [(False, None, [])])" for st
      using shapes_new_proto_peer [OF keptD(1) [OF k] s pr(1), of p] by (simp add: shapes_def reg_def)
    then have "\<exists>st r' K'. newResourceScope (rmStore r) (GetProtocolPeerLimits (rmLimits r) (protoProto pr)) []
        (scName (rmStore r ! s) @ ''.peer:'' @ p) = Some (?n, st) \<and>
        rm_IncRef (reg st) ?n = Some r' \<and> got K r own pend held (KSub s p) ?n K' r'"
      by (intro got_new [OF k]) (simp_all add: reg_def may_hold_def)
    then show ?thesis using None lt pr(1) by (auto simp: protocol_getPeerScope_def reg_def)
  qed
qed

lemma kept_service_peer:
  assumes k: "kept K r own pend held" and s: "kind_at K (rks r) s (KService v)"
  shows "\<exists>ps r' K'. service_getPeerScope r s p = Some (ps, r') \<and> got K r own pend held (KSub s p) ps K' r'"
proof -
  obtain sv where sv: "rmServices r s = Some sv" "subs_ok K (rks r) s (svcPeers sv)"
    using group_shapeD(2) [OF shapesD(5) [OF keptD(1) [OF k]] s] by (auto simp: subs_of_def)
  show ?thesis
  proof (cases "svcPeers sv p")
    case (Some ps)
    then obtain r' where "rm_IncRef r ps = Some r'" "got K r own pend held (KSub s p) ps K r'"
      using got_registered [OF k] subs_okD [OF sv(2) Some] by blast
    then show ?thesis by (auto simp: service_getPeerScope_def sv(1) Some)
  next
    case None
    let ?n = "length (rmStore r)"
    define reg where "reg = (\<lambda>st. r\<lparr>rmStore := st,
      rmServices := (rmServices r)(s \<mapsto> sv\<lparr>svcPeers := (svcPeers sv)(p \<mapsto> ?n)\<rparr>)\<rparr>)"
    have lt: "s < ?n" using s by (auto simp: kind_at_def)
    have "shapes (K(?n := KSub s p)) (reg st) (rks r @ [(False, None, [])])" for st
      using shapes_new_service_peer [OF keptD(1) [OF k] s sv(1), of p] by (simp add: shapes_def reg_def)
    then have "\<exists>st r' K'. newResourceScope (rmStore r) (GetServicePeerLimits (rmLimits r) (svcService sv)) []
        (scName (rmStore r ! s) @ ''.peer:'' @ p) = Some (?n, st) \<and>
        rm_IncRef (reg st) ?n = Some r' \<and> got K r own pend held (KSub s p) ?n K' r'"
      by (intro got_new [OF k]) (simp_all add: reg_def may_hold_def)
    then show ?thesis using None lt sv(1) by (auto simp: service_getPeerScope_def reg_def)
  qed
qed

end
