(* ===== verification/Manager_Moves.thy ===== *)
theory Manager_Moves
  imports Manager_Inv
begin

text \<open>
  Moving a connection or a stream between the scopes it is counted against, as \<open>SetPeer\<close>,
  \<open>SetProtocol\<close> and \<open>SetService\<close> do: the usage of the scope is reserved on the new edges and
  released on the old ones, and the edges are replaced.  Each of them returns, keeps the books and
  the shape of the manager, and changes nothing that is held.
\<close>

section \<open>Who has a scope as an edge\<close>

lemma fixed_kind:
  assumes "fixed_shape K F ks"
  shows "kind_at K ks (fSys F) KFixed" "kind_at K ks (fTr F) KFixed" "kind_at K ks (fASys F) KFixed"
    "kind_at K ks (fATr F) KFixed"
  using assms by (auto simp: fixed_shape_def fixed_scopes_def)

text \<open>Only shared scopes are edges, and the scope of a peer below a protocol or service is an edge
  only of streams of that peer.\<close>

definition edge_ok :: "kinds \<Rightarrow> resourceManager \<Rightarrow> skeleton \<Rightarrow> sid \<Rightarrow> sid \<Rightarrow> bool" where
  "edge_ok K r ks s e \<longleftrightarrow> K e \<noteq> KConn \<and> K e \<noteq> KStream \<and> K e \<noteq> KSpan \<and>
     (\<forall>o' p. K e = KSub o' p \<longrightarrow>
       (\<exists>ss. rmStreams r s = Some ss \<and> kind_at K ks (sPeer ss) (KPeer p) \<and> sPeer ss \<in> set (ed ks s)))"

lemma edge_okI: "K e = KFixed \<or> K e = KPeer p \<or> K e = KProto q \<or> K e = KService v \<Longrightarrow> edge_ok K r ks s e"
  by (auto simp: edge_ok_def)

lemma conn_edge_ok:
  assumes "fixed_shape K (ids r) ks" "conn_edges K (ids r) ks cs es" "e \<in> set es"
  shows "\<exists>p. K e = KFixed \<or> K e = KPeer p"
proof (cases "cPeer cs")
  case None
  then have "e \<in> {rmSystem r, rmTransient r, rmAllowlistedSystem r, rmAllowlistedTransient r}"
    using assms(2,3) by (auto simp: conn_edges_def split: if_splits)
  then show ?thesis using fixed_kind [OF assms(1)] by (auto simp: kind_at_def)
next
  case (Some pr)
  then obtain p where "kind_at K ks pr (KPeer p)" "e \<in> {pr, rmSystem r, rmAllowlistedSystem r}"
    using assms(2,3) by (auto simp: conn_edges_def)
  then show ?thesis using fixed_kind [OF assms(1)] by (auto simp: kind_at_def)
qed

lemma stream_edge_ok:
  assumes "fixed_shape K (ids r) ks" "stream_edges K (ids r) ks ss (ed ks s)" "e \<in> set (ed ks s)"
    and "rmStreams r s = Some ss"
  shows "edge_ok K r ks s e"
proof -
  note fx = fixed_kind [OF assms(1)]
  obtain p where p: "kind_at K ks (sPeer ss) (KPeer p)" using assms(2) by (auto simp: stream_edges_def)
  show ?thesis
  proof (cases "sProto ss")
    case None
    then have "e \<in> {sPeer ss, rmTransient r, rmSystem r}" using assms(2,3) by (auto simp: stream_edges_def)
    then show ?thesis using p fx by (auto simp: edge_ok_def kind_at_def)
  next
    case (Some pr)
    then obtain p' q pps where a: "kind_at K ks (sPeer ss) (KPeer p')" "kind_at K ks pr (KProto q)"
      "kind_at K ks pps (KSub pr p')" "case sSvc ss of
         None \<Rightarrow> ed ks s = [sPeer ss, pps, pr, fSys (ids r)]
       | Some sv \<Rightarrow> (\<exists>v sps. kind_at K ks sv (KService v) \<and> kind_at K ks sps (KSub sv p') \<and>
           ed ks s = [sPeer ss, pps, sps, pr, sv, fSys (ids r)])"
      using assms(2) unfolding stream_edges_def by auto
    show ?thesis
    proof (cases "sSvc ss")
      case None
      then show ?thesis using a fx assms(3,4) by (auto simp: edge_ok_def kind_at_def)
    next
      case (Some sv)
      then show ?thesis using a fx assms(3,4) by (auto simp: edge_ok_def kind_at_def)
    qed
  qed
qed

lemma edge_kind:
  assumes sh: "shapes K r ks" and s: "s < length ks" "\<not> dn ks s" "ow ks s = None" and e: "e \<in> set (ed ks s)"
  shows "edge_ok K r ks s e"
proof -
  note sd = shapesD [OF sh]
  note fx = fixed_kind [OF sd(1)]
  show ?thesis
  proof (cases "K s")
    case KFixed
    then have "s \<in> set (fixed_scopes (ids r))" using sd(1) s(1) unfolding fixed_shape_def kind_at_def by blast
    then have "e \<in> {rmSystem r, rmAllowlistedSystem r}"
      using sd(1) e by (auto simp: fixed_shape_def fixed_scopes_def)
    then show ?thesis using fx by (auto simp: edge_ok_def kind_at_def)
  next
    case (KPeer p)
    then have "e = rmSystem r" using peer_shapeD(1) [OF sd(3), of s p] s e by (simp add: kind_at_def)
    then show ?thesis using fx by (auto simp: edge_ok_def kind_at_def)
  next
    case (KProto q)
    then have "e = rmSystem r" using group_shapeD(1) [OF sd(4), of s q] s e by (simp add: kind_at_def)
    then show ?thesis using fx by (auto simp: edge_ok_def kind_at_def)
  next
    case (KService v)
    then have "e = rmSystem r" using group_shapeD(1) [OF sd(5), of s v] s e by (simp add: kind_at_def)
    then show ?thesis using fx by (auto simp: edge_ok_def kind_at_def)
  next
    case (KSub o' p)
    then show ?thesis using sd(6) s e unfolding sub_shape_def kind_at_def by fastforce
  next
    case KConn
    then obtain cs where cs: "rmConns r s = Some cs"
      using conn_shapeD(1) [OF sd(7), of s] s by (auto simp: kind_at_def)
    obtain p where "K e = KFixed \<or> K e = KPeer p"
      using conn_edge_ok [OF sd(1) conn_shapeD(2) [OF sd(7) cs s(2)] e] by blast
    then show ?thesis by (auto simp: edge_ok_def)
  next
    case KStream
    then obtain ss where ss: "rmStreams r s = Some ss"
      using stream_shapeD(1) [OF sd(8), of s] s by (auto simp: kind_at_def)
    show ?thesis by (rule stream_edge_ok [OF sd(1) stream_shapeD(2) [OF sd(8) ss s(2)] e ss])
  next
    case KSpan
    then show ?thesis using sd(2) s by (simp add: root_shape_def)
  qed
qed

lemma holder_edge:
  assumes k: "kept K r own pend held" and x: "x \<in> holders (rmStore r) c"
  shows "edge_ok K r (rks r) x c"
  using x by (intro edge_kind [OF keptD(1) [OF k]]) (auto simp: holders_def skeleton_fields)

lemma no_holders:
  assumes k: "kept K r own pend held" and c: "K c = KConn \<or> K c = KStream \<or> K c = KSpan"
  shows "holders (rmStore r) c = {}"
  using holder_edge [OF k, of _ c] c by (auto simp: edge_ok_def)

lemma kind_root:
  assumes k: "kept K r own pend held" and c: "kind_at K (rks r) c kd" "kd \<noteq> KSpan"
  shows "c < length (rmStore r)" "scOwner (rmStore r ! c) = None"
proof -
  show lt: "c < length (rmStore r)" using c by (auto simp: kind_at_def)
  have "ow (rks r) c = None"
    using shapesD(2) [OF keptD(1) [OF k]] c lt unfolding root_shape_def kind_at_def by auto
  then show "scOwner (rmStore r ! c) = None" using lt by (simp add: skeleton_fields)
qed

section \<open>What a move reserves and releases\<close>

lemma chain_prefix:
  assumes "map skel st' = map skel st @ ext" "x < length st"
  shows "chain st' x = chain st x"
proof -
  have len: "length st \<le> length st'" using arg_cong [OF assms(1), of length] by simp
  have nth: "skel (st' ! y) = skel (st ! y)" if "y < length st" for y
  proof -
    have "map skel st' ! y = map skel st ! y" using that by (simp add: assms(1) nth_append)
    then show ?thesis using that len by simp
  qed
  show ?thesis
    using assms(2)
  proof (induction x rule: less_induct)
    case (less x)
    then show ?case
      using nth [OF less.prems] len
      by (simp add: chain.simps [of st x] chain.simps [of st' x] skel_def split: option.split)
  qed
qed

lemma grown_held_below:
  assumes g: "grown K r K' r'" and snd: "sound (rmStore r) own"
  shows "held_below (rmStore r') (own k) c = held_below (rmStore r) (own k) c"
proof -
  obtain ext where ext: "rks r' = rks r @ ext" using g by (auto simp: grown_def)
  have "below (rmStore r) c = below (rmStore r') c \<inter> {x. x < length (rmStore r)}"
    using chain_prefix [OF ext] grownD(5) [OF g] by (auto simp: below_def)
  moreover have "own k x = 0" if "\<not> x < length (rmStore r)" for x using snd that by (simp add: sound_def)
  ultimately show ?thesis unfolding held_below_def by (intro sum.mono_neutral_right) auto
qed

lemma recount_held_below:
  "recount r r' \<Longrightarrow> held_below (rmStore r') own c = held_below (rmStore r) own c"
  using graph_skeleton(5) [of "rmStore r" "rmStore r'"] recountD(1) by auto

text \<open>The usage of a scope nobody has as an edge is what is held below it.\<close>

lemma stat_held:
  assumes k: "kept K r own pend held" and c: "c < length (rmStore r)" "\<not> scDone (rmStore r ! c)"
    and "holders (rmStore r) c = {}" "\<And>k. pend k c = 0"
  shows "cval k (scRC (rmStore r ! c)) = held_below (rmStore r) (own k) c"
  using keptD(8) [OF k] c assms(4,5) by (simp add: balanced_def usage_def)

lemma held_below_nonneg: "sound st own \<Longrightarrow> 0 \<le> held_below st (own k) c"
  by (auto simp: held_below_def sound_def intro: sum_nonneg)

text \<open>On a scope that does not count it yet there is room for it: everything held together fits
  a counter.\<close>

lemma kept_room:
  assumes k: "kept K r own pend held"
    and p: "p < length (rmStore r)" "\<not> scDone (rmStore r ! p)" "scOwner (rmStore r ! p) = None" "pend kk p = 0"
    and c: "scOwner (rmStore r ! c) = None" "p \<noteq> c" "p \<notin> set (scEdges (rmStore r ! c))"
  shows "cval kk (scRC (rmStore r ! p)) + held_below (rmStore r) (own kk) c \<le> MaxHeld"
proof -
  let ?st = "rmStore r"
  note wf = keptD(6) [OF k]
  have "x \<notin> reached ?st p" if x: "x \<in> below ?st c" for x
  proof
    assume "x \<in> reached ?st p"
    then have "p \<in> set (chain ?st x) \<or> (\<exists>y \<in> set (chain ?st x). scOwner (?st ! y) = None \<and> p \<in> set (scEdges (?st ! y)))"
      by (auto simp: reached_def released_iff)
    moreover have cx: "c \<in> set (chain ?st x)" using x by (simp add: below_def)
    ultimately show False
      using chain_one_root [of _ ?st x c, OF _ cx _ c(1)] p(3) c(2,3) by metis
  qed
  then have "(\<Sum>x \<in> reached ?st p. own kk x) + (\<Sum>x \<in> below ?st c. own kk x) =
      (\<Sum>x \<in> reached ?st p \<union> below ?st c. own kk x)"
    by (intro sum.union_disjoint [symmetric]) auto
  also have "\<dots> \<le> (\<Sum>x < length ?st. own kk x)"
    using keptD(3) [OF k] by (intro sum_mono2) (auto simp: reached_def below_def sound_def)
  also have "\<dots> \<le> MaxHeld" using keptD(3) [OF k] by (simp add: sound_def)
  finally show ?thesis
    using keptD(8) [OF k] p by (simp add: balanced_def usage_reached [OF wf] held_below_def)
qed

lemma kept_enough:
  assumes k: "kept K r own pend held" and c: "c \<in> holders (rmStore r) p"
    and p: "\<not> scDone (rmStore r ! p)" "pend kk p = 0"
  shows "held_below (rmStore r) (own kk) c \<le> cval kk (scRC (rmStore r ! p))"
proof -
  let ?st = "rmStore r"
  have lt: "p < length ?st" using holder_edge_root [OF keptD(6) [OF k] c] by simp
  have "held_below ?st (own kk) c \<le> (\<Sum>x \<in> holders ?st p. held_below ?st (own kk) x)"
    using c held_below_nonneg [OF keptD(3) [OF k]] by (intro member_le_sum) auto
  then show ?thesis
    using keptD(8) [OF k] lt p held_below_nonneg [OF keptD(3) [OF k], of kk p]
    by (simp add: balanced_def usage_def)
qed

text \<open>The new edges close the account.\<close>

lemma skel_with_edges:
  "c < length st \<Longrightarrow> map skel (with_edges st c es) = (map skel st)[c := (scDone (st ! c), scOwner (st ! c), es)]"
  by (simp add: with_edges_def map_update skel_def)

lemma kept_edges:
  assumes k: "kept K r own pend held" and c: "c < length (rmStore r)" "scOwner (rmStore r ! c) = None" "\<not> scDone (rmStore r ! c)"
    and es: "may_hold (rmStore r) es" "c \<notin> set es"
    and r': "rmStore r' = with_edges (rmStore r) c es" "ids r' = ids r"
    and sh: "shapes K r' ((rks r)[c := (False, None, es)])"
    and pend: "\<And>kk p. pend kk p + moved (rmStore r) c es p * held_below (rmStore r) (own kk) c = 0"
    and held: "\<And>p. held p + moved (rmStore r) c es p = held' p"
  shows "kept K r' own settled held'"
proof -
  let ?st = "rmStore r"
  have "books (with_edges ?st c es) own (\<lambda>kk p. pend kk p + moved ?st c es p * held_below ?st (own kk) c)
      (\<lambda>p. (base_refs (ids r) p + held p) + moved ?st c es p)"
    using es by (intro with_edges_books [OF keptD(2) [OF k] c]) (auto simp: may_hold_def)
  moreover have "(\<lambda>kk p. pend kk p + moved ?st c es p * held_below ?st (own kk) c) = settled"
    by (intro ext) (rule pend)
  moreover have "(\<lambda>p. (base_refs (ids r) p + held p) + moved ?st c es p) = (\<lambda>p. base_refs (ids r) p + held' p)"
    by (intro ext) (simp add: held [symmetric])
  ultimately have bk: "books (with_edges ?st c es) own settled (\<lambda>p. base_refs (ids r) p + held' p)"
    by simp
  have "rks r' = (rks r)[c := (False, None, es)]" using c by (simp add: r' skel_with_edges)
  moreover have "held' p = 0" if p: "length ?st \<le> p" for p
  proof -
    have "moved ?st c es p = 0"
      using p es(1) wf_graph_edges(3) [OF keptD(6) [OF k] c(1), of p] by (auto simp: moved_def may_hold_def)
    then show ?thesis using held [of p] keptD(4) [OF k p] by simp
  qed
  moreover have fit: "all_fit (with_edges ?st c es)" by (rule all_fit_same [OF keptD(10) [OF k]]) simp_all
  ultimately show ?thesis
    using bk sh keptD(3) [OF k] fit unfolding kept_def r' by (simp add: sound_def)
qed

section \<open>What a move leaves alone\<close>

definition steady :: "resourceManager \<Rightarrow> resourceManager \<Rightarrow> bool" where
  "steady r r' \<longleftrightarrow> length (rmStore r) \<le> length (rmStore r') \<and>
     (\<forall>s < length (rmStore r). scDone (rmStore r' ! s) = scDone (rmStore r ! s)) \<and>
     (\<forall>s. map_option cIP (rmConns r' s) = map_option cIP (rmConns r s)) \<and>
     rmConnLimiter r' = rmConnLimiter r \<and> ids r' = ids r"

lemma steady_trans: "steady r r' \<Longrightarrow> steady r' r'' \<Longrightarrow> steady r r''"
  by (auto simp: steady_def)

lemma grown_steady: "grown K r K' r' \<Longrightarrow> steady r r'"
  using grownD [of K r K' r'] grown_same [of K r K' r'] by (auto simp: steady_def)

lemma recount_steady: "recount r r' \<Longrightarrow> steady r r'"
  by (rule grown_steady [OF grown_recount]) (auto simp: recount_limiter)

text \<open>The state of a move: the scope that moves, what is held below it, and a manager in which
  nothing is settled yet.\<close>

definition movable :: "kinds \<Rightarrow> resourceManager \<Rightarrow> sid \<Rightarrow> bool" where
  "movable K r c \<longleftrightarrow> c < length (rmStore r) \<and> scOwner (rmStore r ! c) = None \<and> \<not> scDone (rmStore r ! c) \<and>
     (K c = KConn \<or> K c = KStream)"

lemma movable_grown: "movable K r c \<Longrightarrow> grown K r K' r' \<Longrightarrow> movable K' r' c"
  using grown_same [of K r K' r' c] by (auto simp: movable_def grown_def)

lemma movable_recount: "movable K r c \<Longrightarrow> recount r r' \<Longrightarrow> movable K r' c"
  by (rule movable_grown [OF _ grown_recount]) (auto simp: recount_limiter)

lemma movable_stat:
  assumes k: "kept K r own pend held" and m: "movable K r c" and z: "\<And>kk. pend kk c = 0"
  shows "sval kk (stat (scRC (rmStore r ! c))) = held_below (rmStore r) (own kk) c"
  using stat_held [OF k _ _ no_holders [OF k] z] m by (auto simp: movable_def)

lemma kept_reserve_edge:
  assumes k: "kept K r own pend held" and m: "movable K r c"
    and q: "\<And>kk. sval kk q = held_below (rmStore r) (own kk) c"
    and s: "kind_at K (rks r) s kd" "kd \<notin> {KConn, KStream, KSpan}" "\<not> scDone (rmStore r ! s)"
      "s \<notin> set (scEdges (rmStore r ! c))" "\<And>kk. pend kk s = 0"
  shows "(\<exists>e. rm_ReserveForChild r s q = Some (Some e, r)) \<or>
    (\<exists>r'. rm_ReserveForChild r s q = Some (None, r') \<and> recount r r' \<and>
      kept K r' own (bump pend s (\<lambda>kk. held_below (rmStore r) (own kk) c)) held)"
proof -
  have root: "s < length (rmStore r)" "scOwner (rmStore r ! s) = None" using kind_root [OF k s(1)] s(2) by auto
  have "s \<noteq> c" using s(1,2) m by (auto simp: movable_def kind_at_def)
  then have "0 \<le> sval kk q \<and> cval kk (scRC (rmStore r ! s)) + sval kk q \<le> MaxHeld" for kk
    using kept_room [OF k root(1) s(3) root(2) s(5) _ _ s(4)] m held_below_nonneg [OF keptD(3) [OF k]] q
    by (auto simp: movable_def)
  then show ?thesis using kept_Reserve [OF k root(1), of q] unfolding q by blast
qed

lemma kept_release_edge:
  assumes k: "kept K r own pend held" and m: "movable K r c"
    and q: "\<And>kk. sval kk q = held_below (rmStore r) (own kk) c"
    and s: "s \<in> set (scEdges (rmStore r ! c))" "\<And>kk. pend kk s = 0"
  shows "\<exists>r' r''. rm_ReleaseForChild r s q = Some r' \<and> rm_DecRef r' s = Some r'' \<and> recount r r'' \<and>
    kept K r'' own (bump pend s (\<lambda>kk. - held_below (rmStore r) (own kk) c)) (held(s := held s - 1))"
proof -
  have h: "c \<in> holders (rmStore r) s" using m s(1) by (simp add: movable_def holders_def)
  have lt: "s < length (rmStore r)" using holder_edge_root [OF keptD(6) [OF k] h] by simp
  have op: "\<not> scDone (rmStore r ! s)" using keptD(7) [OF k] m s(1) by (auto simp: edges_open_def movable_def)
  have "0 \<le> sval kk q \<and> sval kk q \<le> cval kk (scRC (rmStore r ! s))" for kk
    using kept_enough [OF k h op s(2)] held_below_nonneg [OF keptD(3) [OF k]] by (simp add: q)
  then obtain r' where r': "rm_ReleaseForChild r s q = Some r'" "recount r r'"
    "kept K r' own (bump pend s (\<lambda>kk. - held_below (rmStore r) (own kk) c)) held"
    using kept_Release [OF k lt op, of q] unfolding q by blast
  obtain r'' where "rm_DecRef r' s = Some r''" "recount r' r''"
    "kept K r'' own (bump pend s (\<lambda>kk. - held_below (rmStore r) (own kk) c)) (held(s := held s - 1))"
    using kept_DecRef [OF r'(3)] lt recountD(13) [OF r'(2)] by auto
  then show ?thesis using r' recount_trans by blast
qed

lemma set_edges_total: "c < length (rmStore r) \<Longrightarrow> set_edges r c es = Some (r\<lparr>rmStore := with_edges (rmStore r) c es\<rparr>)"
  by (simp add: set_edges_def with_edges_def)

section \<open>SetPeer\<close>

lemma shapes_conn:
  assumes "shapes K r ks" "kind_at K ks c KConn" "ow ks c = None" "conn_edges K (ids r) ks cs es"
  shows "shapes K (r\<lparr>rmConns := (rmConns r)(c \<mapsto> cs)\<rparr>) (ks[c := (False, None, es)])"
  using shapesD [OF assms(1)] assms(2-4)
  by (simp add: shapes_def kind_at_def fixed_upd root_upd peer_upd group_upd_other sub_upd_other conn_upd_at stream_upd)

lemma shapes_stream:
  assumes "shapes K r ks" "kind_at K ks s KStream" "ow ks s = None" "stream_edges K (ids r) ks ss es"
  shows "shapes K (r\<lparr>rmStreams := (rmStreams r)(s \<mapsto> ss)\<rparr>) (ks[s := (False, None, es)])"
  using shapesD [OF assms(1)] assms(2-4)
  by (simp add: shapes_def kind_at_def fixed_upd root_upd peer_upd group_upd_other sub_upd_other conn_upd stream_upd_at)

text \<open>The pair of scopes a connection without a peer is counted against.\<close>

definition home :: "resourceManager \<Rightarrow> sid \<Rightarrow> sid \<Rightarrow> bool" where
  "home r sys tr \<longleftrightarrow> sys = rmSystem r \<and> tr = rmTransient r \<or>
     sys = rmAllowlistedSystem r \<and> tr = rmAllowlistedTransient r"

lemma home_facts:
  assumes k: "kept K r own pend held" and h: "home r sys tr"
  shows "kind_at K (rks r) sys KFixed" "kind_at K (rks r) tr KFixed" "sys \<noteq> tr"
    "\<not> scDone (rmStore r ! sys)" "\<not> scDone (rmStore r ! tr)"
proof -
  have in_fixed: "sys \<in> set (fixed_scopes (ids r))" "tr \<in> set (fixed_scopes (ids r))"
    using h by (auto simp: home_def fixed_scopes_def)
  then show "kind_at K (rks r) sys KFixed" "kind_at K (rks r) tr KFixed" "\<not> scDone (rmStore r ! sys)"
    "\<not> scDone (rmStore r ! tr)"
    using fixed_scope [OF k] by blast+
  have "distinct (fixed_scopes (ids r))"
    using shapesD(1) [OF keptD(1) [OF k]] by (simp add: fixed_shape_def)
  then show "sys \<noteq> tr" using h by (auto simp: home_def fixed_scopes_def)
qed

lemma movable_conn:
  assumes k: "kept K r own pend held" and c: "rmConns r c = Some cs" "\<not> scDone (rmStore r ! c)"
  shows "movable K r c" "kind_at K (rks r) c KConn"
proof -
  show kc: "kind_at K (rks r) c KConn" using conn_shapeD(1) [OF shapesD(7) [OF keptD(1) [OF k]]] c by simp
  then show "movable K r c"
    using kind_root [OF k kc] c(2) by (auto simp: movable_def kind_at_def)
qed

lemma may_holdI:
  assumes "kept K r own pend held" "distinct es"
    and "\<And>e. e \<in> set es \<Longrightarrow> \<exists>kd. kind_at K (rks r) e kd \<and> kd \<noteq> KSpan \<and> \<not> scDone (rmStore r ! e)"
  shows "may_hold (rmStore r) es"
  unfolding may_hold_def using assms kind_root [OF assms(1)] by metis

lemma finish_conn:
  assumes k: "kept K r own pend held" and m: "movable K r c" "kind_at K (rks r) c KConn"
    and es: "may_hold (rmStore r) es" "c \<notin> set es" "conn_edges K (ids r) (rks r) cs es"
    and pend: "\<And>kk p. pend kk p + moved (rmStore r) c es p * held_below (rmStore r) (own kk) c = 0"
    and held: "\<And>p. held p + moved (rmStore r) c es p = held' p"
    and r': "r' = r\<lparr>rmStore := with_edges (rmStore r) c es, rmConns := (rmConns r)(c \<mapsto> cs)\<rparr>"
  shows "kept K r' own settled held'"
    "rmConns r c = Some cs0 \<Longrightarrow> cIP cs = cIP cs0 \<Longrightarrow> steady r r'"
proof -
  have c: "c < length (rmStore r)" "scOwner (rmStore r ! c) = None" "\<not> scDone (rmStore r ! c)"
    using m by (auto simp: movable_def)
  have "shapes K r' ((rks r)[c := (False, None, es)])"
    using shapes_conn [OF keptD(1) [OF k] m(2) _ es(3)] c unfolding r'
    by (simp add: shapes_def skeleton_fields)
  then show "kept K r' own settled held'"
    using pend held by (intro kept_edges [OF k c es(1,2)]) (simp_all add: r')
  show "rmConns r c = Some cs0 \<Longrightarrow> cIP cs = cIP cs0 \<Longrightarrow> steady r r'"
    by (simp add: steady_def r')
qed

lemma finish_stream:
  assumes k: "kept K r own pend held" and m: "movable K r c" "kind_at K (rks r) c KStream"
    and es: "may_hold (rmStore r) es" "c \<notin> set es" "stream_edges K (ids r) (rks r) ss es"
    and pend: "\<And>kk p. pend kk p + moved (rmStore r) c es p * held_below (rmStore r) (own kk) c = 0"
    and held: "\<And>p. held p + moved (rmStore r) c es p = held' p"
    and r': "r' = r\<lparr>rmStore := with_edges (rmStore r) c es, rmStreams := (rmStreams r)(c \<mapsto> ss)\<rparr>"
  shows "kept K r' own settled held'" "steady r r'"
proof -
  have c: "c < length (rmStore r)" "scOwner (rmStore r ! c) = None" "\<not> scDone (rmStore r ! c)"
    using m by (auto simp: movable_def)
  have "shapes K r' ((rks r)[c := (False, None, es)])"
    using shapes_stream [OF keptD(1) [OF k] m(2) _ es(3)] c unfolding r'
    by (simp add: shapes_def skeleton_fields)
  then show "kept K r' own settled held'"
    using pend held by (intro kept_edges [OF k c es(1,2)]) (simp_all add: r')
  show "steady r r'" by (simp add: steady_def r')
qed

lemma move_to_peer_after:
  assumes "getPeerScope r p = Some (peer, r1)" "c < length (rmStore r1)" "rmConns r1 c = Some cs"
  shows "move_to_peer r c p sys tr = (do {
      (err, r2) \<leftarrow> rm_ReserveForChild r1 peer (stat (scRC (rmStore r1 ! c)));
      case err of
        Some e \<Rightarrow> do { r3 \<leftarrow> rm_DecRef r2 peer; Some (Some (ErrScope e), r3) }
      | None \<Rightarrow> do {
          r3 \<leftarrow> rm_ReleaseForChild r2 tr (stat (scRC (rmStore r1 ! c)));
          r4 \<leftarrow> rm_DecRef r3 tr;
          r5 \<leftarrow> set_edges r4 c [peer, sys];
          Some (None, r5\<lparr>rmConns := (rmConns r5)(c \<mapsto> cs\<lparr>cPeer := Some peer\<rparr>)\<rparr>) } })"
  using assms by (simp add: move_to_peer_def Let_def)

lemma kept_move_to_peer:
  assumes k: "kept K r own settled held" and c: "rmConns r c = Some cs" "\<not> scDone (rmStore r ! c)"
    and es: "set (scEdges (rmStore r ! c)) = {sys, tr}" and h: "home r sys tr"
  shows "\<exists>e r' K'. move_to_peer r c p sys tr = Some (e, r') \<and> kept K' r' own settled held \<and> steady r r'"
proof -
  obtain peer r1 K1 where peer: "getPeerScope r p = Some (peer, r1)" and g: "got K r own settled held (KPeer p) peer K1 r1"
    using kept_getPeerScope [OF k] by blast
  note gd = g [unfolded got_def]
  have k1: "kept K1 r1 own settled (held(peer := held peer + 1))" and gr: "grown K r K1 r1"
    and kp: "kind_at K1 (rks r1) peer (KPeer p)" "\<not> scDone (rmStore r1 ! peer)" using gd by auto
  have m: "movable K1 r1 c" and kc: "kind_at K1 (rks r1) c KConn"
    using movable_conn [OF k c] movable_grown [OF _ gr] grownD(6) [OF gr] by blast+
  have c1: "rmConns r1 c = Some cs" "scEdges (rmStore r1 ! c) = scEdges (rmStore r ! c)" "home r1 sys tr"
    using grownD(1,2) [OF gr] grown_same [OF gr] movable_conn(1) [OF k c] c h
    by (auto simp: movable_def home_def ids_def)
  note hf = home_facts [OF k1 c1(3)]
  have lt: "c < length (rmStore r1)" "peer < length (rmStore r1)"
    using m kp by (auto simp: movable_def kind_at_def)
  have ne: "peer \<noteq> c" "peer \<noteq> sys" "peer \<noteq> tr" "c \<noteq> sys" "c \<noteq> tr"
    using kp kc hf(1,2) by (auto simp: kind_at_def)
  define q where "q = stat (scRC (rmStore r1 ! c))"
  define hb where "hb = (\<lambda>kk. held_below (rmStore r1) (own kk) c)"
  have q: "sval kk q = hb kk" for kk unfolding q_def hb_def by (rule movable_stat [OF k1 m]) simp
  note step = move_to_peer_after [OF peer lt(1) c1(1), of sys tr, folded q_def]
  have "peer \<notin> set (scEdges (rmStore r1 ! c))" using es ne by (simp add: c1)
  then consider (no) e where "rm_ReserveForChild r1 peer q = Some (Some e, r1)"
    | (yes) r2 where "rm_ReserveForChild r1 peer q = Some (None, r2)" "recount r1 r2"
        "kept K1 r2 own (bump settled peer hb) (held(peer := held peer + 1))"
    using kept_reserve_edge [OF k1 m, of q peer "KPeer p"] kp q unfolding hb_def by auto
  then show ?thesis
  proof cases
    case no
    obtain r3 where r3: "rm_DecRef r1 peer = Some r3" "recount r1 r3" "kept K1 r3 own settled held"
      using kept_DecRef [OF k1 lt(2)] by auto
    then show ?thesis
      using step no steady_trans [OF grown_steady [OF gr] recount_steady [OF r3(2)]] by auto
  next
    case yes
    have m2: "movable K1 r2 c" by (rule movable_recount [OF m yes(2)])
    have e2: "scEdges (rmStore r2 ! c) = scEdges (rmStore r ! c)"
      using c1(2) recountD(1,13) [OF yes(2)] lt(1) by (metis skeleton_fields(3))
    have hb2: "held_below (rmStore r2) (own kk) c = hb kk" for kk
      unfolding hb_def by (rule recount_held_below [OF yes(2)])
    obtain r3 r4 where r4: "rm_ReleaseForChild r2 tr q = Some r3" "rm_DecRef r3 tr = Some r4" "recount r2 r4"
      and k4: "kept K1 r4 own (bump (bump settled peer hb) tr (\<lambda>kk. - hb kk)) (held(peer := held peer + 1, tr := held tr - 1))"
      using kept_release_edge [OF yes(3) m2, of q tr] ne es by (auto simp: hb2 q e2 bump_def)
    note rc = recount_trans [OF yes(2) r4(3)]
    have same: "scDone (rmStore r4 ! x) = scDone (rmStore r1 ! x) \<and> scEdges (rmStore r4 ! x) = scEdges (rmStore r1 ! x)"
      if "x < length (rmStore r1)" for x
      using that recountD(1,13) [OF rc] by (metis skeleton_fields(1,3))
    have es4: "may_hold (rmStore r4) [peer, sys]"
      using kp hf ne same by (intro may_holdI [OF k4]) (auto simp: recountD(1) [OF rc] kind_at_def)
    have ce: "conn_edges K1 (ids r4) (rks r4) (cs\<lparr>cPeer := Some peer\<rparr>) [peer, sys]"
      using kp(1) c1(3) recountD(1,2) [OF rc] by (auto simp: conn_edges_def home_def)
    have hb4: "held_below (rmStore r4) (own kk) c = hb kk" for kk
      unfolding hb_def by (rule recount_held_below [OF rc])
    have mv: "moved (rmStore r4) c [peer, sys] x = (if x = tr then 1 else 0) - (if x = peer then 1 else 0)" for x
      using same [OF lt(1)] es ne hf(3) by (auto simp: moved_def c1(2))
    define r5 where "r5 = r4\<lparr>rmStore := with_edges (rmStore r4) c [peer, sys],
      rmConns := (rmConns r4)(c \<mapsto> cs\<lparr>cPeer := Some peer\<rparr>)\<rparr>"
    have kc4: "kind_at K1 (rks r4) c KConn" by (simp add: recountD(1) [OF rc] kc)
    have fin: "kept K1 r5 own settled held" "steady r4 r5"
    proof -
      show "kept K1 r5 own settled held"
        using ne by (intro finish_conn(1) [OF k4 movable_recount [OF m rc] kc4 es4 _ ce _ _ r5_def])
          (auto simp: mv hb4 bump_def)
      show "steady r4 r5"
        using c1(1) ne by (intro finish_conn(2) [OF k4 movable_recount [OF m rc] kc4 es4 _ ce _ _ r5_def])
          (auto simp: mv hb4 bump_def recountD(3) [OF rc])
    qed
    have "move_to_peer r c p sys tr = Some (None, r5)"
      using step yes(1) r4(1,2) lt(1) recountD(13) [OF rc] by (simp add: set_edges_total r5_def)
    moreover have "steady r r5"
      using steady_trans [OF grown_steady [OF gr] steady_trans [OF recount_steady [OF rc] fin(2)]] .
    ultimately show ?thesis using fin(1) by blast
  qed
qed

text \<open>A reservation that no edge explains yet can be given back.\<close>

lemma kept_unreserve:
  assumes k: "kept K r own pend held" and s: "kind_at K (rks r) s kd" "\<not> scDone (rmStore r ! s)"
    and q: "\<And>kk. sval kk q = d kk" "\<And>kk. 0 \<le> d kk" "\<And>kk. pend kk s = d kk"
  shows "\<exists>r' r''. rm_ReleaseForChild r s q = Some r' \<and> rm_DecRef r' s = Some r'' \<and> recount r r'' \<and>
    kept K r'' own (bump pend s (\<lambda>kk. - d kk)) (held(s := held s - 1))"
proof -
  have lt: "s < length (rmStore r)" using s(1) by (simp add: kind_at_def)
  have "d kk \<le> cval kk (scRC (rmStore r ! s))" for kk
    using keptD(8) [OF k] lt s(2) q(3) usage_bounds [OF keptD(6) [OF k] keptD(3) [OF k] s(2), of kk]
    by (simp add: balanced_def)
  then obtain r' where r': "rm_ReleaseForChild r s q = Some r'" "recount r r'"
      "kept K r' own (bump pend s (\<lambda>kk. - d kk)) held"
    using kept_Release [OF k lt s(2), of q] q(1,2) by auto
  obtain r'' where "rm_DecRef r' s = Some r''" "recount r' r''"
      "kept K r'' own (bump pend s (\<lambda>kk. - d kk)) (held(s := held s - 1))"
    using kept_DecRef [OF r'(3)] lt recountD(13) [OF r'(2)] by auto
  then show ?thesis using r' recount_trans by blast
qed

abbreviation leave_edge :: "ScopeStat \<Rightarrow> resourceManager \<Rightarrow> sid \<Rightarrow> resourceManager option" where
  "leave_edge q \<equiv> (\<lambda>r e. do { r' \<leftarrow> rm_ReleaseForChild r e q; rm_DecRef r' e })"

lemma leave_edges_conns:
  "forEach (leave_edge q) (r\<lparr>rmConns := m\<rparr>) es = map_option (\<lambda>r. r\<lparr>rmConns := m\<rparr>) (forEach (leave_edge q) r es)"
proof (induction es arbitrary: r)
  case (Cons e es)
  have one: "leave_edge q (r\<lparr>rmConns := m\<rparr>) e = map_option (\<lambda>r. r\<lparr>rmConns := m\<rparr>) (leave_edge q r e)"
    by (simp add: rm_ReleaseForChild_def rm_DecRef_def map_option_bind)
       (auto simp: bind_eq_None_conv  split: Option.bind_splits)
  show ?case
    unfolding forEach.simps one using Cons.IH by (cases "leave_edge q r e") simp_all
qed simp

lemma kept_leave_edges:
  assumes "kept K r own pend held" "movable K r c" "\<And>kk. sval kk q = held_below (rmStore r) (own kk) c"
    and "distinct es" "set es \<subseteq> set (scEdges (rmStore r ! c))" "\<And>kk e. e \<in> set es \<Longrightarrow> pend kk e = 0"
  shows "\<exists>r'. forEach (leave_edge q) r es = Some r' \<and> recount r r' \<and>
    kept K r' own (\<lambda>kk p. pend kk p - (if p \<in> set es then held_below (rmStore r) (own kk) c else 0))
      (\<lambda>p. held p - (if p \<in> set es then 1 else 0))"
  using assms
proof (induction es arbitrary: r pend held)
  case Nil
  then show ?case by (simp add: recount_refl)
next
  case (Cons e es)
  obtain r1 r2 where r2: "rm_ReleaseForChild r e q = Some r1" "rm_DecRef r1 e = Some r2" "recount r r2"
      "kept K r2 own (bump pend e (\<lambda>kk. - held_below (rmStore r) (own kk) c)) (held(e := held e - 1))"
    using kept_release_edge [OF Cons.prems(1-3), of e] Cons.prems(5,6) by auto
  have hb: "held_below (rmStore r2) (own kk) c = held_below (rmStore r) (own kk) c" for kk
    by (rule recount_held_below [OF r2(3)])
  have "scEdges (rmStore r2 ! c) = scEdges (rmStore r ! c)"
    using Cons.prems(2) recountD(1,13) [OF r2(3)] unfolding movable_def by (metis skeleton_fields(3))
  moreover have "bump pend e (\<lambda>kk. - held_below (rmStore r) (own kk) c) kk x = 0" if "x \<in> set es" for kk x
    using Cons.prems(4,6) that by (auto simp: bump_def)
  ultimately obtain r3 where r3: "forEach (leave_edge q) r2 es = Some r3" "recount r2 r3"
      "kept K r3 own (\<lambda>kk p. bump pend e (\<lambda>kk. - held_below (rmStore r) (own kk) c) kk p -
         (if p \<in> set es then held_below (rmStore r) (own kk) c else 0))
       (\<lambda>p. (held(e := held e - 1)) p - (if p \<in> set es then 1 else 0))"
    using Cons.IH [OF r2(4) movable_recount [OF Cons.prems(2) r2(3)], unfolded hb] Cons.prems(3-5) by auto
  have "(\<lambda>kk p. bump pend e (\<lambda>kk. - held_below (rmStore r) (own kk) c) kk p -
         (if p \<in> set es then held_below (rmStore r) (own kk) c else 0)) =
      (\<lambda>kk p. pend kk p - (if p \<in> set (e # es) then held_below (rmStore r) (own kk) c else 0))"
    "(\<lambda>p. (held(e := held e - 1)) p - (if p \<in> set es then 1 else 0)) =
      (\<lambda>p. held p - (if p \<in> set (e # es) then 1 else 0))"
    using Cons.prems(4) by (auto simp: bump_def fun_eq_iff)
  then show ?case using r2 r3 recount_trans by auto
qed

text \<open>The state \<open>transferAllowedToStandard\<close> is in when the connection has left the allowlisted
  scopes and is counted nowhere but on itself.\<close>

lemma kept_detach:
  assumes k: "kept K r own settled held" and c: "rmConns r c = Some cs" "\<not> scDone (rmStore r ! c)" "cPeer cs = None"
    and q: "q = stat (scRC (rmStore r ! c))" and r0: "r0 = r\<lparr>rmConns := (rmConns r)(c \<mapsto> cs\<lparr>cIsAllowlisted := False\<rparr>)\<rparr>"
  shows "\<exists>r1 r2. forEach (leave_edge q) r0 (scEdges (rmStore r ! c)) = Some r1 \<and> set_edges r1 c [] = Some r2 \<and>
    kept K r2 own settled held \<and> steady r r2 \<and> rmConns r2 c = Some (cs\<lparr>cIsAllowlisted := False\<rparr>) \<and>
    scEdges (rmStore r2 ! c) = [] \<and> (\<forall>kk. sval kk q = held_below (rmStore r2) (own kk) c)"
proof -
  let ?es = "scEdges (rmStore r ! c)"
  note m = movable_conn [OF k c(1,2)]
  have lt: "c < length (rmStore r)" "scOwner (rmStore r ! c) = None" using m(1) by (auto simp: movable_def)
  have di: "distinct ?es" using wf_graph_edges(1) [OF keptD(6) [OF k] lt(1)] lt(2) by simp
  have hb: "sval kk q = held_below (rmStore r) (own kk) c" for kk unfolding q by (rule movable_stat [OF k m(1)]) simp
  obtain r1 where r1: "forEach (leave_edge q) r ?es = Some r1" "recount r r1"
      "kept K r1 own (\<lambda>kk p. 0 - (if p \<in> set ?es then held_below (rmStore r) (own kk) c else 0))
        (\<lambda>p. held p - (if p \<in> set ?es then 1 else 0))"
    using kept_leave_edges [OF k m(1) hb di] by auto
  define r2 where "r2 = r1\<lparr>rmStore := with_edges (rmStore r1) c [], rmConns := (rmConns r1)(c \<mapsto> cs\<lparr>cIsAllowlisted := False\<rparr>)\<rparr>"
  have e1: "scEdges (rmStore r1 ! c) = ?es" "c < length (rmStore r1)"
    using lt(1) recountD(1,13) [OF r1(2)] by (metis skeleton_fields(3), simp)
  have m1: "movable K r1 c" "kind_at K (rks r1) c KConn"
    using movable_recount [OF m(1) r1(2)] m(2) recountD(1) [OF r1(2)] by simp_all
  have hb1: "held_below (rmStore r1) (own kk) c = held_below (rmStore r) (own kk) c" for kk
    by (rule recount_held_below [OF r1(2)])
  have es: "may_hold (rmStore r1) []" "conn_edges K (ids r1) (rks r1) (cs\<lparr>cIsAllowlisted := False\<rparr>) []"
    using c(3) by (simp_all add: may_hold_def conn_edges_def)
  have k2: "kept K r2 own settled held"
    by (rule finish_conn(1) [OF r1(3) m1 es(1) _ es(2) _ _ r2_def]) (auto simp: moved_def e1 hb1)
  have "steady r1 r2"
    using c(1) by (intro finish_conn(2) [OF r1(3) m1 es(1) _ es(2) _ _ r2_def])
      (auto simp: moved_def e1 hb1 recountD(3) [OF r1(2)])
  then have st: "steady r r2" using steady_trans recount_steady [OF r1(2)] by blast
  have "set_edges (r1\<lparr>rmConns := (rmConns r)(c \<mapsto> cs\<lparr>cIsAllowlisted := False\<rparr>)\<rparr>) c [] = Some r2"
    using e1(2) by (simp add: set_edges_def r2_def with_edges_def recountD(3) [OF r1(2)])
  moreover have "rmConns r2 c = Some (cs\<lparr>cIsAllowlisted := False\<rparr>)" "scEdges (rmStore r2 ! c) = []"
    using e1(2) by (simp_all add: r2_def with_edges_def)
  moreover have "sval kk q = held_below (rmStore r2) (own kk) c" for kk
    using with_edges_graph(4) [of c "rmStore r1" "[]"] m1(1) by (simp add: r2_def hb hb1 movable_def)
  ultimately show ?thesis using r1(1) k2 st unfolding r0 by (auto simp: leave_edges_conns)
qed

text \<open>The second half of \<open>transferAllowedToStandard\<close>.\<close>

definition attach :: "resourceManager \<Rightarrow> sid \<Rightarrow> ScopeStat \<Rightarrow> (rcmgr_error option \<times> resourceManager) option" where
  "attach r2 c q = do {
     (err, r3) \<leftarrow> rm_ReserveForChild r2 (rmSystem r2) q;
     case err of
       Some e \<Rightarrow> Some (Some e, r3)
     | None \<Rightarrow> do {
         r4 \<leftarrow> rm_IncRef r3 (rmSystem r2);
         (err', r5) \<leftarrow> rm_ReserveForChild r4 (rmTransient r2) q;
         case err' of
           Some e \<Rightarrow> do {
             r6 \<leftarrow> rm_ReleaseForChild r5 (rmSystem r2) q;
             r7 \<leftarrow> rm_DecRef r6 (rmSystem r2);
             Some (Some e, r7) }
         | None \<Rightarrow> do {
             r6 \<leftarrow> rm_IncRef r5 (rmTransient r2);
             r7 \<leftarrow> set_edges r6 c [rmSystem r2, rmTransient r2];
             Some (None, r7) } } }"

lemma transfer_after:
  assumes "c < length (rmStore r)" "q = stat (scRC (rmStore r ! c))" "rmSystem r = rmSystem r2" "rmTransient r = rmTransient r2"
    and "forEach (leave_edge q) r (scEdges (rmStore r ! c)) = Some r1" "set_edges r1 c [] = Some r2"
  shows "transferAllowedToStandard r c = attach r2 c q"
  using assms(1,5,6) unfolding assms(2) attach_def assms(3,4) [symmetric]
  by (simp add: transferAllowedToStandard_def Let_def)

lemma steady_refl: "steady r r"
  by (simp add: steady_def)

lemma steady_edges: "steady r r' \<Longrightarrow> steady r (r'\<lparr>rmStore := with_edges (rmStore r') c es\<rparr>)"
  by (auto simp: steady_def)

lemma kept_attach:
  assumes k: "kept K r own settled held" and c: "rmConns r c = Some cs" "\<not> scDone (rmStore r ! c)" "cPeer cs = None"
      "\<not> cIsAllowlisted cs"
    and es: "scEdges (rmStore r ! c) = []" and q: "\<And>kk. sval kk q = held_below (rmStore r) (own kk) c"
  shows "\<exists>err r'. attach r c q = Some (err, r') \<and> kept K r' own settled held \<and> steady r r' \<and>
    rmConns r' c = rmConns r c \<and> (err = None \<longrightarrow> set (scEdges (rmStore r' ! c)) = {rmSystem r', rmTransient r'})"
proof -
  let ?sys = "rmSystem r" and ?tr = "rmTransient r"
  define hb where "hb = (\<lambda>kk. held_below (rmStore r) (own kk) c)"
  note m = movable_conn [OF k c(1,2)]
  have hf: "kind_at K (rks r) ?sys KFixed" "kind_at K (rks r) ?tr KFixed" "?sys \<noteq> ?tr"
      "\<not> scDone (rmStore r ! ?sys)" "\<not> scDone (rmStore r ! ?tr)"
    using home_facts [OF k, of ?sys ?tr] by (simp_all add: home_def)
  have ne: "c \<noteq> ?sys" "c \<noteq> ?tr" using m(2) hf(1,2) by (auto simp: kind_at_def)
  have q': "sval kk q = hb kk" for kk by (simp add: q hb_def)
  have hb0: "0 \<le> hb kk" for kk unfolding hb_def by (rule held_below_nonneg [OF keptD(3) [OF k]])
  have same: "scDone (rmStore r' ! x) = scDone (rmStore r ! x) \<and> scEdges (rmStore r' ! x) = scEdges (rmStore r ! x)"
    if "recount r r'" "x < length (rmStore r)" for r' x
    using that recountD(1,13) [OF that(1)] by (metis skeleton_fields(1,3))
  have lt: "c < length (rmStore r)" "?sys < length (rmStore r)" "?tr < length (rmStore r)"
    using m(2) hf(1,2) by (auto simp: kind_at_def)
  consider (no) e where "rm_ReserveForChild r ?sys q = Some (Some e, r)"
    | (yes) r3 where "rm_ReserveForChild r ?sys q = Some (None, r3)" "recount r r3" "kept K r3 own (bump settled ?sys hb) held"
    using kept_reserve_edge [OF k m(1) q hf(1)] hf es unfolding hb_def by auto
  then show ?thesis
  proof cases
    case no
    then show ?thesis using k by (auto simp: attach_def intro: steady_refl)
  next
    case yes
    obtain r4 where r4: "rm_IncRef r3 ?sys = Some r4" "recount r3 r4"
        "kept K r4 own (bump settled ?sys hb) (held(?sys := held ?sys + 1))"
      using kept_IncRef [OF yes(3), of ?sys] lt(2) recountD(13) [OF yes(2)] by auto
    note rc4 = recount_trans [OF yes(2) r4(2)]
    have hb4: "held_below (rmStore r4) (own kk) c = hb kk" for kk
      unfolding hb_def by (rule recount_held_below [OF rc4])
    have k4: "kind_at K (rks r4) x kd = kind_at K (rks r) x kd" for x kd by (simp add: recountD(1) [OF rc4])
    consider (no) e where "rm_ReserveForChild r4 ?tr q = Some (Some e, r4)"
      | (yes) r5 where "rm_ReserveForChild r4 ?tr q = Some (None, r5)" "recount r4 r5"
          "kept K r5 own (bump (bump settled ?sys hb) ?tr hb) (held(?sys := held ?sys + 1))"
      using kept_reserve_edge [OF r4(3) movable_recount [OF m(1) rc4], of q ?tr KFixed] hf es lt
      by (auto simp: hb4 k4 q' same [OF rc4] bump_def)
    then show ?thesis
    proof cases
      case no
      obtain r6 r7 where r7: "rm_ReleaseForChild r4 ?sys q = Some r6" "rm_DecRef r6 ?sys = Some r7" "recount r4 r7"
          "kept K r7 own (bump (bump settled ?sys hb) ?sys (\<lambda>kk. - hb kk)) (held(?sys := held ?sys + 1 - 1))"
        using kept_unreserve [OF r4(3), of ?sys KFixed q hb] hf lt hb0
        by (auto simp: k4 q' same [OF rc4] bump_def)
      have "bump (bump settled ?sys hb) ?sys (\<lambda>kk. - hb kk) = settled" by (auto simp: bump_def fun_eq_iff)
      then have "kept K r7 own settled held" using r7(4) by simp
      moreover note rc7 = recount_trans [OF rc4 r7(3)]
      ultimately show ?thesis
        using yes(1) r4(1) no r7(1,2) recount_steady [OF rc7] recountD(3) [OF rc7] by (auto simp: attach_def)
    next
      case yes5: yes
      note rc5 = recount_trans [OF rc4 yes5(2)]
      obtain r6 where r6: "rm_IncRef r5 ?tr = Some r6" "recount r5 r6"
          "kept K r6 own (bump (bump settled ?sys hb) ?tr hb) (held(?sys := held ?sys + 1, ?tr := held ?tr + 1))"
        using kept_IncRef [OF yes5(3), of ?tr] lt(3) recountD(13) [OF rc5] hf(3) by auto
      note rc = recount_trans [OF rc5 r6(2)]
      define r7 where "r7 = r6\<lparr>rmStore := with_edges (rmStore r6) c [?sys, ?tr], rmConns := (rmConns r6)(c \<mapsto> cs)\<rparr>"
      have conns: "(rmConns r6)(c \<mapsto> cs) = rmConns r6" using c(1) by (simp add: recountD(3) [OF rc] fun_upd_idem)
      have m6: "movable K r6 c" "kind_at K (rks r6) c KConn"
        using movable_recount [OF m(1) rc] m(2) by (simp_all add: recountD(1) [OF rc])
      have es6: "may_hold (rmStore r6) [?sys, ?tr]"
        using hf ne lt same [OF rc] by (intro may_holdI [OF r6(3)]) (auto simp: recountD(1) [OF rc] kind_at_def)
      have ce: "conn_edges K (ids r6) (rks r6) cs [?sys, ?tr]"
        using c(3,4) by (simp add: conn_edges_def recountD(11,12) [OF rc])
      have mv: "moved (rmStore r6) c [?sys, ?tr] x = (if x = ?sys \<or> x = ?tr then -1 else 0)" for x
        using same [OF rc lt(1)] es by (auto simp: moved_def)
      have hb6: "held_below (rmStore r6) (own kk) c = hb kk" for kk
        unfolding hb_def by (rule recount_held_below [OF rc])
      have fin: "kept K r7 own settled held"
        using ne hf(3) by (intro finish_conn(1) [OF r6(3) m6 es6 _ ce _ _ r7_def]) (auto simp: mv hb6 bump_def)
      have "set_edges r6 c [?sys, ?tr] = Some r7"
        using lt(1) recountD(13) [OF rc] by (simp add: set_edges_total r7_def conns)
      then have "attach r c q = Some (None, r7)"
        using yes(1) r4(1) yes5(1) r6(1) by (simp add: attach_def)
      moreover have "steady r r7"
        using steady_edges [OF recount_steady [OF rc]] by (simp add: r7_def conns)
      moreover have "set (scEdges (rmStore r7 ! c)) = {rmSystem r7, rmTransient r7}" "rmConns r7 c = rmConns r c"
        using lt(1) recountD(11,12,13) [OF rc] c(1) by (simp_all add: r7_def)
      ultimately show ?thesis using fin by blast
    qed
  qed
qed

lemma kept_transfer:
  assumes k: "kept K r own settled held" and c: "rmConns r c = Some cs" "\<not> scDone (rmStore r ! c)" "cPeer cs = None"
  shows "\<exists>err r'. transferAllowedToStandard (r\<lparr>rmConns := (rmConns r)(c \<mapsto> cs\<lparr>cIsAllowlisted := False\<rparr>)\<rparr>) c = Some (err, r') \<and>
    kept K r' own settled held \<and> steady r r' \<and> rmConns r' c = Some (cs\<lparr>cIsAllowlisted := False\<rparr>) \<and>
    (err = None \<longrightarrow> set (scEdges (rmStore r' ! c)) = {rmSystem r', rmTransient r'})"
proof -
  define r0 where "r0 = r\<lparr>rmConns := (rmConns r)(c \<mapsto> cs\<lparr>cIsAllowlisted := False\<rparr>)\<rparr>"
  define q where "q = stat (scRC (rmStore r ! c))"
  have lt: "c < length (rmStore r0)" using movable_conn(1) [OF k c(1,2)] by (simp add: r0_def movable_def)
  obtain r1 r2 where d: "forEach (leave_edge q) r0 (scEdges (rmStore r ! c)) = Some r1" "set_edges r1 c [] = Some r2"
      "kept K r2 own settled held" "steady r r2" "rmConns r2 c = Some (cs\<lparr>cIsAllowlisted := False\<rparr>)"
      "scEdges (rmStore r2 ! c) = []" "\<And>kk. sval kk q = held_below (rmStore r2) (own kk) c"
    using kept_detach [OF k c q_def r0_def] by auto
  have fx: "rmSystem r0 = rmSystem r2" "rmTransient r0 = rmTransient r2"
    using d(4) by (auto simp: steady_def r0_def ids_def)
  have dn: "\<not> scDone (rmStore r2 ! c)" using d(4) c(2) lt by (simp add: steady_def r0_def)
  have step: "transferAllowedToStandard r0 c = attach r2 c q"
    using d(1,2) by (intro transfer_after [OF lt _ fx]) (simp_all add: q_def r0_def)
  obtain err r' where t: "transferAllowedToStandard r0 c = Some (err, r')" "kept K r' own settled held" "steady r2 r'"
      "rmConns r' c = rmConns r2 c" "err = None \<longrightarrow> set (scEdges (rmStore r' ! c)) = {rmSystem r', rmTransient r'}"
    using kept_attach [OF d(3,5) dn _ _ d(6,7)] c(3) step by auto
  then show ?thesis using d(5) steady_trans [OF d(4)] unfolding r0_def by auto
qed

lemma kept_SetPeer:
  assumes k: "kept K r own settled held" and c: "rmConns r c = Some cs" "\<not> scDone (rmStore r ! c)"
    and es: "scEdges (rmStore r ! c) \<noteq> []"
  shows "\<exists>e r' K'. SetPeer r c p = Some (e, r') \<and> kept K' r' own settled held \<and> steady r r'"
proof (cases "cPeer cs")
  case (Some x)
  then show ?thesis using c k by (auto simp: SetPeer_def intro: steady_refl)
next
  case None
  have lt: "c < length (rmStore r)" using movable_conn(1) [OF k c] by (simp add: movable_def)
  have "conn_edges K (ids r) (rks r) cs (scEdges (rmStore r ! c))"
    using conn_shapeD(2) [OF shapesD(7) [OF keptD(1) [OF k]] c(1)] c(2) lt by (simp add: skeleton_fields)
  then have set_es: "set (scEdges (rmStore r ! c)) =
      (if cIsAllowlisted cs then {rmAllowlistedSystem r, rmAllowlistedTransient r} else {rmSystem r, rmTransient r})"
    using None es by (auto simp: conn_edges_def)
  consider (std) "\<not> cIsAllowlisted cs" | (al) "cIsAllowlisted cs" "AllowedPeerAndMultiaddr (rmAllowlist r) p (cEndpoint cs)"
    | (tf) "cIsAllowlisted cs" "\<not> AllowedPeerAndMultiaddr (rmAllowlist r) p (cEndpoint cs)" by blast
  then show ?thesis
  proof cases
    case std
    then show ?thesis
      using kept_move_to_peer [OF k c, of "rmSystem r" "rmTransient r" p] set_es None c
      by (simp add: SetPeer_def home_def)
  next
    case al
    then show ?thesis
      using kept_move_to_peer [OF k c, of "rmAllowlistedSystem r" "rmAllowlistedTransient r" p] set_es None c
      by (simp add: SetPeer_def home_def)
  next
    case tf
    obtain err r1 where t: "transferAllowedToStandard (r\<lparr>rmConns := (rmConns r)(c \<mapsto> cs\<lparr>cIsAllowlisted := False\<rparr>)\<rparr>) c = Some (err, r1)"
        "kept K r1 own settled held" "steady r r1" "rmConns r1 c = Some (cs\<lparr>cIsAllowlisted := False\<rparr>)"
        "err = None \<longrightarrow> set (scEdges (rmStore r1 ! c)) = {rmSystem r1, rmTransient r1}"
      using kept_transfer [OF k c None] by blast
    have dn: "\<not> scDone (rmStore r1 ! c)" using t(3) c(2) lt by (simp add: steady_def)
    show ?thesis
    proof (cases err)
      case None' : None
      then show ?thesis
        using kept_move_to_peer [OF t(2,4) dn, of "rmSystem r1" "rmTransient r1" p] t tf None c
        by (auto simp: SetPeer_def home_def intro: steady_trans)
    next
      case (Some e)
      then show ?thesis using t tf None c by (auto simp: SetPeer_def)
    qed
  qed
qed

section \<open>SetProtocol and SetService\<close>

text \<open>Both reserve what the stream uses on the scope of the group (protocol or service) and then on
  its scope for the peer, and undo everything when the second is refused.\<close>

definition join_group ::
  "resourceManager \<Rightarrow> sid \<Rightarrow> (resourceManager \<Rightarrow> (sid \<times> resourceManager) option) \<Rightarrow> ScopeStat
     \<Rightarrow> ((rcmgr_error + sid) \<times> resourceManager) option"
where
  "join_group r1 g sub q = do {
     (err, r2) \<leftarrow> rm_ReserveForChild r1 g q;
     case err of
       Some e \<Rightarrow> do { r3 \<leftarrow> rm_DecRef r2 g; Some (Inl e, r3) }
     | None \<Rightarrow> do {
         (ps, r3) \<leftarrow> sub r2;
         (err', r4) \<leftarrow> rm_ReserveForChild r3 ps q;
         case err' of
           Some e \<Rightarrow> do {
             r5 \<leftarrow> rm_ReleaseForChild r4 g q;
             r6 \<leftarrow> rm_DecRef r5 g;
             r7 \<leftarrow> rm_DecRef r6 ps;
             Some (Inl e, r7) }
         | None \<Rightarrow> Some (Inr ps, r4) } }"

lemma recount_grown: "recount r r' \<Longrightarrow> grown K r K r'"
  using grown_recount recount_limiter by blast

lemma kept_join_group:
  assumes k: "kept K r own settled (held(g := held g + 1))" and m: "movable K r s"
    and q: "\<And>kk. sval kk q = held_below (rmStore r) (own kk) s"
    and g: "kind_at K (rks r) g kd" "kd \<notin> {KConn, KStream, KSpan}" "\<not> scDone (rmStore r ! g)"
      "\<And>g' p'. kd \<noteq> KSub g' p'"
    and out: "g \<notin> set (scEdges (rmStore r ! s))" "\<And>e. e \<in> set (scEdges (rmStore r ! s)) \<Longrightarrow> K e \<noteq> KSub g p"
    and sub: "\<And>r' pend held. kept K r' own pend held \<Longrightarrow> recount r r' \<Longrightarrow>
      \<exists>ps r'' K''. sub r' = Some (ps, r'') \<and> got K r' own pend held (KSub g p) ps K'' r''"
  shows "(\<exists>e r' K'. join_group r g sub q = Some (Inl e, r') \<and> kept K' r' own settled held \<and> grown K r K' r') \<or>
    (\<exists>ps r' K'. join_group r g sub q = Some (Inr ps, r') \<and> grown K r K' r' \<and>
       kept K' r' own (bump (bump settled g (\<lambda>kk. sval kk q)) ps (\<lambda>kk. sval kk q)) (held(g := held g + 1, ps := held ps + 1)) \<and>
       kind_at K' (rks r') ps (KSub g p) \<and> \<not> scDone (rmStore r' ! ps) \<and> ps \<noteq> g)"
proof -
  let ?hb = "\<lambda>kk. sval kk q"
  have lt: "g < length (rmStore r)" "s < length (rmStore r)" using g(1) m by (auto simp: kind_at_def movable_def)
  have hb0: "0 \<le> ?hb kk" for kk unfolding q by (rule held_below_nonneg [OF keptD(3) [OF k]])
  consider (no) e where "rm_ReserveForChild r g q = Some (Some e, r)"
    | (yes) r2 where "rm_ReserveForChild r g q = Some (None, r2)" "recount r r2"
        "kept K r2 own (bump settled g ?hb) (held(g := held g + 1))"
    using kept_reserve_edge [OF k m q g(1-3) out(1)] by (auto simp: q)
  then show ?thesis
  proof cases
    case no
    obtain r3 where "rm_DecRef r g = Some r3" "recount r r3" "kept K r3 own settled held"
      using kept_DecRef [OF k lt(1)] by auto
    then show ?thesis using no recount_grown by (auto simp: join_group_def)
  next
    case yes
    obtain ps r3 K3 where ps: "sub r2 = Some (ps, r3)"
        and gt: "got K r2 own (bump settled g ?hb) (held(g := held g + 1)) (KSub g p) ps K3 r3"
      using sub [OF yes(3,2)] by blast
    have gr: "grown K r K3 r3" and kp: "kind_at K3 (rks r3) ps (KSub g p)" "\<not> scDone (rmStore r3 ! ps)"
      using gt grown_trans [OF recount_grown [OF yes(2)]] unfolding got_def by blast+
    have kg: "kind_at K3 (rks r3) g kd" "\<not> scDone (rmStore r3 ! g)"
      using grownD(6) [OF gr g(1)] grown_same(1) [OF gr lt(1)] g(3) by auto
    have ne: "ps \<noteq> g" using kp(1) kg(1) g(4) by (auto simp: kind_at_def)
    then have k3: "kept K3 r3 own (bump settled g ?hb) (held(g := held g + 1, ps := held ps + 1))"
      using gt unfolding got_def by simp
    have ltp: "ps < length (rmStore r3)" using kp(1) by (simp add: kind_at_def)
    have ps_out: "ps \<notin> set (scEdges (rmStore r3 ! s))"
    proof
      assume "ps \<in> set (scEdges (rmStore r3 ! s))"
      then have e: "ps \<in> set (scEdges (rmStore r ! s))" using grown_same(3) [OF gr lt(2)] by simp
      then have "ps < length (rmStore r)" using wf_graph_edges(3) [OF keptD(6) [OF k] lt(2)] by blast
      then show False using e out(2) kp(1) gr by (auto simp: grown_def kind_at_def)
    qed
    have hb3: "held_below (rmStore r3) (own kk) s = ?hb kk" for kk
      unfolding q by (rule grown_held_below [OF gr keptD(3) [OF k]])
    consider (no) e where "rm_ReserveForChild r3 ps q = Some (Some e, r3)"
      | (yes) r4 where "rm_ReserveForChild r3 ps q = Some (None, r4)" "recount r3 r4"
          "kept K3 r4 own (bump (bump settled g ?hb) ps ?hb) (held(g := held g + 1, ps := held ps + 1))"
      using kept_reserve_edge [OF k3 movable_grown [OF m gr] _ kp(1) _ kp(2) ps_out, of q] ne
      by (auto simp: hb3 bump_def)
    then show ?thesis
    proof cases
      case no
      obtain r5 r6 where r6: "rm_ReleaseForChild r3 g q = Some r5" "rm_DecRef r5 g = Some r6" "recount r3 r6"
          "kept K3 r6 own (bump (bump settled g ?hb) g (\<lambda>kk. - ?hb kk)) (held(ps := held ps + 1))"
        using kept_unreserve [OF k3 kg, of q ?hb] hb0 ne by (auto simp: bump_def fun_upd_twist)
      have "bump (bump settled g ?hb) g (\<lambda>kk. - ?hb kk) = settled" by (auto simp: bump_def fun_eq_iff)
      then obtain r7 where r7: "rm_DecRef r6 ps = Some r7" "recount r6 r7" "kept K3 r7 own settled held"
        using kept_DecRef [OF r6(4), of ps] ltp recountD(13) [OF r6(3)] by auto
      have "grown K r K3 r7"
        using grown_trans [OF gr recount_grown [OF recount_trans [OF r6(3) r7(2)]]] .
      then show ?thesis using yes(1) ps no r6(1,2) r7(1,3) by (auto simp: join_group_def)
    next
      case yes4: yes
      have "grown K r K3 r4" using grown_trans [OF gr recount_grown [OF yes4(2)]] .
      moreover have "kind_at K3 (rks r4) ps (KSub g p)" "\<not> scDone (rmStore r4 ! ps)"
        using kp recountD(1,13) [OF yes4(2)] ltp by (simp, metis skeleton_fields(1))
      ultimately show ?thesis using yes(1) ps yes4(1,3) ne by (auto simp: join_group_def)
    qed
  qed
qed

lemma SetProtocol_join:
  assumes "rmStreams r s = Some ss" "sProto ss = None" "getProtocolScope r proto = Some (pr, r1)"
    "s < length (rmStore r1)"
  shows "SetProtocol r s proto = (do {
     (x, r4) \<leftarrow> join_group r1 pr (\<lambda>r2. do { p \<leftarrow> rmPeers r2 (sPeer ss); protocol_getPeerScope r2 pr p })
        (stat (scRC (rmStore r1 ! s)));
     case x of
       Inl e \<Rightarrow> Some (Some (ErrScope e), r4)
     | Inr ps \<Rightarrow> do {
         r5 \<leftarrow> rm_ReleaseForChild r4 (rmTransient r) (stat (scRC (rmStore r1 ! s)));
         r6 \<leftarrow> rm_DecRef r5 (rmTransient r);
         r7 \<leftarrow> set_edges r6 s [sPeer ss, ps, pr, rmSystem r];
         Some (None, r7\<lparr>rmStreams := (rmStreams r7)
           (s \<mapsto> ss\<lparr>sProto := Some pr, sPeerProtoScope := Some ps\<rparr>)\<rparr>) } })"
  using assms
  by (simp add: SetProtocol_def join_group_def Let_def)
     (auto split: Option.bind_splits option.splits)

lemma SetService_join:
  assumes "rmStreams r s = Some ss" "sSvc ss = None" "sProto ss = Some pr" "sPeerProtoScope ss = Some pps"
    "getServiceScope r svc = Some (sv, r1)" "s < length (rmStore r1)"
  shows "SetService r s svc = (do {
     (x, r4) \<leftarrow> join_group r1 sv (\<lambda>r2. do { p \<leftarrow> rmPeers r2 (sPeer ss); service_getPeerScope r2 sv p })
        (stat (scRC (rmStore r1 ! s)));
     case x of
       Inl e \<Rightarrow> Some (Some (ErrScope e), r4)
     | Inr ps \<Rightarrow> do {
         r5 \<leftarrow> set_edges r4 s [sPeer ss, pps, ps, pr, sv, rmSystem r];
         Some (None, r5\<lparr>rmStreams := (rmStreams r5)
           (s \<mapsto> ss\<lparr>sSvc := Some sv, sPeerSvcScope := Some ps\<rparr>)\<rparr>) } })"
  using assms
  by (simp add: SetService_def join_group_def Let_def)
     (auto split: Option.bind_splits option.splits)

lemma movable_stream:
  assumes k: "kept K r own pend held" and s: "rmStreams r s = Some ss" "\<not> scDone (rmStore r ! s)"
  shows "movable K r s" "kind_at K (rks r) s KStream"
    "stream_edges K (ids r) (rks r) ss (scEdges (rmStore r ! s))"
proof -
  show ks: "kind_at K (rks r) s KStream" using stream_shapeD(1) [OF shapesD(8) [OF keptD(1) [OF k]]] s by simp
  then show "movable K r s"
    using kind_root [OF k ks] s(2) by (auto simp: movable_def kind_at_def)
  show "stream_edges K (ids r) (rks r) ss (scEdges (rmStore r ! s))"
    using stream_shapeD(2) [OF shapesD(8) [OF keptD(1) [OF k]] s(1)] s(2) ks by (simp add: skeleton_fields kind_at_def)
qed

lemma kept_peer_of:
  assumes k: "kept K r own pend held" and p: "kind_at K (rks r) s (KPeer p)"
  shows "rmPeers r s = Some p"
  using peer_shapeD(1) [OF shapesD(3) [OF keptD(1) [OF k]] p] by simp

lemma stream_edges_open:
  assumes k: "kept K r own pend held" and s: "s < length (rmStore r)" "\<not> scDone (rmStore r ! s)" "e \<in> set (scEdges (rmStore r ! s))"
  shows "\<not> scDone (rmStore r ! e)" "e < length (rmStore r)"
  using keptD(7) [OF k] s wf_graph_edges(3) [OF keptD(6) [OF k] s(1)] by (auto simp: edges_open_def)

text \<open>The state in which a stream is counted against a group and its peer scope in the group, but
  its edges do not say so yet.\<close>

definition entered ::
  "kinds \<Rightarrow> resourceManager \<Rightarrow> ledger \<Rightarrow> (sid \<Rightarrow> int) \<Rightarrow> (counter \<Rightarrow> int) \<Rightarrow> sid \<Rightarrow> kind \<Rightarrow> peerID
     \<Rightarrow> sid \<Rightarrow> kinds \<Rightarrow> resourceManager \<Rightarrow> bool"
where
  "entered K r own held hb g kd p ps K4 r4 \<longleftrightarrow> grown K r K4 r4 \<and>
     kept K4 r4 own (bump (bump settled g hb) ps hb) (held(g := held g + 1, ps := held ps + 1)) \<and>
     kind_at K4 (rks r4) g kd \<and> \<not> scDone (rmStore r4 ! g) \<and>
     kind_at K4 (rks r4) ps (KSub g p) \<and> \<not> scDone (rmStore r4 ! ps) \<and> ps \<noteq> g"

lemma enter_group:
  assumes k: "kept K r own settled held" and s: "rmStreams r s = Some ss" "\<not> scDone (rmStore r ! s)"
    and gt: "got K r own settled held kd g K1 r1" and kd: "kd \<notin> {KConn, KStream, KSpan}" "\<And>g' p'. kd \<noteq> KSub g' p'"
    and out: "\<And>e. e \<in> set (scEdges (rmStore r ! s)) \<Longrightarrow> K e \<noteq> kd \<and> K e \<noteq> KSub g p"
    and sub: "\<And>r' pend held. kept K1 r' own pend held \<Longrightarrow> recount r1 r' \<Longrightarrow>
      \<exists>ps r'' K''. sub r' = Some (ps, r'') \<and> got K1 r' own pend held (KSub g p) ps K'' r''"
  defines "hb \<equiv> (\<lambda>kk. held_below (rmStore r) (own kk) s)" and "q \<equiv> stat (scRC (rmStore r1 ! s))"
  shows "(\<exists>e r4 K4. join_group r1 g sub q = Some (Inl e, r4) \<and> kept K4 r4 own settled held \<and> steady r r4) \<or>
    (\<exists>ps r4 K4. join_group r1 g sub q = Some (Inr ps, r4) \<and> entered K r own held hb g kd p ps K4 r4)"
    "sval kk q = hb kk"
proof -
  note m0 = movable_stream [OF k s]
  have k1: "kept K1 r1 own settled (held(g := held g + 1))" and gr: "grown K r K1 r1"
    and kg: "kind_at K1 (rks r1) g kd" "\<not> scDone (rmStore r1 ! g)" using gt unfolding got_def by auto
  have lt0: "s < length (rmStore r)" using m0(1) by (simp add: movable_def)
  note m = movable_grown [OF m0(1) gr]
  have q: "sval kk q = held_below (rmStore r1) (own kk) s" for kk unfolding q_def by (rule movable_stat [OF k1 m(1)]) simp
  have hb1: "held_below (rmStore r1) (own kk) s = hb kk" for kk
    unfolding hb_def by (rule grown_held_below [OF gr keptD(3) [OF k]])
  show "sval kk q = hb kk" by (simp add: q hb1)
  have out1: "K1 e \<noteq> kd \<and> K1 e \<noteq> KSub g p" if "e \<in> set (scEdges (rmStore r1 ! s))" for e
  proof -
    have e: "e \<in> set (scEdges (rmStore r ! s))" using that grown_same(3) [OF gr lt0] by simp
    then have "e < length (rmStore r)" using wf_graph_edges(3) [OF keptD(6) [OF k] lt0] by blast
    then show ?thesis using out [OF e] gr by (simp add: grown_def)
  qed
  then have "g \<notin> set (scEdges (rmStore r1 ! s))" using kg(1) by (auto simp: kind_at_def)
  then consider (no) e r4 K4 where "join_group r1 g sub q = Some (Inl e, r4)" "kept K4 r4 own settled held" "grown K1 r1 K4 r4"
    | (yes) ps r4 K4 where "join_group r1 g sub q = Some (Inr ps, r4)" "grown K1 r1 K4 r4"
        "kept K4 r4 own (bump (bump settled g hb) ps hb) (held(g := held g + 1, ps := held ps + 1))"
        "kind_at K4 (rks r4) ps (KSub g p)" "\<not> scDone (rmStore r4 ! ps)" "ps \<noteq> g"
    using kept_join_group [OF k1 m q kg(1) kd(1) kg(2) kd(2) _ _ sub] out1 unfolding q hb1 by blast
  then show "(\<exists>e r4 K4. join_group r1 g sub q = Some (Inl e, r4) \<and> kept K4 r4 own settled held \<and> steady r r4) \<or>
    (\<exists>ps r4 K4. join_group r1 g sub q = Some (Inr ps, r4) \<and> entered K r own held hb g kd p ps K4 r4)"
  proof cases
    case no
    then show ?thesis using steady_trans [OF grown_steady [OF gr] grown_steady [OF no(3)]] by blast
  next
    case yes
    have "kind_at K4 (rks r4) g kd" "\<not> scDone (rmStore r4 ! g)"
      using grownD(6) [OF yes(2) kg(1)] grown_same(1) [OF yes(2)] kg by (auto simp: kind_at_def)
    then show ?thesis using yes grown_trans [OF gr yes(2)] unfolding entered_def by blast
  qed
qed

lemma enteredD:
  assumes "entered K r own held hb g kd p ps K4 r4"
  shows "grown K r K4 r4"
    "kept K4 r4 own (bump (bump settled g hb) ps hb) (held(g := held g + 1, ps := held ps + 1))"
    "kind_at K4 (rks r4) g kd" "\<not> scDone (rmStore r4 ! g)" "kind_at K4 (rks r4) ps (KSub g p)"
    "\<not> scDone (rmStore r4 ! ps)" "ps \<noteq> g"
  using assms by (auto simp: entered_def)

text \<open>The stream leaves the transient scope and its edges are set to the new scopes.\<close>

lemma protocol_entered:
  assumes k: "kept K r own settled held" and s: "rmStreams r s = Some ss" "\<not> scDone (rmStore r ! s)"
    and ss: "sProto ss = None" and p: "kind_at K (rks r) (sPeer ss) (KPeer p)"
    and hb: "\<And>kk. sval kk q = held_below (rmStore r) (own kk) s"
    and ent: "entered K r own held (\<lambda>kk. held_below (rmStore r) (own kk) s) pr (KProto proto) p ps K4 r4"
  shows "\<exists>r5 r6 r7. rm_ReleaseForChild r4 (rmTransient r) q = Some r5 \<and> rm_DecRef r5 (rmTransient r) = Some r6 \<and>
    set_edges r6 s [sPeer ss, ps, pr, rmSystem r] = Some r7 \<and>
    (let r8 = r7\<lparr>rmStreams := (rmStreams r7)(s \<mapsto> ss\<lparr>sProto := Some pr, sPeerProtoScope := Some ps\<rparr>)\<rparr>
     in kept K4 r8 own settled held \<and> steady r r8)"
proof -
  let ?hb = "\<lambda>kk. held_below (rmStore r) (own kk) s" and ?tr = "rmTransient r" and ?sys = "rmSystem r"
  let ?es = "[sPeer ss, ps, pr, ?sys]" and ?ss = "ss\<lparr>sProto := Some pr, sPeerProtoScope := Some ps\<rparr>"
  note d = enteredD [OF ent]
  note m0 = movable_stream [OF k s]
  have es: "scEdges (rmStore r ! s) = [sPeer ss, ?tr, ?sys]" and svc: "sSvc ss = None" using m0(3) ss by (auto simp: stream_edges_def)
  have lt0: "s < length (rmStore r)" using m0(1) by (simp add: movable_def)
  have fx: "rmSystem r4 = ?sys" "rmTransient r4 = ?tr" "rmStreams r4 s = Some ss"
    using grownD(1,3) [OF d(1)] s(1) by (auto simp: ids_def)
  have es4: "scEdges (rmStore r4 ! s) = [sPeer ss, ?tr, ?sys]" "\<not> scDone (rmStore r4 ! s)" "s < length (rmStore r4)"
    using grown_same [OF d(1) lt0] es s(2) by auto
  note m4 = movable_stream [OF d(2) fx(3) es4(2)]
  have hf: "kind_at K4 (rks r4) ?sys KFixed" "kind_at K4 (rks r4) ?tr KFixed" "?sys \<noteq> ?tr"
    using home_facts(1-3) [OF d(2), of ?sys ?tr] fx by (simp_all add: home_def)
  have p4: "kind_at K4 (rks r4) (sPeer ss) (KPeer p)" by (rule grownD(6) [OF d(1) p])
  have ne: "distinct [s, sPeer ss, ps, pr, ?sys, ?tr]"
    using m4(2) p4 d(3,5,7) hf by (auto simp: kind_at_def)
  have hb4: "held_below (rmStore r4) (own kk) s = ?hb kk" for kk
    by (rule grown_held_below [OF d(1) keptD(3) [OF k]])
  obtain r5 r6 where r6: "rm_ReleaseForChild r4 ?tr q = Some r5" "rm_DecRef r5 ?tr = Some r6" "recount r4 r6"
      "kept K4 r6 own (bump (bump (bump settled pr ?hb) ps ?hb) ?tr (\<lambda>kk. - ?hb kk))
        (held(pr := held pr + 1, ps := held ps + 1, ?tr := held ?tr - 1))"
    using kept_release_edge [OF d(2) m4(1), of q ?tr] ne es4(1) by (auto simp: hb4 hb bump_def)
  have same: "scDone (rmStore r6 ! x) = scDone (rmStore r4 ! x) \<and> scEdges (rmStore r6 ! x) = scEdges (rmStore r4 ! x)"
    if "x < length (rmStore r4)" for x
    using that recountD(1,13) [OF r6(3)] by (metis skeleton_fields(1,3))
  have op: "\<not> scDone (rmStore r4 ! e)" if "e \<in> set ?es" for e
    using that d(4,6) stream_edges_open(1) [OF d(2) es4(3,2)] es4(1) by auto
  have es6: "may_hold (rmStore r6) ?es"
    using ne op d(3,5) p4 hf same
    by (intro may_holdI [OF r6(4)]) (auto simp: recountD(1) [OF r6(3)] kind_at_def)
  have ce: "stream_edges K4 (ids r6) (rks r6) ?ss ?es"
    using p4 d(3,5) svc fx by (auto simp: stream_edges_def recountD(1,11) [OF r6(3)])
  have mv: "moved (rmStore r6) s ?es x = (if x = ?tr then 1 else 0) - (if x = pr \<or> x = ps then 1 else 0)" for x
    using same [OF es4(3)] es4(1) ne by (auto simp: moved_def)
  have hb6: "held_below (rmStore r6) (own kk) s = ?hb kk" for kk
    using recount_held_below [OF r6(3), of "own kk" s] hb4 by simp
  define r8 where "r8 = r6\<lparr>rmStore := with_edges (rmStore r6) s ?es, rmStreams := (rmStreams r6)(s \<mapsto> ?ss)\<rparr>"
  have m6: "movable K4 r6 s" "kind_at K4 (rks r6) s KStream"
    using movable_recount [OF m4(1) r6(3)] m4(2) by (simp_all add: recountD(1) [OF r6(3)])
  have z: "bump (bump (bump settled pr ?hb) ps ?hb) ?tr (\<lambda>kk. - ?hb kk) kk x + moved (rmStore r6) s ?es x * held_below (rmStore r6) (own kk) s = 0"
      "(held(pr := held pr + 1, ps := held ps + 1, ?tr := held ?tr - 1)) x + moved (rmStore r6) s ?es x = held x" for kk x
    using ne unfolding mv hb6 bump_def by (cases "x = ?tr"; cases "x = pr"; cases "x = ps"; simp)+
  have "s \<notin> set ?es" using ne by simp
  then have fin: "kept K4 r8 own settled held" "steady r6 r8"
    using finish_stream [OF r6(4) m6 es6 _ ce z r8_def] by blast+
  have "steady r r8"
    by (rule steady_trans [OF steady_trans [OF grown_steady [OF d(1)] recount_steady [OF r6(3)]] fin(2)])
  then show ?thesis
    using r6(1,2) es4(3) recountD(13) [OF r6(3)] fin(1) by (simp add: set_edges_total r8_def)
qed

lemma service_entered:
  assumes k: "kept K r own settled held" and s: "rmStreams r s = Some ss" "\<not> scDone (rmStore r ! s)"
    and ss: "sProto ss = Some pr" "sSvc ss = None" "sPeerProtoScope ss = Some pps" and p: "kind_at K (rks r) (sPeer ss) (KPeer p)"
    and ent: "entered K r own held (\<lambda>kk. held_below (rmStore r) (own kk) s) sv (KService v) p ps K4 r4"
  shows "\<exists>r7. set_edges r4 s [sPeer ss, pps, ps, pr, sv, rmSystem r] = Some r7 \<and>
    (let r8 = r7\<lparr>rmStreams := (rmStreams r7)(s \<mapsto> ss\<lparr>sSvc := Some sv, sPeerSvcScope := Some ps\<rparr>)\<rparr>
     in kept K4 r8 own settled held \<and> steady r r8)"
proof -
  let ?hb = "\<lambda>kk. held_below (rmStore r) (own kk) s" and ?sys = "rmSystem r"
  let ?es = "[sPeer ss, pps, ps, pr, sv, ?sys]" and ?ss = "ss\<lparr>sSvc := Some sv, sPeerSvcScope := Some ps\<rparr>"
  note d = enteredD [OF ent]
  note m0 = movable_stream [OF k s]
  obtain proto where es: "scEdges (rmStore r ! s) = [sPeer ss, pps, pr, ?sys]"
      and kp0: "kind_at K (rks r) pr (KProto proto)" "kind_at K (rks r) pps (KSub pr p)"
    using m0(3) ss p by (auto simp: stream_edges_def kind_at_def)
  note kp = kp0 [THEN grownD(6) [OF d(1)]]
  have lt0: "s < length (rmStore r)" using m0(1) by (simp add: movable_def)
  have fx: "rmSystem r4 = ?sys" "rmStreams r4 s = Some ss"
    using grownD(1,3) [OF d(1)] s(1) by (auto simp: ids_def)
  have es4: "scEdges (rmStore r4 ! s) = [sPeer ss, pps, pr, ?sys]" "\<not> scDone (rmStore r4 ! s)" "s < length (rmStore r4)"
    using grown_same [OF d(1) lt0] es s(2) by auto
  note m4 = movable_stream [OF d(2) fx(2) es4(2)]
  have hf: "kind_at K4 (rks r4) ?sys KFixed" using fixed_kind(1) [OF shapesD(1) [OF keptD(1) [OF d(2)]]] fx by simp
  have p4: "kind_at K4 (rks r4) (sPeer ss) (KPeer p)" by (rule grownD(6) [OF d(1) p])
  have ne: "distinct [s, sPeer ss, pps, ps, pr, sv, ?sys]"
    using m4(2) p4 d(3,5,7) hf kp by (auto simp: kind_at_def)
  have hb4: "held_below (rmStore r4) (own kk) s = ?hb kk" for kk
    by (rule grown_held_below [OF d(1) keptD(3) [OF k]])
  have op: "\<not> scDone (rmStore r4 ! e)" if "e \<in> set ?es" for e
    using that d(4,6) stream_edges_open(1) [OF d(2) es4(3,2)] es4(1) by auto
  have es6: "may_hold (rmStore r4) ?es"
  proof (rule may_holdI [OF d(2)])
    show "distinct ?es" using ne by simp
    fix e assume e: "e \<in> set ?es"
    then have "\<exists>kd. kind_at K4 (rks r4) e kd \<and> kd \<noteq> KSpan" using d(3,5) p4 hf kp by fastforce
    then show "\<exists>kd. kind_at K4 (rks r4) e kd \<and> kd \<noteq> KSpan \<and> \<not> scDone (rmStore r4 ! e)" using op [OF e] by blast
  qed
  have ce: "stream_edges K4 (ids r4) (rks r4) ?ss ?es"
    using p4 d(3,5) ss kp fx by (auto simp: stream_edges_def)
  have mv: "moved (rmStore r4) s ?es x = (if x = sv \<or> x = ps then -1 else 0)" for x
    using es4(1) ne by (auto simp: moved_def)
  define r8 where "r8 = r4\<lparr>rmStore := with_edges (rmStore r4) s ?es, rmStreams := (rmStreams r4)(s \<mapsto> ?ss)\<rparr>"
  have z: "bump (bump settled sv ?hb) ps ?hb kk x + moved (rmStore r4) s ?es x * held_below (rmStore r4) (own kk) s = 0"
      "(held(sv := held sv + 1, ps := held ps + 1)) x + moved (rmStore r4) s ?es x = held x" for kk x
    using d(7) unfolding mv hb4 bump_def by (cases "x = sv"; cases "x = ps"; simp)+
  have "s \<notin> set ?es" using ne by simp
  then have fin: "kept K4 r8 own settled held" "steady r4 r8"
    using finish_stream [OF d(2) m4(1,2) es6 _ ce z r8_def] by blast+
  have "steady r r8" by (rule steady_trans [OF grown_steady [OF d(1)] fin(2)])
  then show ?thesis using es4(3) fin(1) by (simp add: set_edges_total r8_def)
qed

lemma kept_SetProtocol:
  assumes k: "kept K r own settled held" and s: "rmStreams r s = Some ss" "\<not> scDone (rmStore r ! s)"
  shows "\<exists>e r' K'. SetProtocol r s proto = Some (e, r') \<and> kept K' r' own settled held \<and> steady r r'"
proof (cases "sProto ss")
  case (Some x)
  then show ?thesis using s k by (auto simp: SetProtocol_def intro: steady_refl)
next
  case None
  note m0 = movable_stream [OF k s]
  have lt: "s < length (rmStore r)" using m0(1) by (simp add: movable_def)
  obtain p where p: "kind_at K (rks r) (sPeer ss) (KPeer p)"
      and es: "scEdges (rmStore r ! s) = [sPeer ss, rmTransient r, rmSystem r]"
    using m0(3) None by (auto simp: stream_edges_def)
  obtain pr r1 K1 where pr: "getProtocolScope r proto = Some (pr, r1)" and gt: "got K r own settled held (KProto proto) pr K1 r1"
    using kept_getProtocolScope [OF k] by blast
  have gr: "grown K r K1 r1" and kpr: "kind_at K1 (rks r1) pr (KProto proto)" using gt unfolding got_def by auto
  define sub where "sub = (\<lambda>r2. do { p \<leftarrow> rmPeers r2 (sPeer ss); protocol_getPeerScope r2 pr p })"
  note step = SetProtocol_join [OF s(1) None pr grown_same(4) [OF gr lt], folded sub_def]
  have sub: "\<exists>ps r'' K''. sub r' = Some (ps, r'') \<and> got K1 r' own pend held' (KSub pr p) ps K'' r''"
    if "kept K1 r' own pend held'" "recount r1 r'" for r' pend held'
    using kept_protocol_peer [OF that(1), of pr proto p] kept_peer_of [OF that(1), of "sPeer ss" p] kpr grownD(6) [OF gr p]
    by (simp add: sub_def recountD(1) [OF that(2)])
  have "K e \<noteq> KProto proto \<and> K e \<noteq> KSub pr p" if "e \<in> set (scEdges (rmStore r ! s))" for e
    using that es p fixed_kind [OF shapesD(1) [OF keptD(1) [OF k]]] by (auto simp: kind_at_def)
  note cases = enter_group [OF k s gt _ _ this sub, simplified]
  from cases(1) show ?thesis
  proof (elim disjE exE conjE)
    fix e r4 K4 assume "join_group r1 pr sub (stat (scRC (rmStore r1 ! s))) = Some (Inl e, r4)"
      "kept K4 r4 own settled held" "steady r r4"
    then show ?thesis using step by auto
  next
    fix ps r4 K4 assume a: "join_group r1 pr sub (stat (scRC (rmStore r1 ! s))) = Some (Inr ps, r4)"
      "entered K r own held (\<lambda>kk. held_below (rmStore r) (own kk) s) pr (KProto proto) p ps K4 r4"
    show ?thesis
      using protocol_entered [OF k s None p _ a(2), of "stat (scRC (rmStore r1 ! s))"] cases(2) step a(1)
      by (auto simp: Let_def)
  qed
qed

lemma kept_SetService:
  assumes k: "kept K r own settled held" and s: "rmStreams r s = Some ss" "\<not> scDone (rmStore r ! s)"
  shows "\<exists>e r' K'. SetService r s v = Some (e, r') \<and> kept K' r' own settled held \<and> steady r r'"
proof (cases "sSvc ss = None \<and> sProto ss \<noteq> None")
  case False
  then show ?thesis using s k by (cases "sSvc ss") (auto simp: SetService_def intro: steady_refl)
next
  case True
  then obtain pr where ss: "sProto ss = Some pr" "sSvc ss = None" by auto
  note m0 = movable_stream [OF k s]
  have lt: "s < length (rmStore r)" using m0(1) by (simp add: movable_def)
  obtain p proto pps where p: "kind_at K (rks r) (sPeer ss) (KPeer p)" and pps: "sPeerProtoScope ss = Some pps"
      and es: "scEdges (rmStore r ! s) = [sPeer ss, pps, pr, rmSystem r]"
      and kp: "kind_at K (rks r) pr (KProto proto)" "kind_at K (rks r) pps (KSub pr p)"
    using m0(3) ss by (auto simp: stream_edges_def)
  obtain sv r1 K1 where sv: "getServiceScope r v = Some (sv, r1)" and gt: "got K r own settled held (KService v) sv K1 r1"
    using kept_getServiceScope [OF k] by blast
  have gr: "grown K r K1 r1" and ksv: "kind_at K1 (rks r1) sv (KService v)" using gt unfolding got_def by auto
  define sub where "sub = (\<lambda>r2. do { p \<leftarrow> rmPeers r2 (sPeer ss); service_getPeerScope r2 sv p })"
  note step = SetService_join [OF s(1) ss(2,1) pps sv grown_same(4) [OF gr lt], folded sub_def]
  have sub: "\<exists>ps r'' K''. sub r' = Some (ps, r'') \<and> got K1 r' own pend held' (KSub sv p) ps K'' r''"
    if "kept K1 r' own pend held'" "recount r1 r'" for r' pend held'
    using kept_service_peer [OF that(1), of sv v p] kept_peer_of [OF that(1), of "sPeer ss" p] ksv grownD(6) [OF gr p]
    by (simp add: sub_def recountD(1) [OF that(2)])
  have "pr \<noteq> sv" using grownD(6) [OF gr kp(1)] ksv by (auto simp: kind_at_def)
  then have "K e \<noteq> KService v \<and> K e \<noteq> KSub sv p" if "e \<in> set (scEdges (rmStore r ! s))" for e
    using that es p kp fixed_kind [OF shapesD(1) [OF keptD(1) [OF k]]] by (auto simp: kind_at_def)
  from enter_group(1) [OF k s gt _ _ this sub, simplified] show ?thesis
  proof (elim disjE exE conjE)
    fix e r4 K4 assume "join_group r1 sv sub (stat (scRC (rmStore r1 ! s))) = Some (Inl e, r4)"
      "kept K4 r4 own settled held" "steady r r4"
    then show ?thesis using step by auto
  next
    fix ps r4 K4 assume a: "join_group r1 sv sub (stat (scRC (rmStore r1 ! s))) = Some (Inr ps, r4)"
      "entered K r own held (\<lambda>kk. held_below (rmStore r) (own kk) s) sv (KService v) p ps K4 r4"
    show ?thesis
      using service_entered [OF k s ss pps p a(2)] step a(1) by (auto simp: Let_def)
  qed
qed

end
