(* ===== verification/Manager_Calls.thy ===== *)
theory Manager_Calls
  imports Manager_Moves
begin

text \<open>
  The calls of the manager that open and close connections, streams and spans, and the
  reservations on any scope: each of them returns, whatever the state, and keeps the invariant
  with the ledger of what callers hold moved by exactly what was reserved or released.
\<close>

section \<open>Reservations\<close>

definition room :: "resourceManager \<Rightarrow> ledger \<Rightarrow> (counter \<Rightarrow> int) \<Rightarrow> bool" where
  "room r own d \<longleftrightarrow> (\<forall>c. (\<Sum>x < length (rmStore r). own c x) + d c \<le> MaxHeld)"

lemma kept_own:
  assumes k: "kept K r own settled held" and "same_skeleton (rmStore r) st" "sound st own'" "all_fit st"
    and "books st own' settled (\<lambda>p. base_refs (ids r) p + held p)"
  shows "kept K (r\<lparr>rmStore := st\<rparr>) own' settled held"
  using assms by (intro kept_store [OF k]) (auto simp: keptD(4) [OF k])

context accounted
begin

lemma kept_acquire:
  assumes k: "kept K r own settled held" and i: "i < length (rmStore r)" and rm: "room r own delta"
  shows "\<exists>err st. acquire (rmStore r) i = Some (err, st) \<and> (err \<noteq> None \<longrightarrow> st = rmStore r) \<and>
    (err = None \<longrightarrow> recount r (r\<lparr>rmStore := st\<rparr>) \<and> kept K (r\<lparr>rmStore := st\<rparr>) (bump own i delta) settled held)"
proof -
  have wc: "wf_counters (rmStore r) (charged (rmStore r) i)"
    using keptD(9) [OF k] charged_below [OF keptD(6) [OF k] i] by (auto simp: wf_counters_def)
  obtain err st where st: "acquire (rmStore r) i = Some (err, st)"
    using acquire_spec [OF keptD(6) [OF k] i wc] by (auto split: if_splits)
  show ?thesis
  proof (cases err)
    case None
    have sum: "\<And>c. (\<Sum>x < length (rmStore r). own c x) + delta c \<le> MaxHeld" using rm by (simp add: room_def)
    note b = acquire_books [OF keptD(2) [OF k] keptD(3) [OF k] i st [unfolded None] sum]
      and f = acquire_fits [OF keptD(2) [OF k] keptD(3) [OF k] i st [unfolded None] sum keptD(10) [OF k]]
    then show ?thesis using st None by (auto intro!: kept_own [OF k] recountI)
  next
    case (Some e)
    then show ?thesis using st refused_books [OF keptD(2) [OF k] i] by auto
  qed
qed

lemma kept_release:
  assumes k: "kept K r own settled held" and i: "i < length (rmStore r)" "\<not> scDone (rmStore r ! i)"
    and d: "\<And>c. 0 \<le> delta c \<and> delta c \<le> own c i"
  shows "\<exists>st. release (rmStore r) i = Some st \<and> recount r (r\<lparr>rmStore := st\<rparr>) \<and>
    kept K (r\<lparr>rmStore := st\<rparr>) (bump own i (\<lambda>c. - delta c)) settled held"
proof -
  obtain st where st: "release (rmStore r) i = Some st" using release_spec [OF keptD(6) [OF k] i(1)] by blast
  note b = release_books [OF keptD(2) [OF k] keptD(3) [OF k] i(1) st d i(2)]
    and f = release_fits [OF keptD(2) [OF k] keptD(3) [OF k] i(1) st d keptD(10) [OF k]]
  then show ?thesis using st by (auto intro!: kept_own [OF k] recountI)
qed

end

section \<open>Spans\<close>

lemma shapes_new_span:
  assumes "shapes K r ks"
  shows "shapes (K(length ks := KSpan)) r (ks @ [(False, Some i, [])])"
  using shapesD [OF assms]
  by (simp add: shapes_def fixed_append root_append peer_append group_append not_sub_append conn_append stream_append)

lemma kept_fresh:
  assumes k: "kept K r own pend held"
  shows "own c (length (rmStore r)) = 0" "base_refs (ids r) (length (rmStore r)) + held (length (rmStore r)) = 0"
proof -
  have "length (rmStore r) \<notin> set (fixed_scopes (ids r))" using fixed_scope(1) [OF k] by blast
  then show "base_refs (ids r) (length (rmStore r)) + held (length (rmStore r)) = 0"
    using keptD(4) [OF k] by (simp add: base_refs_def)
  show "own c (length (rmStore r)) = 0" using keptD(3) [OF k] by (simp add: sound_def)
qed

lemma kept_BeginSpan:
  assumes k: "kept K r own settled held" and i: "i < length (rmStore r)"
  shows "\<exists>res st. BeginSpan (rmStore r) i = Some (res, st) \<and> (\<forall>e. res = Inl e \<longrightarrow> st = rmStore r) \<and>
    (\<forall>s. res = Inr s \<longrightarrow> s = length (rmStore r) \<and> length st = Suc s \<and> scOwner (st ! s) = Some i \<and>
      grown K r (K(s := KSpan)) (r\<lparr>rmStore := st\<rparr>) \<and> kept (K(s := KSpan)) (r\<lparr>rmStore := st\<rparr>) own settled held)"
proof (cases "scDone (rmStore r ! i)")
  case True
  then show ?thesis using i by (simp add: BeginSpan_def)
next
  case False
  let ?s = "rmStore r ! i"
  obtain s t where sp: "BeginSpan (rmStore r) i = Some (Inr (length (rmStore r)), (rmStore r)[i := t] @ [s])"
      and s: "skel s = (False, Some i, [])" "fits (scRC s)" and t: "skel t = skel ?s" "scRC t = scRC ?s"
    using False i by (auto simp: BeginSpan_def newResourceScopeSpan_def nextSpanID_def skel_def)
  define st where "st = (rmStore r)[i := t] @ [s]"
  define K' where "K' = K(length (rmStore r) := KSpan)"
  have bk: "books st own settled (\<lambda>p. base_refs (ids r) p + held p)"
    unfolding st_def using kept_fresh [OF k] by (intro BeginSpan_books [OF keptD(2) [OF k] sp]) simp_all
  have sk: "map skel st = rks r @ [(False, Some i, [])]"
    using i s(1) t(1) by (simp add: st_def map_update list_update_same_conv)
  have "all_fit st"
    unfolding st_def using keptD(10) [OF k] s(2) t(2) i
    by (intro all_fit_append all_fit_update) (simp_all add: all_fit_def)
  moreover have "shapes K' r (map skel st)"
    using shapes_new_span [OF keptD(1) [OF k], of i] by (simp add: sk K'_def)
  ultimately have "kept K' (r\<lparr>rmStore := st\<rparr>) own settled held"
    using bk sound_append [OF keptD(3) [OF k], of st] keptD(4) [OF k] by (simp add: kept_def st_def)
  moreover have "grown K r K' (r\<lparr>rmStore := st\<rparr>)" by (simp add: grown_def sk K'_def)
  moreover have "scOwner (st ! length (rmStore r)) = Some i" using s(1) by (simp add: st_def nth_append skel_def)
  ultimately show ?thesis using sp unfolding K'_def st_def by simp
qed

section \<open>Closing\<close>

lemma skel_closed_at:
  "i < length st \<Longrightarrow> map skel (closed_at st i) = (map skel st)[i := (True, scOwner (st ! i), scEdges (st ! i))]"
  by (simp add: closed_at_def map_update skel_def)

text \<open>Closing a scope no open scope has as an edge; the shapes after it are those of the tables the
  caller then writes.\<close>

lemma kept_Done:
  assumes k: "kept K r own settled held" and i: "i < length (rmStore r)" "\<not> scDone (rmStore r ! i)"
    and free: "holders (rmStore r) i = {}"
  shows "\<exists>st. Done (rmStore r) i = Some st \<and>
    map skel st = (rks r)[i := (True, scOwner (rmStore r ! i), scEdges (rmStore r ! i))] \<and>
    (\<forall>r'. rmStore r' = st \<longrightarrow> ids r' = ids r \<longrightarrow> shapes K r' (map skel st) \<longrightarrow>
       kept K r' (\<lambda>c. (own c)(i := 0)) settled held)"
proof -
  obtain st where st: "Done (rmStore r) i = Some st"
      "books st (\<lambda>c. (own c)(i := 0)) settled (\<lambda>p. base_refs (ids r) p + held p)"
      "same_skeleton (closed_at (rmStore r) i) st"
    using Done_books [OF keptD(2) [OF k] keptD(3) [OF k] i free] by blast
  have len: "length st = length (rmStore r)" using skeleton_length [OF st(3)] by simp
  have fit: "all_fit st"
    by (rule Done_fits [OF keptD(6) [OF k] keptD(7) [OF k] i keptD(9) [OF k] st(1) keptD(10) [OF k]])
  have "map skel st = (rks r)[i := (True, scOwner (rmStore r ! i), scEdges (rmStore r ! i))]"
    using st(3) skel_closed_at [OF i(1)] by simp
  then show ?thesis
    using st(1,2) fit sound_close [OF keptD(3) [OF k] len] keptD(4) [OF k] len
    by (intro exI [of _ st]) (simp add: kept_def)
qed

lemma shapes_close:
  assumes "shapes K r ks" "i < length ks" "K i = KConn \<or> K i = KStream \<or> K i = KSpan"
  shows "shapes K r (ks[i := (True, ow ks i, ed ks i)])"
  using shapesD [OF assms(1)] assms(2,3)
  by (auto simp: shapes_def fixed_upd root_upd peer_upd group_upd_other sub_upd_other conn_closed stream_closed)

lemma kept_close:
  assumes k: "kept K r own settled held" and i: "i < length (rmStore r)" "\<not> scDone (rmStore r ! i)"
    and kd: "K i = KConn \<or> K i = KStream \<or> K i = KSpan"
  shows "\<exists>st. Done (rmStore r) i = Some st \<and> kept K (r\<lparr>rmStore := st\<rparr>) (\<lambda>c. (own c)(i := 0)) settled held \<and>
    map skel st = (rks r)[i := (True, scOwner (rmStore r ! i), scEdges (rmStore r ! i))]"
proof -
  obtain st where st: "Done (rmStore r) i = Some st"
      "map skel st = (rks r)[i := (True, scOwner (rmStore r ! i), scEdges (rmStore r ! i))]"
      "\<And>r'. rmStore r' = st \<Longrightarrow> ids r' = ids r \<Longrightarrow> shapes K r' (map skel st) \<Longrightarrow>
         kept K r' (\<lambda>c. (own c)(i := 0)) settled held"
    using kept_Done [OF k i no_holders [OF k kd]] by blast
  have "shapes K r (map skel st)"
    using shapes_close [OF keptD(1) [OF k] _ kd] i(1) by (simp add: st(2) skeleton_fields)
  then show ?thesis using st by (intro exI [of _ st]) simp
qed

section \<open>The connections the limiter counts\<close>

definition live_conns :: "skeleton \<Rightarrow> (sid \<rightharpoonup> connectionScope) \<Rightarrow> sid set" where
  "live_conns ks conns = {c. c < length ks \<and> \<not> dn ks c \<and> (\<exists>cs. conns c = Some cs \<and> IsValid (cIP cs))}"

definition live_of :: "skeleton \<Rightarrow> (sid \<rightharpoonup> connectionScope) \<Rightarrow> Addr multiset" where
  "live_of ks conns = image_mset (\<lambda>c. cIP (the (conns c))) (mset_set (live_conns ks conns))"

abbreviation live_ips :: "resourceManager \<Rightarrow> Addr multiset" where
  "live_ips r \<equiv> live_of (rks r) (rmConns r)"

lemma finite_live [simp]: "finite (live_conns ks conns)"
  by (rule finite_subset [of _ "{..<length ks}"]) (auto simp: live_conns_def)

lemma live_of_cong:
  assumes "live_conns ks conns = live_conns ks' conns'"
    and "\<And>c. c \<in> live_conns ks conns \<Longrightarrow> cIP (the (conns c)) = cIP (the (conns' c))"
  shows "live_of ks conns = live_of ks' conns'"
  using assms by (auto simp: live_of_def intro!: image_mset_cong)

lemma live_of_insert:
  assumes "live_conns ks' conns' = insert c (live_conns ks conns)" "c \<notin> live_conns ks conns"
    and "\<And>x. x \<in> live_conns ks conns \<Longrightarrow> cIP (the (conns' x)) = cIP (the (conns x))"
  shows "live_of ks' conns' = add_mset (cIP (the (conns' c))) (live_of ks conns)"
  using assms by (auto simp: live_of_def intro!: image_mset_cong)

lemma live_append:
  assumes "\<And>x. conns x \<noteq> None \<Longrightarrow> x < length ks" and "\<not> fst k"
  shows "live_of (ks @ [k]) (conns(length ks \<mapsto> cs)) =
    (if IsValid (cIP cs) then add_mset (cIP cs) (live_of ks conns) else live_of ks conns)"
proof (cases "IsValid (cIP cs)")
  case True
  have "live_conns (ks @ [k]) (conns(length ks \<mapsto> cs)) = insert (length ks) (live_conns ks conns)"
    using True assms(2) by (auto simp: live_conns_def less_Suc_eq)
  then show ?thesis
    using True live_of_insert [of "ks @ [k]" "conns(length ks \<mapsto> cs)" "length ks" ks conns]
    by (auto simp: live_conns_def)
next
  case False
  have "live_of (ks @ [k]) (conns(length ks \<mapsto> cs)) = live_of ks conns"
    by (rule live_of_cong) (use False in \<open>auto simp: live_conns_def less_Suc_eq\<close>)
  then show ?thesis using False by simp
qed

lemma live_append_other:
  assumes "conns (length ks) = None"
  shows "live_of (ks @ [k]) conns = live_of ks conns"
  by (rule live_of_cong) (use assms in \<open>auto simp: live_conns_def less_Suc_eq\<close>)

lemma live_close:
  assumes "i < length ks" "\<not> dn ks i"
  shows "live_of ks conns = (case conns i of
      Some cs \<Rightarrow> if IsValid (cIP cs) then add_mset (cIP cs) (live_of (ks[i := (True, a, es)]) conns)
        else live_of (ks[i := (True, a, es)]) conns
    | None \<Rightarrow> live_of (ks[i := (True, a, es)]) conns)"
proof (cases "i \<in> live_conns ks conns")
  case True
  then obtain cs where cs: "conns i = Some cs" "IsValid (cIP cs)" by (auto simp: live_conns_def)
  have "live_conns ks conns = insert i (live_conns (ks[i := (True, a, es)]) conns)"
    using True assms by (auto simp: live_conns_def)
  moreover have "i \<notin> live_conns (ks[i := (True, a, es)]) conns" using assms by (auto simp: live_conns_def)
  ultimately show ?thesis using live_of_insert [of ks conns i "ks[i := (True, a, es)]" conns] cs by simp
next
  case False
  have "live_of ks conns = live_of (ks[i := (True, a, es)]) conns"
    by (rule live_of_cong) (use False assms in \<open>auto simp: live_conns_def split: if_splits\<close>)
  then show ?thesis using False assms by (auto simp: live_conns_def split: option.split)
qed

lemma live_steady:
  assumes st: "steady r r'" and dom: "\<And>x. rmConns r x \<noteq> None \<Longrightarrow> x < length (rmStore r)"
  shows "live_ips r' = live_ips r"
proof -
  have ip: "map_option cIP (rmConns r' x) = map_option cIP (rmConns r x)" for x using st by (simp add: steady_def)
  have dn: "dn (rks r') x = dn (rks r) x" "x < length (rmStore r')" if "x < length (rmStore r)" for x
    using st that by (auto simp: steady_def skeleton_fields)
  have eq: "x \<in> live_conns (rks r') (rmConns r') \<longleftrightarrow> x \<in> live_conns (rks r) (rmConns r)" for x
    using ip [of x] dn [of x] dom [of x] by (cases "rmConns r x") (auto simp: live_conns_def)
  show ?thesis
  proof (rule live_of_cong)
    show "live_conns (rks r') (rmConns r') = live_conns (rks r) (rmConns r)" using eq by blast
    fix c assume "c \<in> live_conns (rks r') (rmConns r')"
    then show "cIP (the (rmConns r' c)) = cIP (the (rmConns r c))"
      using ip [of c] eq [of c] by (auto simp: live_conns_def)
  qed
qed

text \<open>The invariant between calls: the books, and the limiter standing for the live connections.
  \<open>held\<close> counts the open views of each scope.\<close>

definition managed :: "connLimiter \<Rightarrow> kinds \<Rightarrow> resourceManager \<Rightarrow> ledger \<Rightarrow> (sid \<Rightarrow> int) \<Rightarrow> bool" where
  "managed cl0 K r own held \<longleftrightarrow> kept K r own settled held \<and> (\<forall>p. 0 \<le> held p) \<and>
     cl_rel (rmConnLimiter r) (live_ips r) \<and> same_limits cl0 (rmConnLimiter r) \<and>
     cl_within cl0 (live_ips r) \<and> int (size (live_ips r)) < MaxInt64"

lemma managedD:
  assumes "managed cl0 K r own held"
  shows "kept K r own settled held" "0 \<le> held p" "cl_rel (rmConnLimiter r) (live_ips r)"
    "same_limits cl0 (rmConnLimiter r)" "cl_within cl0 (live_ips r)" "int (size (live_ips r)) < MaxInt64"
  using assms by (auto simp: managed_def)

lemma conns_dom:
  assumes "kept K r own pend held" "rmConns r x \<noteq> None"
  shows "x < length (rmStore r)" "kind_at K (rks r) x KConn"
  using conn_shapeD(1) [OF shapesD(7) [OF keptD(1) [OF assms(1)]], of x] assms(2) by (auto simp: kind_at_def)

lemma managed_steady:
  assumes m: "managed cl0 K r own held" and "kept K' r' own' settled held'" "steady r r'" "\<And>p. 0 \<le> held' p"
  shows "managed cl0 K' r' own' held'"
proof -
  have "live_ips r' = live_ips r" by (rule live_steady [OF assms(3) conns_dom(1) [OF managedD(1) [OF m]]])
  then show ?thesis using m assms(2-4) by (simp add: managed_def steady_def)
qed

lemma managed_moved:
  assumes m: "managed cl0 K r own held" and "kept K' r' own' settled held" "steady r r'"
  shows "managed cl0 K' r' own' held"
  using managed_steady [OF assms] managedD(2) [OF m] by blast

context accounted
begin

lemma managed_acquire:
  assumes m: "managed cl0 K r own held" and i: "i < length (rmStore r)" and rm: "room r own delta"
  shows "\<exists>err st. acquire (rmStore r) i = Some (err, st) \<and> (err \<noteq> None \<longrightarrow> st = rmStore r) \<and>
    (err = None \<longrightarrow> managed cl0 K (r\<lparr>rmStore := st\<rparr>) (bump own i delta) held \<and> same_skeleton (rmStore r) st)"
proof -
  obtain err st where a: "acquire (rmStore r) i = Some (err, st)" "err \<noteq> None \<longrightarrow> st = rmStore r"
      "err = None \<longrightarrow> recount r (r\<lparr>rmStore := st\<rparr>) \<and> kept K (r\<lparr>rmStore := st\<rparr>) (bump own i delta) settled held"
    using kept_acquire [OF managedD(1) [OF m] i rm] by blast
  have "managed cl0 K (r\<lparr>rmStore := st\<rparr>) (bump own i delta) held \<and> same_skeleton (rmStore r) st" if "err = None"
    using managed_moved [OF m _ recount_steady] a(3) that recountD(1) [of r "r\<lparr>rmStore := st\<rparr>"] by simp
  then show ?thesis using a(1,2) by blast
qed

lemma managed_release:
  assumes m: "managed cl0 K r own held" and i: "i < length (rmStore r)" "\<not> scDone (rmStore r ! i)"
    and d: "\<And>c. 0 \<le> delta c \<and> delta c \<le> own c i"
  shows "\<exists>st. release (rmStore r) i = Some st \<and> managed cl0 K (r\<lparr>rmStore := st\<rparr>) (bump own i (\<lambda>c. - delta c)) held"
  using kept_release [OF managedD(1) [OF m] i d] managed_moved [OF m _ recount_steady] by blast

end

section \<open>Connections\<close>

lemma kept_limiter: "kept K (r\<lparr>rmConnLimiter := cl\<rparr>) own pend held = kept K r own pend held"
  by (simp add: kept_def shapes_def)

lemma managed_conn_Done:
  assumes m: "managed cl0 K r own held" and c: "rmConns r c = Some cs"
  shows "\<exists>r'. connectionScope_Done r c = Some r' \<and>
    (if scDone (rmStore r ! c) then r' = r
     else managed cl0 K r' (\<lambda>kk. (own kk)(c := 0)) held \<and> ids r' = ids r \<and> rmConns r' = rmConns r \<and>
       length (rmStore r') = length (rmStore r) \<and> scDone (rmStore r' ! c) \<and> rmLimits r' = rmLimits r \<and>
       live_ips r = (if IsValid (cIP cs) then add_mset (cIP cs) (live_ips r') else live_ips r'))"
proof (cases "scDone (rmStore r ! c)")
  case True
  then show ?thesis using c conns_dom(1) [OF managedD(1) [OF m], of c] by (simp add: connectionScope_Done_def)
next
  case False
  note k = managedD(1) [OF m]
  have kc: "c < length (rmStore r)" "K c = KConn" using conns_dom [OF k, of c] c by (auto simp: kind_at_def)
  obtain st where st: "Done (rmStore r) c = Some st" "kept K (r\<lparr>rmStore := st\<rparr>) (\<lambda>kk. (own kk)(c := 0)) settled held"
      "map skel st = (rks r)[c := (True, scOwner (rmStore r ! c), scEdges (rmStore r ! c))]"
    using kept_close [OF k kc(1) False] kc(2) by blast
  let ?live = "live_of (map skel st) (rmConns r)"
  have live: "live_ips r = (if IsValid (cIP cs) then add_mset (cIP cs) ?live else ?live)"
    using live_close [of c "rks r" "rmConns r" "scOwner (rmStore r ! c)" "scEdges (rmStore r ! c)"] kc(1) False c
    by (simp add: st(3) skeleton_fields)
  have len: "length st = length (rmStore r)" using arg_cong [OF st(3), of length] by simp
  have dn: "scDone (st ! c)" using arg_cong [OF st(3), of "\<lambda>ks. dn ks c"] kc(1) len by (simp add: skeleton_fields)
  show ?thesis
  proof (cases "IsValid (cIP cs)")
    case True
    have "cl_rel (rmConnLimiter r) (add_mset (cIP cs) ?live)" "int (size ?live) < MaxInt64"
      using managedD(3,6) [OF m] live True by auto
    then obtain cl where cl: "cl_rmConn (rmConnLimiter r) (cIP cs) = Some cl" "cl_rel cl ?live \<and> same_limits cl0 cl"
      using lim.rm_law [of "rmConnLimiter r" "cIP cs" ?live cl0] managedD(4) [OF m] by blast
    define r' where "r' = r\<lparr>rmConnLimiter := cl, rmStore := st\<rparr>"
    have "connectionScope_Done r c = Some r'"
      using c kc(1) False True cl(1) st(1) by (simp add: connectionScope_Done_def Done_def r'_def)
    moreover have "kept K r' (\<lambda>kk. (own kk)(c := 0)) settled held"
      using st(2) by (simp add: r'_def kept_def shapes_def)
    then have "managed cl0 K r' (\<lambda>kk. (own kk)(c := 0)) held"
      using managedD [OF m] cl(2) live True cl_within_mono [of cl0 "cIP cs" ?live]
      by (simp add: managed_def r'_def)
    ultimately show ?thesis using False live True len dn by (simp add: r'_def)
  next
    case inv: False
    have "connectionScope_Done r c = Some (r\<lparr>rmStore := st\<rparr>)"
      using c kc(1) False inv st(1) by (simp add: connectionScope_Done_def Done_def)
    moreover have "managed cl0 K (r\<lparr>rmStore := st\<rparr>) (\<lambda>kk. (own kk)(c := 0)) held"
      using managedD [OF m] st(2) live inv by (simp add: managed_def)
    ultimately show ?thesis using False live inv len dn by simp
  qed
qed

text \<open>A new connection scope on a pair of scopes it may be counted against.\<close>

definition added_conn ::
  "resourceManager \<Rightarrow> sid list \<Rightarrow> connectionScope \<Rightarrow> (sid \<times> resourceManager) option"
where
  "added_conn r es cs = do {
     (s, st) \<leftarrow> newResourceScope (rmStore r) (GetConnLimits (rmLimits r)) es (connScopeName (add64 (rmConnId r) 1));
     Some (s, r\<lparr>rmConnId := add64 (rmConnId r) 1, rmStore := st, rmConns := (rmConns r)(s \<mapsto> cs)\<rparr>) }"

lemma new_conn_added:
  "newConnectionScope r dir usefd ep ip = added_conn r [rmTransient r, rmSystem r]
     \<lparr>cDir = dir, cUsefd = usefd, cIsAllowlisted = False, cPeer = None, cEndpoint = ep, cIP = ip\<rparr>"
  "newAllowListedConnectionScope r dir usefd ep = added_conn r [rmAllowlistedTransient r, rmAllowlistedSystem r]
     \<lparr>cDir = dir, cUsefd = usefd, cIsAllowlisted = True, cPeer = None, cEndpoint = ep, cIP = AddrZero\<rparr>"
  by (simp_all add: newConnectionScope_def newAllowListedConnectionScope_def nextConnId_def added_conn_def)

lemma shapes_new_conn:
  assumes "shapes K r ks" "conn_edges K (ids r) ks cs es"
  shows "shapes (K(length ks := KConn)) (r\<lparr>rmConnId := n, rmConns := (rmConns r)(length ks \<mapsto> cs)\<rparr>)
    (ks @ [(False, None, es)])"
  using shapesD [OF assms(1)] new_conn_shape [OF shapesD(7) [OF assms(1)] assms(2)]
  by (simp add: shapes_def fixed_append root_append peer_append group_append not_sub_append stream_append)

lemma kept_added_conn:
  assumes k: "kept K r own settled held" and h: "home r sys tr" and cs: "cPeer cs = None"
    "cIsAllowlisted cs \<longleftrightarrow> sys = rmAllowlistedSystem r"
  shows "\<exists>r'. added_conn r [tr, sys] cs = Some (length (rmStore r), r') \<and>
    kept (K(length (rmStore r) := KConn)) r' own settled held \<and> rks r' = rks r @ [(False, None, [tr, sys])] \<and>
    rmConns r' = (rmConns r)(length (rmStore r) \<mapsto> cs) \<and> rmConnLimiter r' = rmConnLimiter r \<and> ids r' = ids r \<and>
    rmLimits r' = rmLimits r \<and> rmAllowlist r' = rmAllowlist r"
proof -
  note hf = home_facts [OF k h]
  have es: "may_hold (rmStore r) [tr, sys]" using hf by (intro may_holdI [OF k]) auto
  have di: "distinct (fixed_scopes (ids r))"
    using shapesD(1) [OF keptD(1) [OF k]] by (simp add: fixed_shape_def)
  have ce: "conn_edges K (ids r) (rks r) cs [tr, sys]"
    using cs h di by (auto simp: conn_edges_def home_def fixed_scopes_def)
  obtain st where st: "newResourceScope (rmStore r) (GetConnLimits (rmLimits r)) [tr, sys] (connScopeName (add64 (rmConnId r) 1)) = Some (length (rmStore r), st)"
      "map skel st = rks r @ [(False, None, [tr, sys])]"
      "\<And>r' K'. rmStore r' = st \<Longrightarrow> ids r' = ids r \<Longrightarrow> shapes K' r' (rks r @ [(False, None, [tr, sys])]) \<Longrightarrow>
       kept K' r' own settled held"
    using kept_new [OF k es] by blast
  let ?r = "r\<lparr>rmConnId := add64 (rmConnId r) 1, rmStore := st, rmConns := (rmConns r)(length (rmStore r) \<mapsto> cs)\<rparr>"
  have "kept (K(length (rmStore r) := KConn)) ?r own settled held"
    using shapes_new_conn [OF keptD(1) [OF k] ce, of "add64 (rmConnId r) 1"]
    by (intro st(3)) (simp_all add: shapes_def)
  then show ?thesis using st(1,2) by (simp add: added_conn_def ids_def)
qed

lemma managed_added_conn:
  assumes k: "kept K r own settled held" "\<And>p. 0 \<le> held p" and h: "home r sys tr" and cs: "cPeer cs = None"
    "cIsAllowlisted cs \<longleftrightarrow> sys = rmAllowlistedSystem r"
    and live: "live = (if IsValid (cIP cs) then add_mset (cIP cs) (live_ips r) else live_ips r)"
    and cl: "cl_rel (rmConnLimiter r) live" "same_limits cl0 (rmConnLimiter r)" "cl_within cl0 live" "int (size live) < MaxInt64"
  shows "\<exists>r'. added_conn r [tr, sys] cs = Some (length (rmStore r), r') \<and>
    managed cl0 (K(length (rmStore r) := KConn)) r' own held \<and> rmConns r' (length (rmStore r)) = Some cs \<and>
    length (rmStore r') = Suc (length (rmStore r)) \<and> \<not> scDone (rmStore r' ! length (rmStore r)) \<and>
    ids r' = ids r \<and> rmAllowlist r' = rmAllowlist r \<and> live_ips r' = live"
proof -
  obtain r' where r': "added_conn r [tr, sys] cs = Some (length (rmStore r), r')"
      "kept (K(length (rmStore r) := KConn)) r' own settled held" "rks r' = rks r @ [(False, None, [tr, sys])]"
      "rmConns r' = (rmConns r)(length (rmStore r) \<mapsto> cs)" "rmConnLimiter r' = rmConnLimiter r" "ids r' = ids r"
      "rmAllowlist r' = rmAllowlist r"
    using kept_added_conn [OF k(1) h cs] by blast
  have "live_ips r' = live"
    using live_append [of "rmConns r" "rks r" "(False, None, [tr, sys])" cs] conns_dom(1) [OF k(1)]
    by (simp add: r'(3,4) live)
  moreover have len: "length (rmStore r') = Suc (length (rmStore r))" using arg_cong [OF r'(3), of length] by simp
  moreover have "\<not> scDone (rmStore r' ! length (rmStore r))"
    using arg_cong [OF r'(3), of "\<lambda>ks. dn ks (length (rmStore r))"] len skeleton_append(4) [of "rks r"]
    by (simp add: skeleton_fields)
  ultimately show ?thesis using r' cl k(2) by (simp add: managed_def)
qed

lemma room_longer:
  assumes "sound (rmStore r) own" "length (rmStore r) \<le> length (rmStore r')" "room r own d"
  shows "room r' own d"
proof -
  have "(\<Sum>x < length (rmStore r'). own c x) = (\<Sum>x < length (rmStore r). own c x)" for c
    using assms(1,2) by (intro sum.mono_neutral_right) (auto simp: sound_def)
  then show ?thesis using assms(3) by (simp add: room_def)
qed

lemma fresh_own: "sound st own \<Longrightarrow> length st \<le> c \<Longrightarrow> (\<lambda>kk. (own kk)(c := 0)) = own"
  by (auto simp: sound_def fun_eq_iff)

text \<open>\<open>openConnection\<close> after the limiter has answered.\<close>

definition enter_conn ::
  "resourceManager \<Rightarrow> Direction \<Rightarrow> bool \<Rightarrow> maddr \<Rightarrow> Addr \<Rightarrow> ((rm_error + sid) \<times> resourceManager) option"
where
  "enter_conn r1 dir usefd endpoint ip = do {
       (c, r2) \<leftarrow> newConnectionScope r1 dir usefd endpoint ip;
       (err, st) \<leftarrow> AddConn (rmStore r2) c dir usefd;
       let r3 = r2\<lparr>rmStore := st\<rparr>;
       (err, c, r4) \<leftarrow>
         (if err \<noteq> None \<and> IsValid ip \<and> Allowed (rmAllowlist r3) endpoint then do {
            r5 \<leftarrow> connectionScope_Done r3 c;
            (c', r6) \<leftarrow> newAllowListedConnectionScope r5 dir usefd endpoint;
            (err', st') \<leftarrow> AddConn (rmStore r6) c' dir usefd;
            Some (err', c', r6\<lparr>rmStore := st'\<rparr>) }
          else Some (err, c, r3));
       case err of
         Some e \<Rightarrow> do { r7 \<leftarrow> connectionScope_Done r4 c; Some (Inl (ErrScope e), r7) }
       | None \<Rightarrow> Some (Inr c, r4) }"

lemma same_store [simp]: "(r :: resourceManager)\<lparr>rmStore := rmStore r\<rparr> = r"
  by simp

definition opened :: "connLimiter \<Rightarrow> resourceManager \<Rightarrow> ledger \<Rightarrow> (sid \<Rightarrow> int) \<Rightarrow> (counter \<Rightarrow> int)
    \<Rightarrow> (rm_error + sid) \<times> resourceManager \<Rightarrow> bool"
where
  "opened cl0 r own held d res \<longleftrightarrow> (\<exists>K'. case res of
      (Inl e, r') \<Rightarrow> managed cl0 K' r' own held
    | (Inr c, r') \<Rightarrow> length (rmStore r) \<le> c \<and> c < length (rmStore r') \<and> \<not> scDone (rmStore r' ! c) \<and>
        managed cl0 K' r' (bump own c d) held)"

lemma opened_limiter [simp]: "opened cl0 (r\<lparr>rmConnLimiter := cl\<rparr>) = opened cl0 r"
  by (simp add: opened_def fun_eq_iff cong: sum.case_cong)

text \<open>What happens to a fresh connection scope: charged, or closed again.\<close>

lemma managed_charge:
  assumes m: "managed cl0 K r own held" and c: "rmConns r c = Some cs" "\<not> scDone (rmStore r ! c)"
    and rm: "room r own (conn_delta dir usefd)" and fr: "\<And>kk. own kk c = 0"
  shows "(\<exists>st. AddConn (rmStore r) c dir usefd = Some (None, st) \<and> \<not> scDone (st ! c) \<and> length st = length (rmStore r) \<and>
       managed cl0 K (r\<lparr>rmStore := st\<rparr>) (bump own c (conn_delta dir usefd)) held) \<or>
    (\<exists>e r'. AddConn (rmStore r) c dir usefd = Some (Some e, rmStore r) \<and> connectionScope_Done r c = Some r' \<and>
       managed cl0 K r' own held \<and> length (rmStore r') = length (rmStore r) \<and> ids r' = ids r \<and>
       live_ips r = (if IsValid (cIP cs) then add_mset (cIP cs) (live_ips r') else live_ips r'))"
proof -
  have lt: "c < length (rmStore r)" using conns_dom(1) [OF managedD(1) [OF m]] c(1) by simp
  obtain err st where a: "AddConn (rmStore r) c dir usefd = Some (err, st)" "err \<noteq> None \<longrightarrow> st = rmStore r"
    "err = None \<longrightarrow> managed cl0 K (r\<lparr>rmStore := st\<rparr>) (bump own c (conn_delta dir usefd)) held \<and> same_skeleton (rmStore r) st"
    using conacc.managed_acquire [OF m lt rm] by blast
  show ?thesis
  proof (cases err)
    case None
    then show ?thesis using a c(2) lt skeletonD(1) [of "rmStore r" st c] skeleton_length [of "rmStore r" st] by auto
  next
    case (Some e)
    have "(\<lambda>kk. (own kk)(c := 0)) = own" using fr by (auto simp: fun_eq_iff)
    then show ?thesis using managed_conn_Done [OF m c(1)] c(2) a Some by auto
  qed
qed

lemma managed_enter_conn:
  assumes k: "kept K r own settled held" "\<And>p. 0 \<le> held p" and rm: "room r own (conn_delta dir usefd)"
    and live: "live = (if IsValid ip then add_mset ip (live_ips r) else live_ips r)"
    and cl: "cl_rel (rmConnLimiter r) live" "same_limits cl0 (rmConnLimiter r)" "cl_within cl0 live" "int (size live) < MaxInt64"
  shows "\<exists>res. enter_conn r dir usefd ep ip = Some res \<and> opened cl0 r own held (conn_delta dir usefd) res \<and>
    fst res \<noteq> Inl ErrTooManyConnsFromIP"
proof -
  let ?d = "conn_delta dir usefd" and ?c = "length (rmStore r)"
  have fr: "own kk x = 0" if "?c \<le> x" for kk x using keptD(3) [OF k(1)] that by (simp add: sound_def)
  have di: "distinct (fixed_scopes (ids r))" using shapesD(1) [OF keptD(1) [OF k(1)]] by (simp add: fixed_shape_def)
  define cs where "cs = \<lparr>cDir = dir, cUsefd = usefd, cIsAllowlisted = False, cPeer = None, cEndpoint = ep, cIP = ip\<rparr>"
  define cs' where "cs' = \<lparr>cDir = dir, cUsefd = usefd, cIsAllowlisted = True, cPeer = None, cEndpoint = ep, cIP = AddrZero\<rparr>"
  have h: "home r (rmSystem r) (rmTransient r)" "cPeer cs = None" "cIsAllowlisted cs \<longleftrightarrow> rmSystem r = rmAllowlistedSystem r"
    using di by (auto simp: home_def cs_def fixed_scopes_def)
  have lv: "live = (if IsValid (cIP cs) then add_mset (cIP cs) (live_ips r) else live_ips r)" by (simp add: live cs_def)
  obtain r2 where r2: "newConnectionScope r dir usefd ep ip = Some (?c, r2)" and m2: "managed cl0 (K(?c := KConn)) r2 own held"
      and c2: "rmConns r2 ?c = Some cs" "length (rmStore r2) = Suc ?c" "\<not> scDone (rmStore r2 ! ?c)" "ids r2 = ids r"
    using managed_added_conn [OF k h lv cl] unfolding new_conn_added cs_def [symmetric] by blast
  have rm2: "room r2 own ?d" using room_longer [OF keptD(3) [OF k(1)] _ rm] c2(2) by simp
  from managed_charge [OF m2 c2(1,3) rm2 fr [OF order_refl]] show ?thesis
  proof (elim disjE exE conjE)
    fix st assume "AddConn (rmStore r2) ?c dir usefd = Some (None, st)" "\<not> scDone (st ! ?c)" "length st = length (rmStore r2)"
      "managed cl0 (K(?c := KConn)) (r2\<lparr>rmStore := st\<rparr>) (bump own ?c ?d) held"
    then show ?thesis using r2 c2(2) by (auto simp: enter_conn_def opened_def Let_def)
  next
    fix e r5 assume e: "AddConn (rmStore r2) ?c dir usefd = Some (Some e, rmStore r2)" "connectionScope_Done r2 ?c = Some r5"
      and m5: "managed cl0 (K(?c := KConn)) r5 own held"
      and l5: "length (rmStore r5) = length (rmStore r2)" and i5: "ids r5 = ids r2"
    show ?thesis
    proof (cases "IsValid ip \<and> Allowed (rmAllowlist r2) ep")
      case False
      then show ?thesis using r2 e m5 by (auto simp: enter_conn_def opened_def Let_def)
    next
      case True
      let ?c' = "length (rmStore r5)"
      note k5 = managedD [OF m5]
      have "rmAllowlistedSystem r5 = rmAllowlistedSystem r" "rmSystem r5 = rmSystem r" using i5 c2(4) by (auto simp: ids_def)
      then have h': "home r5 (rmAllowlistedSystem r5) (rmAllowlistedTransient r5)" "cPeer cs' = None"
          "cIsAllowlisted cs' \<longleftrightarrow> rmAllowlistedSystem r5 = rmAllowlistedSystem r5"
        by (auto simp: home_def cs'_def)
      have "live_ips r5 = (if IsValid (cIP cs') then add_mset (cIP cs') (live_ips r5) else live_ips r5)"
        by (simp add: cs'_def IsValid_def)
      then obtain r6 where r6: "newAllowListedConnectionScope r5 dir usefd ep = Some (?c', r6)"
          and m6: "managed cl0 (K(?c := KConn, ?c' := KConn)) r6 own held"
          and c6: "rmConns r6 ?c' = Some cs'" "length (rmStore r6) = Suc ?c'" "\<not> scDone (rmStore r6 ! ?c')"
        using managed_added_conn [OF k5(1,2) h' _ k5(3-6)] unfolding new_conn_added cs'_def [symmetric] by blast
      have rm6: "room r6 own ?d" using room_longer [OF keptD(3) [OF k(1)] _ rm] c2(2) l5 c6(2) by simp
      have "own kk ?c' = 0" for kk using fr [of ?c'] l5 c2(2) by simp
      from managed_charge [OF m6 c6(1,3) rm6 this] show ?thesis
      proof (elim disjE exE conjE)
        fix st assume "AddConn (rmStore r6) ?c' dir usefd = Some (None, st)" "\<not> scDone (st ! ?c')" "length st = length (rmStore r6)"
          "managed cl0 (K(?c := KConn, ?c' := KConn)) (r6\<lparr>rmStore := st\<rparr>) (bump own ?c' ?d) held"
        then show ?thesis using r2 e r6 True l5 c2(2) c6(2) by (auto simp: enter_conn_def opened_def Let_def)
      next
        fix e' r7 assume "AddConn (rmStore r6) ?c' dir usefd = Some (Some e', rmStore r6)" "connectionScope_Done r6 ?c' = Some r7"
          "managed cl0 (K(?c := KConn, ?c' := KConn)) r7 own held"
        then show ?thesis using r2 e r6 True by (auto simp: enter_conn_def opened_def Let_def)
      qed
    qed
  qed
qed

lemma openConnection_enter:
  "openConnection r dir usefd ep ip = (if IsValid ip then do {
      (ok, cl) \<leftarrow> cl_addConn (rmConnLimiter r) ip;
      if \<not> ok then Some (Inl ErrTooManyConnsFromIP, r\<lparr>rmConnLimiter := cl\<rparr>)
      else enter_conn (r\<lparr>rmConnLimiter := cl\<rparr>) dir usefd ep ip }
    else enter_conn r dir usefd ep ip)"
  by (simp add: openConnection_def enter_conn_def split: Option.bind_split)

lemma managed_openConnection:
  assumes m: "managed cl0 K r own held" and rm: "room r own (conn_delta dir usefd)"
    and sz: "int (size (live_ips r)) + 1 < MaxInt64"
  shows "\<exists>res. openConnection r dir usefd ep ip = Some res \<and> opened cl0 r own held (conn_delta dir usefd) res \<and>
    (fst res = Inl ErrTooManyConnsFromIP \<longleftrightarrow> IsValid ip \<and> \<not> cl_admits cl0 (live_ips r) ip)"
proof (cases "IsValid ip")
  case False
  then show ?thesis
    using managed_enter_conn [OF managedD(1,2) [OF m] rm refl, of ip cl0 ep] managedD(3-6) [OF m]
    by (auto simp: openConnection_enter)
next
  case True
  note d = managedD [OF m]
  obtain cl where cl: "cl_addConn (rmConnLimiter r) ip = Some (cl_admits cl0 (live_ips r) ip, cl)"
      "cl_rel cl (if cl_admits cl0 (live_ips r) ip then add_mset ip (live_ips r) else live_ips r)" "same_limits cl0 cl"
    using lim.add_law [of "rmConnLimiter r" "live_ips r" cl0 ip] d(3,4,6) by auto
  let ?r = "r\<lparr>rmConnLimiter := cl\<rparr>"
  have k: "kept K ?r own settled held" using d(1) by (simp add: kept_limiter)
  show ?thesis
  proof (cases "cl_admits cl0 (live_ips r) ip")
    case ok: True
    have "room ?r own (conn_delta dir usefd)" using rm by (simp add: room_def)
    moreover have "cl_within cl0 (add_mset ip (live_ips r))" by (rule cl_within_add [OF d(5) ok])
    ultimately show ?thesis
      using managed_enter_conn [OF k d(2), of dir usefd "add_mset ip (live_ips r)" ip cl0 ep] True ok cl sz
      by (auto simp: openConnection_enter)
  next
    case no: False
    have "managed cl0 K ?r own held" using m k cl no by (simp add: managed_def)
    then show ?thesis using True no cl by (auto simp: openConnection_enter opened_def)
  qed
qed

section \<open>Streams\<close>

lemma shapes_new_stream:
  assumes "shapes K r ks" "stream_edges K (ids r) ks ss es"
  shows "shapes (K(length ks := KStream)) (r\<lparr>rmStreamId := n, rmStreams := (rmStreams r)(length ks \<mapsto> ss)\<rparr>)
    (ks @ [(False, None, es)])"
  using shapesD [OF assms(1)] new_stream_shape [OF shapesD(8) [OF assms(1)] assms(2)]
  by (simp add: shapes_def fixed_append root_append peer_append group_append not_sub_append conn_append)

lemma kept_newStream:
  assumes k: "kept K r own settled held" and p: "kind_at K (rks r) peer (KPeer p)" "\<not> scDone (rmStore r ! peer)"
  shows "\<exists>r'. newStreamScope r dir p peer = Some (length (rmStore r), r') \<and>
    kept (K(length (rmStore r) := KStream)) r' own settled held \<and>
    rks r' = rks r @ [(False, None, [peer, rmTransient r, rmSystem r])] \<and> rmConns r' = rmConns r \<and>
    rmConnLimiter r' = rmConnLimiter r \<and> ids r' = ids r"
proof -
  let ?es = "[peer, rmTransient r, rmSystem r]"
  have hf: "kind_at K (rks r) (rmSystem r) KFixed" "kind_at K (rks r) (rmTransient r) KFixed" "rmSystem r \<noteq> rmTransient r"
      "\<not> scDone (rmStore r ! rmSystem r)" "\<not> scDone (rmStore r ! rmTransient r)"
    using home_facts [OF k, of "rmSystem r" "rmTransient r"] by (simp_all add: home_def)
  have "peer \<noteq> rmSystem r" "peer \<noteq> rmTransient r" using p(1) hf(1,2) by (auto simp: kind_at_def)
  then have es: "may_hold (rmStore r) ?es" using hf p by (intro may_holdI [OF k]) auto
  define ss where "ss = \<lparr>sDir = dir, sPeer = peer, sSvc = None, sProto = None, sPeerProtoScope = None, sPeerSvcScope = None\<rparr>"
  have se: "stream_edges K (ids r) (rks r) ss ?es" using p(1) by (auto simp: stream_edges_def ss_def)
  let ?n = "add64 (rmStreamId r) 1"
  obtain st where st: "newResourceScope (rmStore r) (GetStreamLimits (rmLimits r) p) ?es (streamScopeName ?n) = Some (length (rmStore r), st)"
      "map skel st = rks r @ [(False, None, ?es)]"
      "\<And>r' K'. rmStore r' = st \<Longrightarrow> ids r' = ids r \<Longrightarrow> shapes K' r' (rks r @ [(False, None, ?es)]) \<Longrightarrow>
       kept K' r' own settled held"
    using kept_new [OF k es] by blast
  let ?r = "r\<lparr>rmStreamId := ?n, rmStore := st, rmStreams := (rmStreams r)(length (rmStore r) \<mapsto> ss)\<rparr>"
  have "kept (K(length (rmStore r) := KStream)) ?r own settled held"
    using shapes_new_stream [OF keptD(1) [OF k] se, of ?n] by (intro st(3)) (simp_all add: shapes_def)
  then show ?thesis using st(1,2) by (simp add: newStreamScope_def nextStreamId_def ss_def)
qed

text \<open>Streams and spans are not connections: the limiter does not see them.\<close>

lemma managed_Done:
  assumes m: "managed cl0 K r own held" and i: "i < length (rmStore r)" and kd: "K i = KStream \<or> K i = KSpan"
  shows "\<exists>r'. rm_Done r i = Some r' \<and> (if scDone (rmStore r ! i) then r' = r
     else managed cl0 K r' (\<lambda>c. (own c)(i := 0)) held \<and> length (rmStore r') = length (rmStore r) \<and> scDone (rmStore r' ! i))"
proof (cases "scDone (rmStore r ! i)")
  case True
  then show ?thesis using i by (simp add: rm_Done_def Done_def doneUnlocked_def)
next
  case False
  note k = managedD(1) [OF m]
  obtain st where st: "Done (rmStore r) i = Some st" "kept K (r\<lparr>rmStore := st\<rparr>) (\<lambda>kk. (own kk)(i := 0)) settled held"
      "map skel st = (rks r)[i := (True, scOwner (rmStore r ! i), scEdges (rmStore r ! i))]"
    using kept_close [OF k i False] kd by blast
  have "rmConns r i = None" using conns_dom(2) [OF k, of i] kd by (cases "rmConns r i") (auto simp: kind_at_def)
  then have "live_of (map skel st) (rmConns r) = live_ips r"
    using live_close [of i "rks r" "rmConns r" "scOwner (rmStore r ! i)" "scEdges (rmStore r ! i)"] i False
    by (simp add: st(3) skeleton_fields)
  then have "managed cl0 K (r\<lparr>rmStore := st\<rparr>) (\<lambda>c. (own c)(i := 0)) held"
    using managedD [OF m] st(2) by (simp add: managed_def)
  moreover have "length st = length (rmStore r)" using arg_cong [OF st(3), of length] by simp
  moreover have "scDone (st ! i)"
    using arg_cong [OF st(3), of "\<lambda>ks. dn ks i"] i calculation(2) by (simp add: skeleton_fields)
  ultimately show ?thesis using False st(1) by (simp add: rm_Done_def)
qed

lemma managed_OpenStream:
  assumes m: "managed cl0 K r own held" and rm: "room r own (stream_delta dir)"
  shows "\<exists>res. OpenStream r p dir = Some res \<and> opened cl0 r own held (stream_delta dir) res"
proof -
  note k = managedD(1) [OF m]
  obtain peer r1 K1 where peer: "getPeerScope r p = Some (peer, r1)" and g: "got K r own settled held (KPeer p) peer K1 r1"
    using kept_getPeerScope [OF k] by blast
  have k1: "kept K1 r1 own settled (held(peer := held peer + 1))" and gr: "grown K r K1 r1"
    and kp: "kind_at K1 (rks r1) peer (KPeer p)" "\<not> scDone (rmStore r1 ! peer)" using g unfolding got_def by auto
  let ?s = "length (rmStore r1)"
  obtain r2 where r2: "newStreamScope r1 dir p peer = Some (?s, r2)"
      "kept (K1(?s := KStream)) r2 own settled (held(peer := held peer + 1))"
      "rks r2 = rks r1 @ [(False, None, [peer, rmTransient r1, rmSystem r1])]" "rmConns r2 = rmConns r1"
      "rmConnLimiter r2 = rmConnLimiter r1" "ids r2 = ids r1"
    using kept_newStream [OF k1 kp] by blast
  have len: "length (rmStore r2) = Suc ?s" using arg_cong [OF r2(3), of length] by simp
  have ltp: "peer < length (rmStore r1)" using kp(1) by (simp add: kind_at_def)
  then obtain r3 where r3: "rm_DecRef r2 peer = Some r3" "recount r2 r3" "kept (K1(?s := KStream)) r3 own settled held"
    using kept_DecRef [OF r2(2), of peer] len by auto
  have "steady r1 r2"
  proof -
    have "scDone (rmStore r2 ! x) = scDone (rmStore r1 ! x)" if "x < ?s" for x
      using arg_cong [OF r2(3), of "\<lambda>ks. dn ks x"] that len by (simp add: skeleton_fields)
    then show ?thesis using len r2(4-6) by (simp add: steady_def)
  qed
  then have "steady r r3" using steady_trans grown_steady [OF gr] recount_steady [OF r3(2)] by blast
  then have m3: "managed cl0 (K1(?s := KStream)) r3 own held" by (rule managed_steady [OF m r3(3) _ managedD(2) [OF m]])
  have l3: "length (rmStore r3) = Suc ?s" "\<not> scDone (rmStore r3 ! ?s)"
    using len recountD(13) [OF r3(2)] arg_cong [OF r2(3), of "\<lambda>ks. dn ks ?s"] recountD(1) [OF r3(2)]
      skeleton_append(4) [of "rks r1"] skeleton_fields(1) [of ?s "rmStore r3"] by auto
  have le: "length (rmStore r) \<le> ?s" by (rule grownD(5) [OF gr])
  have rm3: "room r3 own (stream_delta dir)" using room_longer [OF keptD(3) [OF k] _ rm] le l3(1) by simp
  obtain err st where a: "AddStream (rmStore r3) ?s dir = Some (err, st)" "err \<noteq> None \<longrightarrow> st = rmStore r3"
      "err = None \<longrightarrow> managed cl0 (K1(?s := KStream)) (r3\<lparr>rmStore := st\<rparr>) (bump own ?s (stream_delta dir)) held \<and>
        same_skeleton (rmStore r3) st"
    using stracc.managed_acquire [OF m3 _ rm3, of ?s] l3(1) by auto
  show ?thesis
  proof (cases err)
    case None
    then have "length st = Suc ?s" "\<not> scDone (st ! ?s)"
      using a(3) l3 skeleton_length [of "rmStore r3" st] skeletonD(1) [of "rmStore r3" st ?s] by auto
    then show ?thesis
      using None a(1,3) peer r2(1) r3(1) le by (auto simp: OpenStream_def opened_def Let_def)
  next
    case (Some e)
    obtain r5 where "rm_Done r3 ?s = Some r5" "managed cl0 (K1(?s := KStream)) r5 (\<lambda>c. (own c)(?s := 0)) held"
      using managed_Done [OF m3, of ?s] l3 by auto
    moreover have "(\<lambda>c. (own c)(?s := 0)) = own" by (rule fresh_own [OF keptD(3) [OF k] le])
    ultimately show ?thesis
      using Some a(1,2) peer r2(1) r3(1) by (auto simp: OpenStream_def opened_def Let_def)
  qed
qed

end
