(* ===== verification/Manager_Gc.thy ===== *)
theory Manager_Gc
  imports Manager_Calls
begin

text \<open>
  The garbage collector of the manager: it always returns, keeps the invariant, leaves every
  connection, stream and span as it is, and only ever closes scopes nothing open is counted
  against.
\<close>

section \<open>What a sweep leaves alone\<close>

text \<open>What callers held on a scope is forgotten when the scope is closed.\<close>

definition forget :: "resourceManager \<Rightarrow> resourceManager \<Rightarrow> ledger \<Rightarrow> ledger" where
  "forget r r' own = (\<lambda>c x. if x < length (rmStore r) \<and> \<not> scDone (rmStore r ! x) \<and> scDone (rmStore r' ! x)
     then 0 else own c x)"

definition swept :: "kinds \<Rightarrow> resourceManager \<Rightarrow> resourceManager \<Rightarrow> bool" where
  "swept K r r' \<longleftrightarrow> length (rmStore r') = length (rmStore r) \<and> rmConns r' = rmConns r \<and>
     rmStreams r' = rmStreams r \<and> rmConnLimiter r' = rmConnLimiter r \<and> ids r' = ids r \<and>
     rmStickyProto r' = rmStickyProto r \<and> rmStickyPeer r' = rmStickyPeer r \<and>
     (\<forall>x < length (rmStore r). scOwner (rmStore r' ! x) = scOwner (rmStore r ! x) \<and>
        scEdges (rmStore r' ! x) = scEdges (rmStore r ! x) \<and>
        (scDone (rmStore r ! x) \<longrightarrow> scDone (rmStore r' ! x)) \<and>
        (K x \<in> {KConn, KStream, KSpan, KFixed} \<longrightarrow> scDone (rmStore r' ! x) = scDone (rmStore r ! x)) \<and>
        (K x \<noteq> KFixed \<and> scDone (rmStore r' ! x) = scDone (rmStore r ! x) \<longrightarrow>
          scRC (rmStore r' ! x) = scRC (rmStore r ! x) \<and> scRefCnt (rmStore r' ! x) = scRefCnt (rmStore r ! x)))"

lemma swept_refl: "swept K r r"
  by (simp add: swept_def)

lemma swept_trans: "swept K r r' \<Longrightarrow> swept K r' r'' \<Longrightarrow> swept K r r''"
  unfolding swept_def by (intro conjI allI impI; (elim conjE)?) metis+

lemma forget_refl [simp]: "forget r r own = own"
  by (auto simp: forget_def fun_eq_iff)

lemma forget_trans:
  assumes "swept K r r'" "swept K r' r''"
  shows "forget r' r'' (forget r r' own) = forget r r'' own"
proof (intro ext)
  fix c x
  show "forget r' r'' (forget r r' own) c x = forget r r'' own c x"
    using assms by (cases "x < length (rmStore r)") (auto simp: forget_def swept_def)
qed

definition sweeps :: "connLimiter \<Rightarrow> kinds \<Rightarrow> (sid \<Rightarrow> int) \<Rightarrow> resourceManager \<Rightarrow> ledger \<Rightarrow> resourceManager \<Rightarrow> bool" where
  "sweeps cl0 K held r own r' \<longleftrightarrow> managed cl0 K r' (forget r r' own) held \<and> swept K r r'"

lemma sweeps_refl: "managed cl0 K r own held \<Longrightarrow> sweeps cl0 K held r own r"
  by (simp add: sweeps_def swept_refl)

lemma sweeps_trans:
  "sweeps cl0 K held r own r' \<Longrightarrow> sweeps cl0 K held r' (forget r r' own) r'' \<Longrightarrow> sweeps cl0 K held r own r''"
  using swept_trans forget_trans by (metis sweeps_def)

text \<open>A loop of sweeps is a sweep; \<open>J\<close> is what the loop keeps of the tables.\<close>

lemma forEach_sweeps:
  assumes step: "\<And>s x own. x \<in> set xs \<Longrightarrow> managed cl0 K (g s) own held \<Longrightarrow> J s \<Longrightarrow>
      \<exists>s'. f s x = Some s' \<and> sweeps cl0 K held (g s) own (g s') \<and> J s'"
    and "managed cl0 K (g s) own held" "J s"
  shows "\<exists>s'. forEach f s xs = Some s' \<and> sweeps cl0 K held (g s) own (g s') \<and> J s'"
  using assms
proof (induction xs arbitrary: s own)
  case Nil
  then show ?case by (simp add: sweeps_refl)
next
  case (Cons x xs)
  obtain s1 where s1: "f s x = Some s1" "sweeps cl0 K held (g s) own (g s1)" "J s1"
    using Cons.prems(1) [of x s own] Cons.prems(2,3) by auto
  have "managed cl0 K (g s1) (forget (g s) (g s1) own) held" using s1(2) by (simp add: sweeps_def)
  then obtain s2 where s2: "forEach f s1 xs = Some s2" "sweeps cl0 K held (g s1) (forget (g s) (g s1) own) (g s2)" "J s2"
    using Cons.IH [of s1 "forget (g s) (g s1) own"] Cons.prems(1) s1(3) by (meson list.set_intros(2))
  then show ?case using s1(1) sweeps_trans [OF s1(2) s2(2)] by auto
qed

section \<open>Closing one scope\<close>

lemma unused_free:
  assumes m: "managed cl0 K r own held" and s: "s < length (rmStore r)" "\<not> scDone (rmStore r ! s)"
    and u: "IsUnused (rmStore r) s = Some True"
  shows "holders (rmStore r) s = {}" "open_spans (rmStore r) s = {}" "held s = 0"
proof -
  have "scRefCnt (rmStore r ! s) \<le> 0" using u s by (auto simp: IsUnused_def Let_def split: if_splits)
  moreover have "scRefCnt (rmStore r ! s) = int (card (holders (rmStore r) s)) + int (card (open_spans (rmStore r) s)) +
      (base_refs (ids r) s + held s)"
    using keptD(2) [OF managedD(1) [OF m]] s(1) by (simp add: books_def counted_def)
  moreover have "0 \<le> base_refs (ids r) s" by (simp add: base_refs_def)
  ultimately have "int (card (holders (rmStore r) s)) = 0 \<and> int (card (open_spans (rmStore r) s)) = 0 \<and> held s = 0"
    using managedD(2) [OF m, of s] by linarith
  then show "holders (rmStore r) s = {}" "open_spans (rmStore r) s = {}" "held s = 0" by simp_all
qed

lemma unused_total: "s < length st \<Longrightarrow> \<exists>u. IsUnused st s = Some u"
  by (auto simp: IsUnused_def Let_def)

lemma sweep_close:
  assumes m: "managed cl0 K r own held" and s: "s < length (rmStore r)" "\<not> scDone (rmStore r ! s)"
    and free: "holders (rmStore r) s = {}" and kd: "K s \<notin> {KConn, KStream, KSpan, KFixed}"
    and tab: "\<And>r. rmStore (tab r) = rmStore r" "\<And>r. ids (tab r) = ids r" "\<And>r. rmConns (tab r) = rmConns r"
      "\<And>r. rmStreams (tab r) = rmStreams r" "\<And>r. rmConnLimiter (tab r) = rmConnLimiter r"
      "\<And>r. rmStickyProto (tab r) = rmStickyProto r" "\<And>r. rmStickyPeer (tab r) = rmStickyPeer r"
    and sh: "\<And>st. shapes K (tab (r\<lparr>rmStore := st\<rparr>)) ((rks r)[s := (True, None, scEdges (rmStore r ! s))])"
    and up: "\<And>e. e \<in> set (scEdges (rmStore r ! s)) \<Longrightarrow> K e = KFixed"
  shows "\<exists>st. rm_Done r s = Some (r\<lparr>rmStore := st\<rparr>) \<and> sweeps cl0 K held r own (tab (r\<lparr>rmStore := st\<rparr>)) \<and>
    length st = length (rmStore r)"
proof -
  note k = managedD(1) [OF m]
  have root: "scOwner (rmStore r ! s) = None"
    using kind_root(2) [OF k, of s "K s"] s(1) kd by (auto simp: kind_at_def)
  obtain st where st: "Done (rmStore r) s = Some st"
      "map skel st = (rks r)[s := (True, scOwner (rmStore r ! s), scEdges (rmStore r ! s))]"
      "\<And>r'. rmStore r' = st \<Longrightarrow> ids r' = ids r \<Longrightarrow> shapes K r' (map skel st) \<Longrightarrow>
         kept K r' (\<lambda>c. (own c)(s := 0)) settled held"
    using kept_Done [OF k s free] by blast
  let ?r = "tab (r\<lparr>rmStore := st\<rparr>)"
  have len: "length st = length (rmStore r)" using arg_cong [OF st(2), of length] by simp
  have fields: "scDone (st ! x) = (x = s \<or> scDone (rmStore r ! x))" "scOwner (st ! x) = scOwner (rmStore r ! x)"
      "scEdges (st ! x) = scEdges (rmStore r ! x)" if "x < length (rmStore r)" for x
    using arg_cong [OF st(2), of "\<lambda>ks. dn ks x"] arg_cong [OF st(2), of "\<lambda>ks. ow ks x"]
      arg_cong [OF st(2), of "\<lambda>ks. ed ks x"] that s len by (auto simp: skeleton_fields split: if_splits)
  have eff: "done_effect (rmStore r) s st" using Done_effect [OF keptD(6) [OF k] keptD(7) [OF k] s] st(1) by auto
  have "set (released (rmStore r) s) \<subseteq> insert s (set (scEdges (rmStore r ! s)))"
    using s root by (auto simp: released.simps [of "rmStore r" s])
  then have frame: "scRC (st ! x) = scRC (rmStore r ! x)" "scRefCnt (st ! x) = scRefCnt (rmStore r ! x)"
    if "x < length (rmStore r)" "scDone (st ! x) = scDone (rmStore r ! x)" "K x \<noteq> KFixed" for x
    using eff up that root fields(1) [OF that(1)] s(2) by (auto simp: done_effect_def)
  have kept': "kept K ?r (\<lambda>c. (own c)(s := 0)) settled held"
    using sh [of st] by (intro st(3)) (simp_all add: tab st(2) root)
  have own: "(\<lambda>c. (own c)(s := 0)) = forget r ?r own"
    using s fields by (auto simp: forget_def tab fun_eq_iff)
  have "rmConns r s = None" using conns_dom(2) [OF k, of s] kd by (cases "rmConns r s") (auto simp: kind_at_def)
  then have "live_ips ?r = live_ips r"
    using live_close [of s "rks r" "rmConns r" "scOwner (rmStore r ! s)" "scEdges (rmStore r ! s)"] s
    by (simp add: tab st(2) skeleton_fields)
  then have "managed cl0 K ?r (forget r ?r own) held"
    using managedD [OF m] kept' by (simp add: managed_def tab own)
  moreover have "swept K r ?r" using fields frame len kd tab s by (auto simp: swept_def)
  ultimately show ?thesis using st(1) len by (auto simp: rm_Done_def sweeps_def)
qed

section \<open>The passes\<close>

lemma shapes_gc_proto:
  assumes sh: "shapes K r ks" and reg: "rmProto r q = Some s"
  shows "shapes K (r\<lparr>rmProto := (rmProto r)(q := None)\<rparr>) (ks[s := (True, None, [rmSystem r])])"
proof -
  note d = shapesD [OF sh]
  have s: "s < length ks" "K s = KProto q" using group_shapeD(3) [OF d(4) reg] by (auto simp: kind_at_def)
  have "ow ks s = None" using d(2) s by (auto simp: root_shape_def)
  then show ?thesis
    using d s group_closed [OF d(4) reg, of None]
    by (simp add: shapes_def fixed_upd root_upd peer_upd group_upd_other sub_upd_other conn_upd stream_upd inj_def)
qed

lemma shapes_gc_peer:
  assumes sh: "shapes K r ks" and reg: "rmPeer r p = Some s"
  shows "shapes K (r\<lparr>rmPeer := (rmPeer r)(p := None)\<rparr>) (ks[s := (True, None, [rmSystem r])])"
proof -
  note d = shapesD [OF sh]
  have s: "s < length ks" "K s = KPeer p" using peer_shapeD(3) [OF d(3) reg] by (auto simp: kind_at_def)
  have "ow ks s = None" using d(2) s by (auto simp: root_shape_def)
  then show ?thesis
    using d s peer_closed [OF d(3) reg, of None]
    by (simp add: shapes_def fixed_upd root_upd group_upd_other sub_upd_other conn_upd stream_upd)
qed

lemma gc_proto_sweeps:
  assumes m: "managed cl0 K r own held"
  shows "\<exists>r'. gc_proto r q = Some r' \<and> sweeps cl0 K held r own r'"
proof (cases "rmProto r q")
  case None
  then show ?thesis using m by (simp add: gc_proto_def sweeps_refl)
next
  case (Some s)
  note k = managedD(1) [OF m]
  note d = shapesD [OF keptD(1) [OF k]]
  have s: "s < length (rmStore r)" "K s = KProto q" "\<not> scDone (rmStore r ! s)" "scEdges (rmStore r ! s) = [rmSystem r]"
    using group_shapeD(1) [OF d(4), of s q] group_shapeD(3) [OF d(4) Some] by (auto simp: kind_at_def skeleton_fields)
  obtain u where u: "IsUnused (rmStore r) s = Some u" using unused_total [OF s(1)] by blast
  show ?thesis
  proof (cases "q \<in> rmStickyProto r \<or> \<not> u")
    case True
    then show ?thesis using Some u m by (auto simp: gc_proto_def sweeps_refl)
  next
    case False
    let ?tab = "\<lambda>r. r\<lparr>rmProto := (rmProto r)(q := None)\<rparr>"
    have "shapes K (?tab (r\<lparr>rmStore := st\<rparr>)) ((rks r)[s := (True, None, scEdges (rmStore r ! s))])" for st
      using shapes_gc_proto [OF keptD(1) [OF k] Some] s(4) by (simp add: shapes_def)
    then obtain st where "rm_Done r s = Some (r\<lparr>rmStore := st\<rparr>)" "sweeps cl0 K held r own (?tab (r\<lparr>rmStore := st\<rparr>))"
      using sweep_close [OF m s(1,3), of ?tab] unused_free(1) [OF m s(1,3)] u False s(2,4)
        fixed_kind(1) [OF d(1)] by (auto simp: kind_at_def)
    then show ?thesis using Some u False by (auto simp: gc_proto_def)
  qed
qed

lemma gc_peer_sweeps:
  assumes m: "managed cl0 K r own held" and dead: "\<And>x. x \<in> set ds \<Longrightarrow> rmPeer r x = None"
  shows "\<exists>r' ds'. gc_peer (r, ds) p = Some (r', ds') \<and> sweeps cl0 K held r own r' \<and>
    (\<forall>x \<in> set ds'. rmPeer r' x = None)"
proof (cases "rmPeer r p")
  case None
  then show ?thesis using m dead by (simp add: gc_peer_def sweeps_refl)
next
  case (Some s)
  note k = managedD(1) [OF m]
  note d = shapesD [OF keptD(1) [OF k]]
  have s: "s < length (rmStore r)" "K s = KPeer p" "\<not> scDone (rmStore r ! s)" "scEdges (rmStore r ! s) = [rmSystem r]"
    using peer_shapeD(1) [OF d(3), of s p] peer_shapeD(3) [OF d(3) Some] by (auto simp: kind_at_def skeleton_fields)
  obtain u where u: "IsUnused (rmStore r) s = Some u" using unused_total [OF s(1)] by blast
  show ?thesis
  proof (cases "p \<in> rmStickyPeer r \<or> \<not> u")
    case True
    then show ?thesis using Some u m dead by (auto simp: gc_peer_def sweeps_refl)
  next
    case False
    let ?tab = "\<lambda>r. r\<lparr>rmPeer := (rmPeer r)(p := None)\<rparr>"
    have "shapes K (?tab (r\<lparr>rmStore := st\<rparr>)) ((rks r)[s := (True, None, scEdges (rmStore r ! s))])" for st
      using shapes_gc_peer [OF keptD(1) [OF k] Some] s(4) by (simp add: shapes_def)
    then obtain st where "rm_Done r s = Some (r\<lparr>rmStore := st\<rparr>)" "sweeps cl0 K held r own (?tab (r\<lparr>rmStore := st\<rparr>))"
      using sweep_close [OF m s(1,3), of ?tab] unused_free(1) [OF m s(1,3)] u False s(2,4)
        fixed_kind(1) [OF d(1)] by (auto simp: kind_at_def)
    then show ?thesis using Some u False dead by (auto simp: gc_peer_def)
  qed
qed

text \<open>A peer scope inside a protocol or service is an edge of streams of that peer only; without a
  scope of the peer there is no such stream.\<close>

lemma sub_free:
  assumes m: "managed cl0 K r own held" and "K i = KSub s p" and gone: "rmPeer r p = None"
  shows "holders (rmStore r) i = {}"
proof (rule ccontr)
  note k = managedD(1) [OF m]
  assume "holders (rmStore r) i \<noteq> {}"
  then obtain x where x: "x \<in> holders (rmStore r) i" by blast
  then obtain ss :: streamScope where ss: "kind_at K (rks r) (sPeer ss) (KPeer p)" "sPeer ss \<in> set (ed (rks r) x)"
    using holder_edge [OF k x] assms(2) by (auto simp: edge_ok_def)
  have "x < length (rmStore r)" "\<not> scDone (rmStore r ! x)" using x by (auto simp: holders_def)
  then have "\<not> scDone (rmStore r ! sPeer ss)" using keptD(7) [OF k] ss(2) by (auto simp: edges_open_def skeleton_fields)
  then have "\<not> dn (rks r) (sPeer ss)" using ss(1) by (simp add: kind_at_def skeleton_fields)
  then show False using peer_shapeD(2) [OF shapesD(3) [OF keptD(1) [OF k]] ss(1)] gone by simp
qed

lemma shapes_gc_service:
  assumes sh: "shapes K r ks" and s: "kind_at K ks s (KService v)" "rmServices r s = Some sv" "svcPeers sv p = Some i"
  shows "shapes K (r\<lparr>rmServices := (rmServices r)(s \<mapsto> sv\<lparr>svcPeers := (svcPeers sv)(p := None)\<rparr>)\<rparr>)
    (ks[i := (True, None, [])])" "kind_at K ks i (KSub s p)" "\<not> dn ks i" "ed ks i = []"
proof -
  note d = shapesD [OF sh]
  have m: "service_subs r s = Some (svcPeers sv)" using s(2) by (simp add: subs_of_def)
  then have "subs_ok K ks s (svcPeers sv)" using group_shapeD(2) [OF d(5) s(1)] by auto
  then show i: "kind_at K ks i (KSub s p)" "\<not> dn ks i" using subs_okD s(3) by blast+
  then show "ed ks i = []" using d(6) by (auto simp: sub_shape_def)
  have "ow ks i = None" using d(2) i(1) by (auto simp: root_shape_def kind_at_def)
  moreover have "group_shape KService K (ids r) (rmSvc r) ((service_subs r)(s \<mapsto> (svcPeers sv)(p := None))) (ks[i := (True, None, [])])"
    by (rule sub_closed [OF d(5) s(1) m s(3)]) simp
  moreover have "group_shape KProto K (ids r) (rmProto r) (proto_subs r) (ks[i := (True, None, [])])"
    using i(1) s(1) by (intro group_upd [OF d(4)]) (auto simp: kind_at_def)
  ultimately show "shapes K (r\<lparr>rmServices := (rmServices r)(s \<mapsto> sv\<lparr>svcPeers := (svcPeers sv)(p := None)\<rparr>)\<rparr>)
    (ks[i := (True, None, [])])"
    using d i(1) by (simp add: shapes_def kind_at_def fixed_upd root_upd peer_upd sub_upd conn_upd stream_upd)
qed

lemma shapes_gc_protocol:
  assumes sh: "shapes K r ks" and s: "kind_at K ks s (KProto v)" "rmProtocols r s = Some sv" "protoPeers sv p = Some i"
  shows "shapes K (r\<lparr>rmProtocols := (rmProtocols r)(s \<mapsto> sv\<lparr>protoPeers := (protoPeers sv)(p := None)\<rparr>)\<rparr>)
    (ks[i := (True, None, [])])" "kind_at K ks i (KSub s p)" "\<not> dn ks i" "ed ks i = []"
proof -
  note d = shapesD [OF sh]
  have m: "proto_subs r s = Some (protoPeers sv)" using s(2) by (simp add: subs_of_def)
  then have "subs_ok K ks s (protoPeers sv)" using group_shapeD(2) [OF d(4) s(1)] by auto
  then show i: "kind_at K ks i (KSub s p)" "\<not> dn ks i" using subs_okD s(3) by blast+
  then show "ed ks i = []" using d(6) by (auto simp: sub_shape_def)
  have "ow ks i = None" using d(2) i(1) by (auto simp: root_shape_def kind_at_def)
  moreover have "group_shape KProto K (ids r) (rmProto r) ((proto_subs r)(s \<mapsto> (protoPeers sv)(p := None))) (ks[i := (True, None, [])])"
    by (rule sub_closed [OF d(4) s(1) m s(3)]) simp
  moreover have "group_shape KService K (ids r) (rmSvc r) (service_subs r) (ks[i := (True, None, [])])"
    using i(1) s(1) by (intro group_upd [OF d(5)]) (auto simp: kind_at_def)
  ultimately show "shapes K (r\<lparr>rmProtocols := (rmProtocols r)(s \<mapsto> sv\<lparr>protoPeers := (protoPeers sv)(p := None)\<rparr>)\<rparr>)
    (ks[i := (True, None, [])])"
    using d i(1) by (simp add: shapes_def kind_at_def fixed_upd root_upd peer_upd sub_upd conn_upd stream_upd)
qed

lemma gc_service_peer_sweeps:
  assumes m: "managed cl0 K r own held" and s: "kind_at K (rks r) s (KService v)" and gone: "rmPeer r p = None"
  shows "\<exists>r'. gc_service_peer s r p = Some r' \<and> sweeps cl0 K held r own r' \<and> rmPeer r' = rmPeer r"
proof -
  note k = managedD(1) [OF m]
  obtain sv where sv: "rmServices r s = Some sv"
    using group_shapeD(2) [OF shapesD(5) [OF keptD(1) [OF k]] s] by (auto simp: subs_of_def)
  show ?thesis
  proof (cases "svcPeers sv p")
    case None
    then show ?thesis using sv m by (simp add: gc_service_peer_def sweeps_refl)
  next
    case (Some i)
    note sh = shapes_gc_service [OF keptD(1) [OF k] s sv Some]
    have i: "i < length (rmStore r)" "K i = KSub s p" "\<not> scDone (rmStore r ! i)" "scEdges (rmStore r ! i) = []"
      using sh(2-4) by (auto simp: kind_at_def skeleton_fields)
    let ?tab = "\<lambda>r. r\<lparr>rmServices := (rmServices r)(s \<mapsto> sv\<lparr>svcPeers := (svcPeers sv)(p := None)\<rparr>)\<rparr>"
    have "shapes K (?tab (r\<lparr>rmStore := st\<rparr>)) ((rks r)[i := (True, None, scEdges (rmStore r ! i))])" for st
      using sh(1) i(4) by (simp add: shapes_def)
    then obtain st where "rm_Done r i = Some (r\<lparr>rmStore := st\<rparr>)" "sweeps cl0 K held r own (?tab (r\<lparr>rmStore := st\<rparr>))"
      using sweep_close [OF m i(1,3) sub_free [OF m i(2) gone], of ?tab] i(2,4) by auto
    then show ?thesis using sv Some by (auto simp: gc_service_peer_def)
  qed
qed

lemma gc_protocol_peer_sweeps:
  assumes m: "managed cl0 K r own held" and s: "kind_at K (rks r) s (KProto v)" and gone: "rmPeer r p = None"
  shows "\<exists>r'. gc_protocol_peer s r p = Some r' \<and> sweeps cl0 K held r own r' \<and> rmPeer r' = rmPeer r"
proof -
  note k = managedD(1) [OF m]
  obtain sv where sv: "rmProtocols r s = Some sv"
    using group_shapeD(2) [OF shapesD(4) [OF keptD(1) [OF k]] s] by (auto simp: subs_of_def)
  show ?thesis
  proof (cases "protoPeers sv p")
    case None
    then show ?thesis using sv m by (simp add: gc_protocol_peer_def sweeps_refl)
  next
    case (Some i)
    note sh = shapes_gc_protocol [OF keptD(1) [OF k] s sv Some]
    have i: "i < length (rmStore r)" "K i = KSub s p" "\<not> scDone (rmStore r ! i)" "scEdges (rmStore r ! i) = []"
      using sh(2-4) by (auto simp: kind_at_def skeleton_fields)
    let ?tab = "\<lambda>r. r\<lparr>rmProtocols := (rmProtocols r)(s \<mapsto> sv\<lparr>protoPeers := (protoPeers sv)(p := None)\<rparr>)\<rparr>"
    have "shapes K (?tab (r\<lparr>rmStore := st\<rparr>)) ((rks r)[i := (True, None, scEdges (rmStore r ! i))])" for st
      using sh(1) i(4) by (simp add: shapes_def)
    then obtain st where "rm_Done r i = Some (r\<lparr>rmStore := st\<rparr>)" "sweeps cl0 K held r own (?tab (r\<lparr>rmStore := st\<rparr>))"
      using sweep_close [OF m i(1,3) sub_free [OF m i(2) gone], of ?tab] i(2,4) by auto
    then show ?thesis using sv Some by (auto simp: gc_protocol_peer_def)
  qed
qed

section \<open>The whole collection\<close>

lemma swept_kind: "swept K r r' \<Longrightarrow> kind_at K (rks r) s k = kind_at K (rks r') s k"
  by (simp add: swept_def kind_at_def)

text \<open>The pass over the dead peers of one group, and over the groups of one table.\<close>

lemma gc_group_sweeps:
  assumes step: "\<And>r own p. managed cl0 K r own held \<Longrightarrow> kind_at K (rks r) s kd \<Longrightarrow> rmPeer r p = None \<Longrightarrow>
      \<exists>r'. f r p = Some r' \<and> sweeps cl0 K held r own r' \<and> rmPeer r' = rmPeer r"
    and m: "managed cl0 K r own held" and s: "kind_at K (rks r) s kd" and gone: "\<forall>x \<in> set dead. rmPeer r x = None"
  shows "\<exists>r'. forEach f r dead = Some r' \<and> sweeps cl0 K held r own r' \<and> rmPeer r' = rmPeer r"
proof -
  let ?J = "\<lambda>r'. kind_at K (rks r') s kd \<and> rmPeer r' = rmPeer r"
  have "\<exists>r'. f r1 p = Some r' \<and> sweeps cl0 K held r1 own r' \<and> ?J r'"
    if "p \<in> set dead" "managed cl0 K r1 own held" "?J r1" for r1 p own
    using step [OF that(2), of p] that(1,3) gone swept_kind unfolding sweeps_def by metis
  then show ?thesis
    using forEach_sweeps [where g = "\<lambda>r. r" and J = ?J and f = f and xs = dead and s = r] m s by blast
qed

lemma gc_table_sweeps:
  assumes step: "\<And>r own s p. managed cl0 K r own held \<Longrightarrow> kind_at K (rks r) s (kd v) \<Longrightarrow> rmPeer r p = None \<Longrightarrow>
      \<exists>r'. f s r p = Some r' \<and> sweeps cl0 K held r own r' \<and> rmPeer r' = rmPeer r"
    and m: "managed cl0 K r own held" and gone: "\<forall>x \<in> set dead. rmPeer r x = None"
    and reg: "\<And>s. reg r v = Some s \<Longrightarrow> kind_at K (rks r) s (kd v)"
  shows "\<exists>r'. (case reg r v of None \<Rightarrow> Some r | Some s \<Rightarrow> forEach (f s) r dead) = Some r' \<and>
    sweeps cl0 K held r own r' \<and> rmPeer r' = rmPeer r"
proof (cases "reg r v")
  case None
  then show ?thesis using m by (simp add: sweeps_refl)
next
  case (Some s)
  have "\<exists>r'. forEach (f s) r dead = Some r' \<and> sweeps cl0 K held r own r' \<and> rmPeer r' = rmPeer r"
    by (rule gc_group_sweeps [OF step m reg [OF Some] gone])
  then show ?thesis using Some by simp
qed

lemma gc_services_sweeps:
  assumes m: "managed cl0 K r own held" and gone: "\<forall>x \<in> set dead. rmPeer r x = None"
  shows "\<exists>r'. forEach (\<lambda>r v. case rmSvc r v of None \<Rightarrow> Some r | Some s \<Rightarrow> forEach (gc_service_peer s) r dead) r svcs = Some r' \<and>
    sweeps cl0 K held r own r' \<and> rmPeer r' = rmPeer r"
proof -
  have "\<exists>r'. (case rmSvc r1 v of None \<Rightarrow> Some r1 | Some s \<Rightarrow> forEach (gc_service_peer s) r1 dead) = Some r' \<and>
      sweeps cl0 K held r1 own r' \<and> rmPeer r' = rmPeer r" if a: "managed cl0 K r1 own held" "rmPeer r1 = rmPeer r" for r1 own v
    unfolding a(2) [symmetric]
  proof (rule gc_table_sweeps [OF gc_service_peer_sweeps a(1)])
    show "\<forall>x \<in> set dead. rmPeer r1 x = None" using gone a(2) by simp
    show "kind_at K (rks r1) s (KService v)" if "rmSvc r1 v = Some s" for s
      using group_shapeD(3) [OF shapesD(5) [OF keptD(1) [OF managedD(1) [OF a(1)]]] that] by simp
  qed
  then show ?thesis
    by (intro forEach_sweeps [where g = "\<lambda>r. r" and J = "\<lambda>r'. rmPeer r' = rmPeer r", OF _ m refl]) simp
qed

lemma gc_protocols_sweeps:
  assumes m: "managed cl0 K r own held" and gone: "\<forall>x \<in> set dead. rmPeer r x = None"
  shows "\<exists>r'. forEach (\<lambda>r v. case rmProto r v of None \<Rightarrow> Some r | Some s \<Rightarrow> forEach (gc_protocol_peer s) r dead) r protos = Some r' \<and>
    sweeps cl0 K held r own r' \<and> rmPeer r' = rmPeer r"
proof -
  have "\<exists>r'. (case rmProto r1 v of None \<Rightarrow> Some r1 | Some s \<Rightarrow> forEach (gc_protocol_peer s) r1 dead) = Some r' \<and>
      sweeps cl0 K held r1 own r' \<and> rmPeer r' = rmPeer r" if a: "managed cl0 K r1 own held" "rmPeer r1 = rmPeer r" for r1 own v
    unfolding a(2) [symmetric]
  proof (rule gc_table_sweeps [OF gc_protocol_peer_sweeps a(1)])
    show "\<forall>x \<in> set dead. rmPeer r1 x = None" using gone a(2) by simp
    show "kind_at K (rks r1) s (KProto v)" if "rmProto r1 v = Some s" for s
      using group_shapeD(3) [OF shapesD(4) [OF keptD(1) [OF managedD(1) [OF a(1)]]] that] by simp
  qed
  then show ?thesis
    by (intro forEach_sweeps [where g = "\<lambda>r. r" and J = "\<lambda>r'. rmPeer r' = rmPeer r", OF _ m refl]) simp
qed

lemma gc_peers_sweeps:
  assumes m: "managed cl0 K r own held"
  shows "\<exists>r' dead. forEach gc_peer (r, []) peers = Some (r', dead) \<and> sweeps cl0 K held r own r' \<and>
    (\<forall>x \<in> set dead. rmPeer r' x = None)"
proof -
  let ?J = "\<lambda>s. \<forall>x \<in> set (snd s). rmPeer (fst s) x = None"
  have "\<exists>s'. gc_peer s p = Some s' \<and> sweeps cl0 K held (fst s) own (fst s') \<and> ?J s'"
    if "managed cl0 K (fst s) own held" "?J s" for s p own
    using gc_peer_sweeps [OF that(1), of "snd s" p] that(2) by (cases s) auto
  then show ?thesis
    using forEach_sweeps [where g = fst and J = ?J and f = gc_peer and s = "(r, [])" and xs = peers] m by fastforce
qed

lemma gc_sweeps:
  assumes m: "managed cl0 K r own held"
  shows "\<exists>r'. gc protos peers svcs protos' r = Some r' \<and> sweeps cl0 K held r own r'"
proof -
  obtain r1 where r1: "forEach gc_proto r protos = Some r1" "sweeps cl0 K held r own r1"
    using forEach_sweeps [where g = "\<lambda>r. r" and J = "\<lambda>_. True" and f = gc_proto, OF _ m] gc_proto_sweeps by blast
  have m1: "managed cl0 K r1 (forget r r1 own) held" using r1(2) by (simp add: sweeps_def)
  obtain r2 dead where r2: "forEach gc_peer (r1, []) peers = Some (r2, dead)" "sweeps cl0 K held r1 (forget r r1 own) r2"
      "\<forall>x \<in> set dead. rmPeer r2 x = None"
    using gc_peers_sweeps [OF m1] by blast
  note t2 = sweeps_trans [OF r1(2) r2(2)]
  have m2: "managed cl0 K r2 (forget r r2 own) held" using t2 by (simp add: sweeps_def)
  obtain r3 where r3: "forEach (\<lambda>r v. case rmSvc r v of None \<Rightarrow> Some r | Some s \<Rightarrow> forEach (gc_service_peer s) r dead) r2 svcs = Some r3"
      "sweeps cl0 K held r2 (forget r r2 own) r3" "rmPeer r3 = rmPeer r2"
    using gc_services_sweeps [OF m2 r2(3)] by blast
  note t3 = sweeps_trans [OF t2 r3(2)]
  have "managed cl0 K r3 (forget r r3 own) held" "\<forall>x \<in> set dead. rmPeer r3 x = None"
    using t3 r2(3) r3(3) by (simp_all add: sweeps_def)
  then obtain r4 where r4: "forEach (\<lambda>r v. case rmProto r v of None \<Rightarrow> Some r | Some s \<Rightarrow> forEach (gc_protocol_peer s) r dead) r3 protos' = Some r4"
      "sweeps cl0 K held r3 (forget r r3 own) r4"
    using gc_protocols_sweeps by blast
  show ?thesis using r1(1) r2(1) r3(1) r4(1) sweeps_trans [OF t3 r4(2)] by (simp add: gc_def)
qed

section \<open>What a collection removes\<close>

lemma unused_kept:
  assumes "swept K r r'" "s < length (rmStore r)" "K s \<noteq> KFixed" "scDone (rmStore r' ! s) = scDone (rmStore r ! s)"
  shows "IsUnused (rmStore r') s = IsUnused (rmStore r) s"
  using assms by (simp add: swept_def IsUnused_def)

lemma rm_Done_tables:
  assumes "rm_Done r s = Some r'"
  shows "rmProto r' = rmProto r" "rmPeer r' = rmPeer r"
  using assms by (auto simp: rm_Done_def bind_eq_Some_conv)

lemma gc_proto_tables:
  assumes "gc_proto r x = Some r'"
  shows "rmProto r' q = rmProto r q \<or> q = x \<and> rmProto r' q = None" "rmPeer r' = rmPeer r"
    "rmProto r x = Some s \<Longrightarrow> x \<notin> rmStickyProto r \<Longrightarrow> IsUnused (rmStore r) s = Some True \<Longrightarrow> rmProto r' x = None"
  using assms by (auto simp: gc_proto_def rm_Done_tables bind_eq_Some_conv split: option.splits if_splits)

lemma gc_peer_tables:
  assumes "gc_peer (r, ds) x = Some (r', ds')"
  shows "rmPeer r' p = rmPeer r p \<or> p = x \<and> rmPeer r' p = None" "rmProto r' = rmProto r"
    "rmPeer r x = Some s \<Longrightarrow> x \<notin> rmStickyPeer r \<Longrightarrow> IsUnused (rmStore r) s = Some True \<Longrightarrow> rmPeer r' x = None"
  using assms by (auto simp: gc_peer_def rm_Done_tables bind_eq_Some_conv split: option.splits if_splits)

lemma gc_sub_tables:
  "gc_service_peer s r p = Some r' \<Longrightarrow> rmProto r' = rmProto r \<and> rmPeer r' = rmPeer r"
  "gc_protocol_peer s r p = Some r' \<Longrightarrow> rmProto r' = rmProto r \<and> rmPeer r' = rmPeer r"
  by (auto simp: gc_service_peer_def gc_protocol_peer_def rm_Done_tables bind_eq_Some_conv split: option.splits)

lemma gc_protos_collect:
  assumes "managed cl0 K r own held" "forEach gc_proto r xs = Some r'" "q \<in> set xs" "rmProto r q = Some s"
    and "q \<notin> rmStickyProto r" "IsUnused (rmStore r) s = Some True"
  shows "rmProto r' q = None"
  using assms
proof (induction xs arbitrary: r own)
  case (Cons x xs)
  obtain r1 where r1: "gc_proto r x = Some r1" "forEach gc_proto r1 xs = Some r'" and sw: "sweeps cl0 K held r own r1"
    using Cons.prems(2) gc_proto_sweeps [OF Cons.prems(1), of x] by (auto simp: bind_eq_Some_conv)
  show ?case
  proof (cases "rmProto r1 q")
    case None
    then show ?thesis
      using forEach_invariant [OF r1(2), of "\<lambda>r. rmProto r q = None"] gc_proto_tables(1) by metis
  next
    case (Some s')
    then have "x \<noteq> q" "rmProto r1 q = Some s"
      using gc_proto_tables(1) [OF r1(1), of q] gc_proto_tables(3) [OF r1(1), of s] Cons.prems(4-6) by auto
    have m1: "managed cl0 K r1 (forget r r1 own) held" and sp: "swept K r r1" using sw by (auto simp: sweeps_def)
    have op: "s < length (rmStore r) \<and> K s = KProto q \<and> \<not> scDone (rmStore r ! s)" if "managed cl0 K r own held" "rmProto r q = Some s" for r own
      using group_shapeD(3) [OF shapesD(4) [OF keptD(1) [OF managedD(1) [OF that(1)]]] that(2)]
      by (auto simp: kind_at_def skeleton_fields)
    have "IsUnused (rmStore r1) s = Some True"
      using unused_kept [OF sp] op [OF Cons.prems(1,4)] op [OF m1 \<open>rmProto r1 q = Some s\<close>] Cons.prems(6) by simp
    then show ?thesis
      using Cons.IH [OF m1 r1(2)] \<open>x \<noteq> q\<close> \<open>rmProto r1 q = Some s\<close> Cons.prems(3,5) sp by (simp add: swept_def)
  qed
qed simp

lemma gc_peers_collect:
  assumes "managed cl0 K r own held" "forEach gc_peer (r, ds) xs = Some (r', ds')" "p \<in> set xs" "rmPeer r p = Some s"
    and "p \<notin> rmStickyPeer r" "IsUnused (rmStore r) s = Some True" "\<And>x. x \<in> set ds \<Longrightarrow> rmPeer r x = None"
  shows "rmPeer r' p = None"
  using assms
proof (induction xs arbitrary: r own ds)
  case (Cons x xs)
  obtain r1 ds1 where r1: "gc_peer (r, ds) x = Some (r1, ds1)" "forEach gc_peer (r1, ds1) xs = Some (r', ds')"
      and sw: "sweeps cl0 K held r own r1" and dead: "\<forall>x \<in> set ds1. rmPeer r1 x = None"
    using Cons.prems(2) gc_peer_sweeps [OF Cons.prems(1), of ds x] Cons.prems(7) by (auto simp: bind_eq_Some_conv)
  show ?case
  proof (cases "rmPeer r1 p")
    case None
    have "rmPeer (fst (r', ds')) p = None"
    proof (rule forEach_invariant [OF r1(2), of "\<lambda>s. rmPeer (fst s) p = None"])
      show "rmPeer (fst s') p = None" if "rmPeer (fst s) p = None" "gc_peer s x = Some s'" for s x s'
        using that gc_peer_tables(1) [of "fst s" "snd s" x "fst s'" "snd s'" p] by auto
    qed (use None in simp)
    then show ?thesis by simp
  next
    case (Some s')
    then have "x \<noteq> p" "rmPeer r1 p = Some s"
      using gc_peer_tables(1) [OF r1(1), of p] gc_peer_tables(3) [OF r1(1), of s] Cons.prems(4-6) by auto
    have m1: "managed cl0 K r1 (forget r r1 own) held" and sp: "swept K r r1" using sw by (auto simp: sweeps_def)
    have op: "s < length (rmStore r) \<and> K s = KPeer p \<and> \<not> scDone (rmStore r ! s)" if "managed cl0 K r own held" "rmPeer r p = Some s" for r own
      using peer_shapeD(3) [OF shapesD(3) [OF keptD(1) [OF managedD(1) [OF that(1)]]] that(2)]
      by (auto simp: kind_at_def skeleton_fields)
    have "IsUnused (rmStore r1) s = Some True"
      using unused_kept [OF sp] op [OF Cons.prems(1,4)] op [OF m1 \<open>rmPeer r1 p = Some s\<close>] Cons.prems(6) by simp
    then show ?thesis
      using Cons.IH [OF m1 r1(2)] \<open>x \<noteq> p\<close> \<open>rmPeer r1 p = Some s\<close> Cons.prems(3,5) sp dead by (simp add: swept_def)
  qed
qed simp

lemma gc_collected:
  assumes m: "managed cl0 K r own held" and run: "gc protos peers svcs protos' r = Some r'"
  shows "q \<in> set protos \<Longrightarrow> rmProto r q = Some s \<Longrightarrow> q \<notin> rmStickyProto r \<Longrightarrow> IsUnused (rmStore r) s = Some True \<Longrightarrow>
      rmProto r' q = None"
    "p \<in> set peers \<Longrightarrow> rmPeer r p = Some s \<Longrightarrow> p \<notin> rmStickyPeer r \<Longrightarrow> IsUnused (rmStore r) s = Some True \<Longrightarrow>
      rmPeer r' p = None"
proof -
  obtain r1 r2 dead r3 where g: "forEach gc_proto r protos = Some r1" "forEach gc_peer (r1, []) peers = Some (r2, dead)"
      "forEach (\<lambda>r v. case rmSvc r v of None \<Rightarrow> Some r | Some s \<Rightarrow> forEach (gc_service_peer s) r dead) r2 svcs = Some r3"
      "forEach (\<lambda>r v. case rmProto r v of None \<Rightarrow> Some r | Some s \<Rightarrow> forEach (gc_protocol_peer s) r dead) r3 protos' = Some r'"
    using run by (auto simp: gc_def bind_eq_Some_conv)
  let ?I = "\<lambda>r. rmProto r = rmProto r2 \<and> rmPeer r = rmPeer r2"
  have sub: "?I r''" if "?I r'" "forEach (f s) r' dead = Some r''" "f = gc_service_peer \<or> f = gc_protocol_peer" for f s r' r''
    by (rule forEach_invariant [where P = ?I, OF that(2) that(1)]) (use that(3) gc_sub_tables in metis)
  have step: "?I s'" if "?I s" "(case t of None \<Rightarrow> Some s | Some x \<Rightarrow> forEach (f x) s dead) = Some s'"
      "f = gc_service_peer \<or> f = gc_protocol_peer" for s s' t f
    using that sub [of s f _ s'] by (cases t) simp_all
  have "?I r3"
  proof (rule forEach_invariant [where P = ?I, OF g(3)])
    show "?I s'" if "?I s" "(case rmSvc s v of None \<Rightarrow> Some s | Some x \<Rightarrow> forEach (gc_service_peer x) s dead) = Some s'" for s v s'
      using step [OF that] by simp
  qed simp
  then have tabs: "?I r'"
  proof (rule forEach_invariant [where P = ?I, OF g(4)])
    show "?I s'" if "?I s" "(case rmProto s v of None \<Rightarrow> Some s | Some x \<Rightarrow> forEach (gc_protocol_peer x) s dead) = Some s'" for s v s'
      using step [OF that] by simp
  qed
  have p2: "rmProto r2 = rmProto r1"
    using forEach_invariant [OF g(2), of "\<lambda>s. rmProto (fst s) = rmProto r1"] gc_peer_tables(2)
    by (metis fst_conv prod.collapse)
  show "rmProto r' q = None" if "q \<in> set protos" "rmProto r q = Some s" "q \<notin> rmStickyProto r" "IsUnused (rmStore r) s = Some True"
    using gc_protos_collect [OF m g(1) that] tabs p2 by simp
  obtain r1' where r1': "forEach gc_proto r protos = Some r1'" "sweeps cl0 K held r own r1'"
    using forEach_sweeps [where g = "\<lambda>r. r" and J = "\<lambda>_. True" and f = gc_proto, OF _ m] gc_proto_sweeps by blast
  then have m1: "managed cl0 K r1 (forget r r1 own) held" and sp: "swept K r r1" using g(1) by (auto simp: sweeps_def)
  have peers1: "rmPeer r1 = rmPeer r"
    using forEach_invariant [OF g(1), of "\<lambda>s. rmPeer s = rmPeer r"] gc_proto_tables(2) by metis
  assume p: "p \<in> set peers" "rmPeer r p = Some s" "p \<notin> rmStickyPeer r" "IsUnused (rmStore r) s = Some True"
  have op: "s < length (rmStore r) \<and> K s = KPeer p \<and> \<not> scDone (rmStore r ! s)" if "managed cl0 K r own held" "rmPeer r p = Some s" for r own
    using peer_shapeD(3) [OF shapesD(3) [OF keptD(1) [OF managedD(1) [OF that(1)]]] that(2)]
    by (auto simp: kind_at_def skeleton_fields)
  have "IsUnused (rmStore r1) s = Some True"
    using unused_kept [OF sp] op [OF m p(2)] op [OF m1] p(2,4) peers1 by simp
  then have "rmPeer r2 p = None"
    using gc_peers_collect [OF m1 g(2) p(1)] p(2,3) peers1 sp by (simp add: swept_def)
  then show "rmPeer r' p = None" using tabs by simp
qed

end
