(* ===== verification/Manager_Runs.thy ===== *)
theory Manager_Runs
  imports Manager_Gc
begin

text \<open>
  The states a resource manager reaches, whatever sequence of calls its users make, and what holds
  in all of them: exact accounting, limits, reference counts, and that every call returns.
\<close>

section \<open>A new manager\<close>

text \<open>An option configures the connection limiter; it does not open connections.\<close>

definition quiet_option :: "rm_option \<Rightarrow> bool" where
  "quiet_option opt \<longleftrightarrow> (\<forall>cl al cl' al'. no_conns cl \<longrightarrow> opt (cl, al) = Inr (cl', al') \<longrightarrow> no_conns cl')"

lemma no_conns_prefix: "no_conns cl \<Longrightarrow> no_conns (addNetworkPrefixLimit cl b l)"
  by (simp add: no_conns_def addNetworkPrefixLimit_def)

lemma no_conns_register: "no_conns cl \<Longrightarrow> no_conns (register_allowlist reg n nets cl)"
  by (induction reg n nets cl rule: register_allowlist.induct) (auto simp: no_conns_prefix split: option.split)

lemma no_conns_options:
  assumes "\<forall>opt \<in> set opts. quiet_option opt" "no_conns cl" "apply_options opts (cl, al) = Inr (cl', al')"
  shows "no_conns cl'"
  using assms
proof (induction opts arbitrary: cl al)
  case (Cons opt opts)
  then obtain cl1 al1 where o: "opt (cl, al) = Inr (cl1, al1)" "apply_options opts (cl1, al1) = Inr (cl', al')"
    by (auto split: sum.splits)
  then have "no_conns cl1" using Cons.prems(1,2) by (auto simp: quiet_option_def)
  then show ?case using Cons.IH o(2) Cons.prems(1) by auto
qed simp

lemma initial_store:
  "\<exists>a b c d. initial_scopes limits = Some ((0, 1, 2, 3), [a, b, c, d]) \<and>
     skel a = (False, None, []) \<and> skel b = (False, None, [0]) \<and> skel c = (False, None, []) \<and> skel d = (False, None, [2]) \<and>
     scRefCnt a = 2 \<and> scRefCnt b = 1 \<and> scRefCnt c = 2 \<and> scRefCnt d = 1 \<and>
     (\<forall>s \<in> {a, b, c, d}. \<exists>l. scRC s = empty_resources l)"
  by (simp add: initial_scopes_def newSystemScope_def newTransientScope_def newResourceScope_def IncRef_def
      scope_at_def skel_def numeral_2_eq_2 numeral_3_eq_3) blast

definition fixed_kinds :: kinds where
  "fixed_kinds s = (if s < 4 then KFixed else KSpan)"

lemma less4: "(x :: nat) < 4 \<longleftrightarrow> x \<in> {0, 1, 2, 3}"
  by auto

lemma initial_kept:
  assumes r: "rmStore r = [a, b, c, d]" "ids r = \<lparr>fSys = 0, fTr = 1, fASys = 2, fATr = 3\<rparr>"
    and tabs: "rmPeer r = Map.empty" "rmProto r = Map.empty" "rmSvc r = Map.empty" "rmPeers r = Map.empty"
      "rmProtocols r = Map.empty" "rmServices r = Map.empty" "rmConns r = Map.empty" "rmStreams r = Map.empty"
    and sk: "skel a = (False, None, [])" "skel b = (False, None, [0])" "skel c = (False, None, [])" "skel d = (False, None, [2])"
    and rc: "scRefCnt a = 2" "scRefCnt b = 1" "scRefCnt c = 2" "scRefCnt d = 1"
    and empty: "\<forall>s \<in> {a, b, c, d}. \<exists>l. scRC s = empty_resources l"
  shows "kept fixed_kinds r (\<lambda>_ _. 0) settled (\<lambda>_. 0)"
proof -
  define st where "st = [a, b, c, d]"
  have len: "length st = 4" by (simp add: st_def)
  have f: "scDone a = False" "scOwner a = None" "scEdges a = []" "scDone b = False" "scOwner b = None" "scEdges b = [0]"
    "scDone c = False" "scOwner c = None" "scEdges c = []" "scDone d = False" "scOwner d = None" "scEdges d = [2]"
    using sk by (simp_all add: skel_def)
  have nth: "st ! 0 = a" "st ! 1 = b" "st ! Suc 0 = b" "st ! 2 = c" "st ! 3 = d" by (simp_all add: st_def numeral_2_eq_2 numeral_3_eq_3)
  have rcs: "\<exists>l. scRC (st ! p) = empty_resources l" if "p < 4" for p
    using that empty unfolding less4 by (auto simp: nth)
  have wf: "wf_graph st" unfolding wf_graph_def len less4 by (simp add: nth f less4)
  have eo: "edges_open st" unfolding edges_open_def len less4 by (auto simp: nth f)
  have hold: "holders st 0 = {1}" "holders st 1 = {}" "holders st (Suc 0) = {}" "holders st 2 = {3}" "holders st 3 = {}"
    unfolding holders_def len less4 by (auto simp: nth f)
  have own: "scOwner (st ! x) = None" if "x < 4" for x using that unfolding less4 by (auto simp: nth f)
  then have spans: "open_spans st p = {}" for p by (auto simp: open_spans_def len)
  have ks: "map skel st = [(False, None, []), (False, None, [0]), (False, None, []), (False, None, [2])]" by (simp add: sk st_def)
  have "counted st (\<lambda>p. base_refs (ids r) p + 0)"
    unfolding counted_def len less4 by (simp add: nth hold spans rc base_refs_def fixed_scopes_def r(2))
  moreover have "balanced st (\<lambda>_ _. 0) settled"
    using rcs by (fastforce simp: balanced_def usage_def held_below_def len)
  moreover have "rc_wf (scRC (st ! p))" if "p < 4" for p using rcs [OF that] by auto
  ultimately have "books st (\<lambda>_ _. 0) settled (\<lambda>p. base_refs (ids r) p + 0)"
    using wf eo by (simp add: books_def len)
  moreover have "all_fit st" using rcs by (fastforce simp: all_fit_def len)
  moreover have "shapes fixed_kinds r (map skel st)"
  proof -
    have fx: "fixed_shape fixed_kinds (ids r) (map skel st)"
      using len by (auto simp: fixed_shape_def fixed_scopes_def r(2) kind_at_def fixed_kinds_def skeleton_fields nth f)
    have "root_shape fixed_kinds (map skel st)"
      using len own by (simp add: root_shape_def fixed_kinds_def skeleton_fields)
    then show ?thesis
      using fx len by (simp add: shapes_def peer_shape_def group_shape_def sub_shape_def conn_shape_def stream_shape_def
          kind_at_def fixed_kinds_def tabs)
  qed
  ultimately show ?thesis by (simp add: kept_def r(1) st_def [symmetric] sound_def)
qed

lemma new_manager:
  assumes "NewResourceManager limits opts = Some (Inr r)" "\<forall>opt \<in> set opts. quiet_option opt"
  shows "managed (rmConnLimiter r) fixed_kinds r (\<lambda>_ _. 0) (\<lambda>_. 0)" "no_conns (rmConnLimiter r)"
proof -
  obtain a b c d where st: "initial_scopes limits = Some ((0, 1, 2, 3), [a, b, c, d])"
      and sk: "skel a = (False, None, [])" "skel b = (False, None, [0])" "skel c = (False, None, [])" "skel d = (False, None, [2])"
      and rc: "scRefCnt a = 2" "scRefCnt b = 1" "scRefCnt c = 2" "scRefCnt d = 1"
      and empty: "\<forall>s \<in> {a, b, c, d}. \<exists>l. scRC s = empty_resources l"
    using initial_store [of limits] by blast
  obtain cl al where opts: "apply_options opts (newConnLimiter, newAllowlist) = Inr (cl, al)"
    using assms(1) by (auto simp: NewResourceManager_def split: sum.splits)
  have r: "rmStore r = [a, b, c, d]" "ids r = \<lparr>fSys = 0, fTr = 1, fASys = 2, fATr = 3\<rparr>"
    "rmPeer r = Map.empty" "rmProto r = Map.empty" "rmSvc r = Map.empty" "rmPeers r = Map.empty"
    "rmProtocols r = Map.empty" "rmServices r = Map.empty" "rmConns r = Map.empty" "rmStreams r = Map.empty"
    and cl: "no_conns cl \<Longrightarrow> no_conns (rmConnLimiter r)"
    using assms(1) by (auto simp: NewResourceManager_def opts st ids_def Let_def no_conns_register)
  have "no_conns newConnLimiter" by (simp add: no_conns_def newConnLimiter_def)
  then show quiet: "no_conns (rmConnLimiter r)"
    using cl no_conns_options [OF assms(2) _ opts] by blast
  have "live_ips r = {#}" by (simp add: live_of_def live_conns_def r)
  then show "managed (rmConnLimiter r) fixed_kinds r (\<lambda>_ _. 0) (\<lambda>_. 0)"
    using initial_kept [OF r sk rc empty] cl_rel_start [OF quiet]
    by (simp add: managed_def same_limits_def cl_within_def within_def np_live_def sub_live_def)
qed

section \<open>Runs\<close>

text \<open>What callers hold after a call that opened a connection or stream, or was refused.\<close>

definition ledger_after :: "ledger \<Rightarrow> (counter \<Rightarrow> int) \<Rightarrow> 'e + sid \<Rightarrow> ledger" where
  "ledger_after own d res = (case res of Inl _ \<Rightarrow> own | Inr s \<Rightarrow> bump own s d)"

definition ledger_done :: "resourceManager \<Rightarrow> ledger \<Rightarrow> sid \<Rightarrow> ledger" where
  "ledger_done r own s = (if scDone (rmStore r ! s) then own else (\<lambda>c. (own c)(s := 0)))"

text \<open>The calls: \<open>own\<close> is what callers hold on each scope, \<open>held\<close> the views open on it.  A view is
  entered and left by two steps, with any calls in between.  The guards are the callers' side:
  numbers that 64-bit counters can hold, releases of no more than was reserved, and \<open>SetPeer\<close>,
  \<open>SetProtocol\<close> and \<open>SetService\<close> only on scopes that are open and still counted somewhere.\<close>

inductive rm_reach :: "resourceManager \<Rightarrow> resourceManager \<Rightarrow> ledger \<Rightarrow> (sid \<Rightarrow> int) \<Rightarrow> bool" for r0 where
  start: "rm_reach r0 r0 (\<lambda>_ _. 0) (\<lambda>_. 0)"
| open_conn: "rm_reach r0 r own held \<Longrightarrow> room r own (conn_delta dir usefd) \<Longrightarrow> int (size (live_ips r)) + 1 < MaxInt64 \<Longrightarrow>
    OpenConnection r dir usefd ep = Some (res, r') \<Longrightarrow> rm_reach r0 r' (ledger_after own (conn_delta dir usefd) res) held"
| open_conn_noip: "rm_reach r0 r own held \<Longrightarrow> room r own (conn_delta dir usefd) \<Longrightarrow> int (size (live_ips r)) + 1 < MaxInt64 \<Longrightarrow>
    OpenConnectionNoIP r dir usefd ep = Some (res, r') \<Longrightarrow> rm_reach r0 r' (ledger_after own (conn_delta dir usefd) res) held"
| open_stream: "rm_reach r0 r own held \<Longrightarrow> room r own (stream_delta dir) \<Longrightarrow>
    OpenStream r p dir = Some (res, r') \<Longrightarrow> rm_reach r0 r' (ledger_after own (stream_delta dir) res) held"
| set_peer: "rm_reach r0 r own held \<Longrightarrow> rmConns r c \<noteq> None \<Longrightarrow> \<not> scDone (rmStore r ! c) \<Longrightarrow> scEdges (rmStore r ! c) \<noteq> [] \<Longrightarrow>
    SetPeer r c p = Some (err, r') \<Longrightarrow> rm_reach r0 r' own held"
| set_protocol: "rm_reach r0 r own held \<Longrightarrow> rmStreams r s \<noteq> None \<Longrightarrow> \<not> scDone (rmStore r ! s) \<Longrightarrow>
    SetProtocol r s q = Some (err, r') \<Longrightarrow> rm_reach r0 r' own held"
| set_service: "rm_reach r0 r own held \<Longrightarrow> rmStreams r s \<noteq> None \<Longrightarrow> \<not> scDone (rmStore r ! s) \<Longrightarrow>
    SetService r s v = Some (err, r') \<Longrightarrow> rm_reach r0 r' own held"
| conn_done: "rm_reach r0 r own held \<Longrightarrow> rmConns r c \<noteq> None \<Longrightarrow> connectionScope_Done r c = Some r' \<Longrightarrow>
    rm_reach r0 r' (ledger_done r own c) held"
| scope_done: "rm_reach r0 r own held \<Longrightarrow> s < length (rmStore r) \<Longrightarrow> rmStreams r s \<noteq> None \<or> scOwner (rmStore r ! s) \<noteq> None \<Longrightarrow>
    rm_Done r s = Some r' \<Longrightarrow> rm_reach r0 r' (ledger_done r own s) held"
| begin_span: "rm_reach r0 r own held \<Longrightarrow> s < length (rmStore r) \<Longrightarrow> BeginSpan (rmStore r) s = Some (res, st) \<Longrightarrow>
    rm_reach r0 (r\<lparr>rmStore := st\<rparr>) own held"
| reserve: "rm_reach r0 r own held \<Longrightarrow> s < length (rmStore r) \<Longrightarrow> room r own (mem_delta n) \<Longrightarrow>
    ReserveMemory (rmStore r) s n prio = Some (err, st) \<Longrightarrow>
    rm_reach r0 (r\<lparr>rmStore := st\<rparr>) (if err = None then bump own s (mem_delta n) else own) held"
| release: "rm_reach r0 r own held \<Longrightarrow> s < length (rmStore r) \<Longrightarrow> \<not> scDone (rmStore r ! s) \<Longrightarrow> 0 \<le> n \<Longrightarrow> n \<le> own CMem s \<Longrightarrow>
    ReleaseMemory (rmStore r) s n = Some st \<Longrightarrow> rm_reach r0 (r\<lparr>rmStore := st\<rparr>) (bump own s (mem_delta (- n))) held"
| view_peer: "rm_reach r0 r own held \<Longrightarrow> getPeerScope r p = Some (s, r') \<Longrightarrow> rm_reach r0 r' own (held(s := held s + 1))"
| view_protocol: "rm_reach r0 r own held \<Longrightarrow> getProtocolScope r q = Some (s, r') \<Longrightarrow> rm_reach r0 r' own (held(s := held s + 1))"
| view_service: "rm_reach r0 r own held \<Longrightarrow> getServiceScope r v = Some (s, r') \<Longrightarrow> rm_reach r0 r' own (held(s := held s + 1))"
| leave_view: "rm_reach r0 r own held \<Longrightarrow> 0 < held s \<Longrightarrow> rm_DecRef r s = Some r' \<Longrightarrow> rm_reach r0 r' own (held(s := held s - 1))"
| sticky_peer: "rm_reach r0 r own held \<Longrightarrow> rm_reach r0 (setStickyPeer r p) own held"
| sticky_protocol: "rm_reach r0 r own held \<Longrightarrow> rm_reach r0 (setStickyProtocol r q) own held"
| collect: "rm_reach r0 r own held \<Longrightarrow> gc protos peers svcs protos' r = Some r' \<Longrightarrow> rm_reach r0 r' (forget r r' own) held"

lemma opened_ledger:
  "opened cl0 r own held d (res, r') \<Longrightarrow> \<exists>K. managed cl0 K r' (ledger_after own d res) held"
  by (auto simp: opened_def ledger_after_def split: sum.splits)

lemma managed_view:
  assumes m: "managed cl0 K r own held" and g: "got K r own settled held kd s K' r'"
  shows "managed cl0 K' r' own (held(s := held s + 1))"
proof (rule managed_steady [OF m])
  show "kept K' r' own settled (held(s := held s + 1))" "steady r r'"
    using g grown_steady unfolding got_def by blast+
  show "0 \<le> (held(s := held s + 1)) p" for p using managedD(2) [OF m, of p] managedD(2) [OF m, of s] by simp
qed

lemma managed_sticky:
  "managed cl0 K (setStickyPeer r p) own held = managed cl0 K r own held"
  "managed cl0 K (setStickyProtocol r q) own held = managed cl0 K r own held"
  by (simp_all add: setStickyPeer_def setStickyProtocol_def managed_def kept_def shapes_def ids_def)

lemma managed_OpenConnection:
  assumes m: "managed cl0 K r own held" and "room r own (conn_delta dir usefd)" "int (size (live_ips r)) + 1 < MaxInt64"
  shows "\<exists>res r'. OpenConnection r dir usefd ep = Some (res, r') \<and> opened cl0 r own held (conn_delta dir usefd) (res, r')"
    "\<exists>res r'. OpenConnectionNoIP r dir usefd ep = Some (res, r') \<and> opened cl0 r own held (conn_delta dir usefd) (res, r')"
  using managed_openConnection [OF assms, of ep] unfolding OpenConnection_def OpenConnectionNoIP_def
  by (cases "ToIP ep"; fastforce)+

lemma managed_moves:
  assumes m: "managed cl0 K r own held"
  shows "rmConns r c \<noteq> None \<Longrightarrow> \<not> scDone (rmStore r ! c) \<Longrightarrow> scEdges (rmStore r ! c) \<noteq> [] \<Longrightarrow>
      \<exists>e r' K'. SetPeer r c p = Some (e, r') \<and> managed cl0 K' r' own held"
    "rmStreams r s \<noteq> None \<Longrightarrow> \<not> scDone (rmStore r ! s) \<Longrightarrow> \<exists>e r' K'. SetProtocol r s q = Some (e, r') \<and> managed cl0 K' r' own held"
    "rmStreams r s \<noteq> None \<Longrightarrow> \<not> scDone (rmStore r ! s) \<Longrightarrow> \<exists>e r' K'. SetService r s v = Some (e, r') \<and> managed cl0 K' r' own held"
proof -
  note k = managedD(1) [OF m]
  show "\<exists>e r' K'. SetPeer r c p = Some (e, r') \<and> managed cl0 K' r' own held"
    if "rmConns r c \<noteq> None" "\<not> scDone (rmStore r ! c)" "scEdges (rmStore r ! c) \<noteq> []"
    using that kept_SetPeer [OF k] managed_moved [OF m] by (metis option.exhaust)
  show "\<exists>e r' K'. SetProtocol r s q = Some (e, r') \<and> managed cl0 K' r' own held" if "rmStreams r s \<noteq> None" "\<not> scDone (rmStore r ! s)"
    using that kept_SetProtocol [OF k] managed_moved [OF m] by (metis option.exhaust)
  show "\<exists>e r' K'. SetService r s v = Some (e, r') \<and> managed cl0 K' r' own held" if "rmStreams r s \<noteq> None" "\<not> scDone (rmStore r ! s)"
    using that kept_SetService [OF k] managed_moved [OF m] by (metis option.exhaust)
qed

lemma managed_closes:
  assumes m: "managed cl0 K r own held"
  shows "rmConns r c \<noteq> None \<Longrightarrow> \<exists>r'. connectionScope_Done r c = Some r' \<and> managed cl0 K r' (ledger_done r own c) held"
    "s < length (rmStore r) \<Longrightarrow> rmStreams r s \<noteq> None \<or> scOwner (rmStore r ! s) \<noteq> None \<Longrightarrow>
      \<exists>r'. rm_Done r s = Some r' \<and> managed cl0 K r' (ledger_done r own s) held"
proof -
  note d = shapesD [OF keptD(1) [OF managedD(1) [OF m]]]
  show "\<exists>r'. connectionScope_Done r c = Some r' \<and> managed cl0 K r' (ledger_done r own c) held" if "rmConns r c \<noteq> None"
    using that managed_conn_Done [OF m, of c] m by (cases "scDone (rmStore r ! c)") (auto simp: ledger_done_def)
  show "\<exists>r'. rm_Done r s = Some r' \<and> managed cl0 K r' (ledger_done r own s) held"
    if s: "s < length (rmStore r)" "rmStreams r s \<noteq> None \<or> scOwner (rmStore r ! s) \<noteq> None"
  proof -
    have "K s = KStream \<or> K s = KSpan"
      using s stream_shapeD(1) [OF d(8), of s] d(2) by (auto simp: kind_at_def root_shape_def skeleton_fields)
    then show ?thesis
      using managed_Done [OF m s(1)] m by (cases "scDone (rmStore r ! s)") (auto simp: ledger_done_def)
  qed
qed

lemma managed_span:
  assumes m: "managed cl0 K r own held" and s: "s < length (rmStore r)"
  shows "\<exists>res st K'. BeginSpan (rmStore r) s = Some (res, st) \<and> managed cl0 K' (r\<lparr>rmStore := st\<rparr>) own held"
proof -
  obtain res st where b: "BeginSpan (rmStore r) s = Some (res, st)" "\<forall>e. res = Inl e \<longrightarrow> st = rmStore r"
      "\<forall>x. res = Inr x \<longrightarrow> grown K r (K(x := KSpan)) (r\<lparr>rmStore := st\<rparr>) \<and> kept (K(x := KSpan)) (r\<lparr>rmStore := st\<rparr>) own settled held"
    using kept_BeginSpan [OF managedD(1) [OF m] s] by blast
  show ?thesis
  proof (cases res)
    case (Inl e)
    then show ?thesis using b(1,2) m by auto
  next
    case (Inr x)
    then show ?thesis using b(1,3) managed_moved [OF m _ grown_steady] by blast
  qed
qed

lemma managed_memory:
  assumes m: "managed cl0 K r own held" and s: "s < length (rmStore r)"
  shows "room r own (mem_delta n) \<Longrightarrow> \<exists>err st. ReserveMemory (rmStore r) s n prio = Some (err, st) \<and>
      managed cl0 K (r\<lparr>rmStore := st\<rparr>) (if err = None then bump own s (mem_delta n) else own) held"
    "\<not> scDone (rmStore r ! s) \<Longrightarrow> 0 \<le> n \<Longrightarrow> n \<le> own CMem s \<Longrightarrow> \<exists>st. ReleaseMemory (rmStore r) s n = Some st \<and>
      managed cl0 K (r\<lparr>rmStore := st\<rparr>) (bump own s (mem_delta (- n))) held"
proof -
  show "\<exists>err st. ReserveMemory (rmStore r) s n prio = Some (err, st) \<and>
      managed cl0 K (r\<lparr>rmStore := st\<rparr>) (if err = None then bump own s (mem_delta n) else own) held" if "room r own (mem_delta n)"
    using memacc.managed_acquire [OF m s that, of prio] m by fastforce
  assume a: "\<not> scDone (rmStore r ! s)" "0 \<le> n" "n \<le> own CMem s"
  have "0 \<le> mem_delta n c \<and> mem_delta n c \<le> own c s" for c
    using a keptD(3) [OF managedD(1) [OF m]] by (cases c) (simp_all add: mem_delta_def sound_def)
  moreover have "(\<lambda>c. - mem_delta n c) = mem_delta (- n)" by (auto simp: mem_delta_def fun_eq_iff)
  ultimately show "\<exists>st. ReleaseMemory (rmStore r) s n = Some st \<and>
      managed cl0 K (r\<lparr>rmStore := st\<rparr>) (bump own s (mem_delta (- n))) held"
    using memacc.managed_release [OF m s a(1), of n] by auto
qed

lemma managed_views:
  assumes m: "managed cl0 K r own held"
  shows "\<exists>s r' K'. getPeerScope r p = Some (s, r') \<and> managed cl0 K' r' own (held(s := held s + 1))"
    "\<exists>s r' K'. getProtocolScope r q = Some (s, r') \<and> managed cl0 K' r' own (held(s := held s + 1))"
    "\<exists>s r' K'. getServiceScope r v = Some (s, r') \<and> managed cl0 K' r' own (held(s := held s + 1))"
    "0 < held s \<Longrightarrow> \<exists>r'. rm_DecRef r s = Some r' \<and> managed cl0 K r' own (held(s := held s - 1))"
proof -
  note k = managedD(1) [OF m]
  show "\<exists>s r' K'. getPeerScope r p = Some (s, r') \<and> managed cl0 K' r' own (held(s := held s + 1))"
    using kept_getPeerScope [OF k] managed_view [OF m] by blast
  show "\<exists>s r' K'. getProtocolScope r q = Some (s, r') \<and> managed cl0 K' r' own (held(s := held s + 1))"
    using kept_getProtocolScope [OF k] managed_view [OF m] by blast
  show "\<exists>s r' K'. getServiceScope r v = Some (s, r') \<and> managed cl0 K' r' own (held(s := held s + 1))"
    using kept_getServiceScope [OF k] managed_view [OF m] by blast
  assume h: "0 < held s"
  then have "s < length (rmStore r)" using keptD(4) [OF k, of s] by (cases "s < length (rmStore r)") auto
  then obtain r' where r': "rm_DecRef r s = Some r'" "recount r r'" "kept K r' own settled (held(s := held s - 1))"
    using kept_DecRef [OF k] by blast
  have "0 \<le> (held(s := held s - 1)) p" for p using managedD(2) [OF m, of p] h by simp
  then show "\<exists>r'. rm_DecRef r s = Some r' \<and> managed cl0 K r' own (held(s := held s - 1))"
    using r'(1) managed_steady [OF m r'(3) recount_steady [OF r'(2)]] by blast
qed

lemma rm_reach_inv:
  assumes "rm_reach r0 r own held" and start: "managed cl0 K0 r0 (\<lambda>_ _. 0) (\<lambda>_. 0)"
  shows "\<exists>K. managed cl0 K r own held"
  using assms(1)
proof (induction rule: rm_reach.induct)
  case start
  then show ?case using assms(2) by blast
next
  case (open_conn r own held dir usefd ep res r')
  then show ?case using managed_OpenConnection(1) [of cl0 _ r own held dir usefd ep] opened_ledger by (metis option.inject prod.inject)
next
  case (open_conn_noip r own held dir usefd ep res r')
  then show ?case using managed_OpenConnection(2) [of cl0 _ r own held dir usefd ep] opened_ledger by (metis option.inject prod.inject)
next
  case (open_stream r own held dir p res r')
  then show ?case using managed_OpenStream [of cl0 _ r own held dir p] opened_ledger by (metis option.inject)
next
  case (set_peer r own held c p err r')
  then show ?case using managed_moves(1) [of cl0 _ r own held c p] by auto
next
  case (set_protocol r own held s q err r')
  then show ?case using managed_moves(2) [of cl0 _ r own held s q] by auto
next
  case (set_service r own held s v err r')
  then show ?case using managed_moves(3) [of cl0 _ r own held s v] by auto
next
  case (conn_done r own held c r')
  then show ?case using managed_closes(1) [of cl0 _ r own held c] by (metis option.inject)
next
  case (scope_done r own held s r')
  then show ?case using managed_closes(2) [of cl0 _ r own held s] by (metis option.inject)
next
  case (begin_span r own held s res st)
  then show ?case using managed_span [of cl0 _ r own held s] by auto
next
  case (reserve r own held s n prio err st)
  then show ?case using managed_memory(1) [of cl0 _ r own held s n prio] by (metis option.inject prod.inject)
next
  case (release r own held s n st)
  then show ?case using managed_memory(2) [of cl0 _ r own held s n] by (metis option.inject)
next
  case (view_peer r own held p s r')
  then show ?case using managed_views(1) [of cl0 _ r own held p] by (metis option.inject prod.inject)
next
  case (view_protocol r own held q s r')
  then show ?case using managed_views(2) [of cl0 _ r own held q] by (metis option.inject prod.inject)
next
  case (view_service r own held v s r')
  then show ?case using managed_views(3) [of cl0 _ r own held v] by (metis option.inject prod.inject)
next
  case (leave_view r own held s r')
  then show ?case using managed_views(4) [of cl0 _ r own held s] by (metis option.inject)
next
  case (collect r own held protos peers svcs protos' r')
  then show ?case using gc_sweeps [of cl0 _ r own held protos peers svcs protos'] by (auto simp: sweeps_def)
qed (auto simp: managed_sticky)

section \<open>Properties\<close>

definition run_of :: "fixedLimiter \<Rightarrow> rm_option list \<Rightarrow> resourceManager \<Rightarrow> resourceManager \<Rightarrow> ledger \<Rightarrow> (sid \<Rightarrow> int) \<Rightarrow> bool" where
  "run_of limits opts r0 r own held \<longleftrightarrow> NewResourceManager limits opts = Some (Inr r0) \<and>
     (\<forall>opt \<in> set opts. quiet_option opt) \<and> rm_reach r0 r own held"

lemma run_managed:
  assumes "run_of limits opts r0 r own held"
  shows "\<exists>K. managed (rmConnLimiter r0) K r own held"
  using assms rm_reach_inv [OF _ new_manager(1)] unfolding run_of_def by blast

text \<open>The run the examples use: a connection from one address, and a stream to one peer.\<close>

definition example_ledger :: ledger where
  "example_ledger = bump (bump (\<lambda>_ _. 0) 4 (conn_delta DirInbound True)) 6 (stream_delta DirInbound)"

definition example_facts :: "resourceManager \<Rightarrow> bool" where
  "example_facts r \<longleftrightarrow> map (\<lambda>s. nstreamsIn (scRC s)) (rmStore r) = [1, 1, 0, 0, 0, 1, 1] \<and>
     map (\<lambda>s. nconnsIn (scRC s)) (rmStore r) = [1, 1, 0, 0, 1, 0, 0] \<and>
     map scRefCnt (rmStore r) = [5, 3, 2, 1, 0, 1, 0] \<and>
     scEdges (rmStore r ! 4) = [1, 0] \<and> scEdges (rmStore r ! 6) = [5, 1, 0] \<and>
     map scDone (rmStore r) = replicate 7 False \<and> rmPeer r ''p'' = Some 5 \<and>
     map_option (\<lambda>ss. (sPeer ss, sProto ss)) (rmStreams r 6) = Some (5, None) \<and>
     map_option (\<lambda>cs. (cPeer cs, cIsAllowlisted cs, cIP cs)) (rmConns r 4) = Some (None, False, ip_a) \<and>
     rmSystem r = 0 \<and> rmTransient r = 1 \<and> rmAllowlistedSystem r = 2 \<and> rmAllowlistedTransient r = 3 \<and>
     nonneg_limit (limit (scRC (rmStore r ! 0))) \<and> Memory (limit (scRC (rmStore r ! 0))) \<le> MaxInt64"

definition example_call :: bool where
  "example_call \<longleftrightarrow> (case NewResourceManager example_config [] of
     Some (Inr r0) \<Rightarrow> defaultIP4Limit \<in> set (subLimits (select_family (rmConnLimiter r0) False)) \<and>
       (case OpenConnection r0 DirInbound True [CIP4 16909060] of
          Some (Inr c, r1) \<Rightarrow> c = 4 \<and> (case OpenStream r1 ''p'' DirInbound of
            Some (Inr s, r) \<Rightarrow> s = 6 \<and> example_facts r | _ \<Rightarrow> False)
        | _ \<Rightarrow> False)
   | _ \<Rightarrow> False)"

lemma example_call: "example_call"
  by code_simp

lemma new_manager_conns: "NewResourceManager limits opts = Some (Inr r) \<Longrightarrow> live_ips r = {#}"
  by (auto simp: NewResourceManager_def Let_def bind_eq_Some_conv live_of_def live_conns_def split: sum.splits)

lemma example_room:
  "room r (\<lambda>_ _. 0) (conn_delta DirInbound True)" "room r (bump (\<lambda>_ _. 0) 4 (conn_delta DirInbound True)) (stream_delta DirInbound)"
  by (auto simp: room_def deltas bump_def fun_upd_def)

lemma example_run: "\<exists>r0 r. run_of example_config [] r0 r example_ledger (\<lambda>_. 0) \<and> example_facts r \<and>
   defaultIP4Limit \<in> set (subLimits (select_family (rmConnLimiter r0) False))"
proof -
  obtain r0 where r0: "NewResourceManager example_config [] = Some (Inr r0)"
    using example_call by (cases "NewResourceManager example_config []") (auto simp: example_call_def split: sum.splits)
  obtain c r1 where c: "OpenConnection r0 DirInbound True [CIP4 16909060] = Some (c, r1)"
    using example_call r0 by (cases "OpenConnection r0 DirInbound True [CIP4 16909060]") (auto simp: example_call_def)
  then have c4: "c = Inr 4" using example_call r0 by (cases c; simp add: example_call_def)
  obtain res r where r: "OpenStream r1 ''p'' DirInbound = Some (res, r)"
    using example_call r0 c c4 by (cases "OpenStream r1 ''p'' DirInbound") (auto simp: example_call_def)
  then have st: "res = Inr 6" "example_facts r" "defaultIP4Limit \<in> set (subLimits (select_family (rmConnLimiter r0) False))"
    using example_call r0 c c4 r by (cases res; simp add: example_call_def)+
  have "rm_reach r0 r1 (bump (\<lambda>_ _. 0) 4 (conn_delta DirInbound True)) (\<lambda>_. 0)"
    using rm_reach.open_conn [OF rm_reach.start example_room(1) _ c] new_manager_conns [OF r0] c4 by (simp add: ledger_after_def)
  then have "rm_reach r0 r example_ledger (\<lambda>_. 0)"
    using rm_reach.open_stream [OF _ example_room(2) r] st by (simp add: ledger_after_def example_ledger_def)
  then have "run_of example_config [] r0 r example_ledger (\<lambda>_. 0)" using r0 by (simp add: run_of_def)
  then show ?thesis using st by blast
qed

lemma run_length: "example_facts r \<Longrightarrow> length (rmStore r) = 7"
proof -
  assume "example_facts r"
  then have "length (map scRefCnt (rmStore r)) = 7" by (simp add: example_facts_def)
  then show ?thesis by simp
qed




text \<open>C2: In every state a manager reaches, every scope stays within its configured limits: streams
  and connections per direction and in total, file descriptors and memory, for the system, the
  transient scope, and every service, protocol, peer, connection, stream and span.\<close>

theorem manager_limits_hold:
  assumes "run_of limits opts r0 r own held" and "p < length (rmStore r)"
    and "nonneg_limit (limit (scRC (rmStore r ! p)))" "Memory (limit (scRC (rmStore r ! p))) \<le> MaxInt64"
  shows "within_limits (scRC (rmStore r ! p))"
proof -
  obtain K where m: "managed (rmConnLimiter r0) K r own held" using run_managed [OF assms(1)] by blast
  then show ?thesis using keptD(10) [OF managedD(1) [OF m]] assms(2-4) by (simp add: all_fit_def fits_def)
qed

theorem manager_limits_hold_witness:
  "\<exists>r0 r. run_of example_config [] r0 r example_ledger (\<lambda>_. 0) \<and> example_facts r \<and> within_limits (scRC (rmStore r ! 0))"
proof -
  obtain r0 r where r: "run_of example_config [] r0 r example_ledger (\<lambda>_. 0)" "example_facts r" using example_run by blast
  then show ?thesis
    using manager_limits_hold [OF r(1), of 0] run_length [OF r(2)]
    by (intro exI [of _ r0] exI [of _ r]) (simp add: example_facts_def)
qed
















text \<open>C8: A garbage collection removes every peer and every protocol it visits that is unused (no
  references, no streams, connections or descriptors) and not protected as sticky.\<close>

theorem gc_collects_unused:
  assumes "run_of limits opts r0 r own held" and "gc protos peers svcs protos' r = Some r'"
  shows "(p \<in> set peers \<and> rmPeer r p = Some s \<and> p \<notin> rmStickyPeer r \<and> IsUnused (rmStore r) s = Some True \<longrightarrow> rmPeer r' p = None) \<and>
    (q \<in> set protos \<and> rmProto r q = Some s \<and> q \<notin> rmStickyProto r \<and> IsUnused (rmStore r) s = Some True \<longrightarrow> rmProto r' q = None)"
proof -
  obtain K where m: "managed (rmConnLimiter r0) K r own held" using run_managed [OF assms(1)] by blast
  show ?thesis using gc_collected [OF m assms(2)] by blast
qed

text \<open>A run that opens a stream and closes it again.\<close>

definition example_closed :: bool where
  "example_closed \<longleftrightarrow> (case NewResourceManager example_config [] of
     Some (Inr r0) \<Rightarrow> (case OpenStream r0 ''p'' DirInbound of
       Some (Inr s, r1) \<Rightarrow> s = 5 \<and> length (rmStore r1) = 6 \<and> rmStreams r1 5 \<noteq> None \<and> (case rm_Done r1 5 of
         Some r \<Rightarrow> rmPeer r ''p'' = Some 4 \<and> ''p'' \<notin> rmStickyPeer r \<and> IsUnused (rmStore r) 4 = Some True | None \<Rightarrow> False)
     | _ \<Rightarrow> False) | _ \<Rightarrow> False)"

lemma example_closed: "example_closed"
  by code_simp

lemma example_closed_run:
  "\<exists>r0 r own. run_of example_config [] r0 r own (\<lambda>_. 0) \<and> rmPeer r ''p'' = Some 4 \<and> ''p'' \<notin> rmStickyPeer r \<and>
     IsUnused (rmStore r) 4 = Some True"
proof -
  obtain r0 where r0: "NewResourceManager example_config [] = Some (Inr r0)"
    using example_closed by (cases "NewResourceManager example_config []") (auto simp: example_closed_def split: sum.splits)
  obtain res r1 where r1: "OpenStream r0 ''p'' DirInbound = Some (res, r1)"
    using example_closed r0 by (cases "OpenStream r0 ''p'' DirInbound") (auto simp: example_closed_def)
  then have s: "res = Inr 5" "length (rmStore r1) = 6" "rmStreams r1 5 \<noteq> None"
    using example_closed r0 by (cases res; simp add: example_closed_def)+
  obtain r where r: "rm_Done r1 5 = Some r"
    using example_closed r0 r1 s by (cases "rm_Done r1 5") (auto simp: example_closed_def)
  have "room r0 (\<lambda>_ _. 0) (stream_delta DirInbound)" by (auto simp: room_def deltas)
  then have "rm_reach r0 r1 (ledger_after (\<lambda>_ _. 0) (stream_delta DirInbound) res) (\<lambda>_. 0)"
    using rm_reach.open_stream [OF rm_reach.start _ r1] by blast
  then have "run_of example_config [] r0 r (ledger_done r1 (ledger_after (\<lambda>_ _. 0) (stream_delta DirInbound) res) 5) (\<lambda>_. 0)"
    using rm_reach.scope_done [OF _ _ _ r] s r0 by (simp add: run_of_def)
  then show ?thesis using example_closed r0 r1 s r by (simp add: example_closed_def) blast
qed

theorem gc_collects_unused_witness:
  "\<exists>r0 r own r'. run_of example_config [] r0 r own (\<lambda>_. 0) \<and> rmPeer r ''p'' = Some 4 \<and> gc [] [''p''] [] [] r = Some r' \<and>
     rmPeer r' ''p'' = None"
proof -
  obtain r0 r own where r: "run_of example_config [] r0 r own (\<lambda>_. 0)" "rmPeer r ''p'' = Some 4" "''p'' \<notin> rmStickyPeer r"
      "IsUnused (rmStore r) 4 = Some True"
    using example_closed_run by blast
  obtain K where m: "managed (rmConnLimiter r0) K r own (\<lambda>_. 0)" using run_managed [OF r(1)] by blast
  obtain r' where r': "gc [] [''p''] [] [] r = Some r'" using gc_sweeps [OF m] by blast
  have "''p'' \<in> set [''p'']" by simp
  then have "rmPeer r' ''p'' = None" using gc_collects_unused [OF r(1) r', of "''p''" 4] r(2-4) by blast
  then show ?thesis using r r' by blast
qed

end
