(* ===== verification/Scaling.thy ===== *)
theory Scaling
  imports Limits
begin

text \<open>
  Scaling limits (p2p/host/resource-manager/limit_defaults.go): a configuration gives, for each
  scope, base limits for the smallest node and an increase per GiB of memory; \<open>Scale\<close> turns it
  into a concrete configuration.  The file descriptor share is a float64, modelled as
  mantissa times a power of two with the rounding of its products to 53 bits; NaN, infinities
  and the ends of the exponent range are left out.
\<close>

section \<open>The float64 arithmetic of the descriptor share\<close>

type_synonym float64 = "int \<times> int"

text \<open>Round to the nearest number with a 53-bit mantissa, ties to even.\<close>

definition round53 :: "nat \<Rightarrow> nat \<times> nat" where
  "round53 n =
    (let s = bit_length n - 53; q = n div 2 ^ s; r = n mod 2 ^ s in
     if s = 0 then (n, 0)
     else if 2 * r > 2 ^ s \<or> (2 * r = 2 ^ s \<and> odd q) then (Suc q, s) else (q, s))"

text \<open>\<open>int(f * float64(n))\<close> for a positive share and a positive count.\<close>

definition fraction_of :: "float64 \<Rightarrow> int \<Rightarrow> int" where
  "fraction_of f n =
    (let (m1, s1) = round53 (nat n); (m, s) = round53 (nat (fst f) * m1);
         e = snd f + int s1 + int s in
     if e \<ge> 0 then int m * 2 ^ nat e else int m div 2 ^ nat (- e))"

section \<open>Configuration\<close>

record BaseLimitIncrease =
  incStreams :: int
  incStreamsInbound :: int
  incStreamsOutbound :: int
  incConns :: int
  incConnsInbound :: int
  incConnsOutbound :: int
  incMemory :: int
  incFDFraction :: float64

definition BaseLimitIncrease_Apply ::
  "BaseLimitIncrease \<Rightarrow> BaseLimitIncrease \<Rightarrow> BaseLimitIncrease"
where
  "BaseLimitIncrease_Apply l l2 =
    \<lparr>incStreams = (if incStreams l = 0 then incStreams l2 else incStreams l),
     incStreamsInbound = (if incStreamsInbound l = 0 then incStreamsInbound l2
       else incStreamsInbound l),
     incStreamsOutbound = (if incStreamsOutbound l = 0 then incStreamsOutbound l2
       else incStreamsOutbound l),
     incConns = (if incConns l = 0 then incConns l2 else incConns l),
     incConnsInbound = (if incConnsInbound l = 0 then incConnsInbound l2 else incConnsInbound l),
     incConnsOutbound = (if incConnsOutbound l = 0 then incConnsOutbound l2
       else incConnsOutbound l),
     incMemory = (if incMemory l = 0 then incMemory l2 else incMemory l),
     incFDFraction = (if fst (incFDFraction l) = 0 then incFDFraction l2 else incFDFraction l)\<rparr>"

record baseLimitConfig =
  blcBaseLimit :: BaseLimit
  blcBaseLimitIncrease :: BaseLimitIncrease

text \<open>A nil map and an empty one scale to maps that read the same, so both are the empty map.\<close>

record ScalingLimitConfig =
  SystemBaseLimit :: BaseLimit
  SystemLimitIncrease :: BaseLimitIncrease
  TransientBaseLimit :: BaseLimit
  TransientLimitIncrease :: BaseLimitIncrease
  AllowlistedSystemBaseLimit :: BaseLimit
  AllowlistedSystemLimitIncrease :: BaseLimitIncrease
  AllowlistedTransientBaseLimit :: BaseLimit
  AllowlistedTransientLimitIncrease :: BaseLimitIncrease
  ServiceBaseLimit :: BaseLimit
  ServiceLimitIncrease :: BaseLimitIncrease
  ServiceLimits :: "string \<rightharpoonup> baseLimitConfig"
  ServicePeerBaseLimit :: BaseLimit
  ServicePeerLimitIncrease :: BaseLimitIncrease
  ServicePeerLimits :: "string \<rightharpoonup> baseLimitConfig"
  ProtocolBaseLimit :: BaseLimit
  ProtocolLimitIncrease :: BaseLimitIncrease
  ProtocolLimits :: "protocolID \<rightharpoonup> baseLimitConfig"
  ProtocolPeerBaseLimit :: BaseLimit
  ProtocolPeerLimitIncrease :: BaseLimitIncrease
  ProtocolPeerLimits :: "protocolID \<rightharpoonup> baseLimitConfig"
  PeerBaseLimit :: BaseLimit
  PeerLimitIncrease :: BaseLimitIncrease
  PeerLimits :: "peerID \<rightharpoonup> baseLimitConfig"
  ConnBaseLimit :: BaseLimit
  ConnLimitIncrease :: BaseLimitIncrease
  StreamBaseLimit :: BaseLimit
  StreamLimitIncrease :: BaseLimitIncrease

definition AddServiceLimit ::
  "ScalingLimitConfig \<Rightarrow> string \<Rightarrow> BaseLimit \<Rightarrow> BaseLimitIncrease \<Rightarrow> ScalingLimitConfig"
where
  "AddServiceLimit cfg k base inc =
    cfg\<lparr>ServiceLimits := (ServiceLimits cfg)
      (k \<mapsto> \<lparr>blcBaseLimit = base, blcBaseLimitIncrease = inc\<rparr>)\<rparr>"

definition AddProtocolLimit ::
  "ScalingLimitConfig \<Rightarrow> protocolID \<Rightarrow> BaseLimit \<Rightarrow> BaseLimitIncrease \<Rightarrow> ScalingLimitConfig"
where
  "AddProtocolLimit cfg k base inc =
    cfg\<lparr>ProtocolLimits := (ProtocolLimits cfg)
      (k \<mapsto> \<lparr>blcBaseLimit = base, blcBaseLimitIncrease = inc\<rparr>)\<rparr>"

definition AddPeerLimit ::
  "ScalingLimitConfig \<Rightarrow> peerID \<Rightarrow> BaseLimit \<Rightarrow> BaseLimitIncrease \<Rightarrow> ScalingLimitConfig"
where
  "AddPeerLimit cfg k base inc =
    cfg\<lparr>PeerLimits := (PeerLimits cfg)
      (k \<mapsto> \<lparr>blcBaseLimit = base, blcBaseLimitIncrease = inc\<rparr>)\<rparr>"

definition AddServicePeerLimit ::
  "ScalingLimitConfig \<Rightarrow> string \<Rightarrow> BaseLimit \<Rightarrow> BaseLimitIncrease \<Rightarrow> ScalingLimitConfig"
where
  "AddServicePeerLimit cfg k base inc =
    cfg\<lparr>ServicePeerLimits := (ServicePeerLimits cfg)
      (k \<mapsto> \<lparr>blcBaseLimit = base, blcBaseLimitIncrease = inc\<rparr>)\<rparr>"

definition AddProtocolPeerLimit ::
  "ScalingLimitConfig \<Rightarrow> protocolID \<Rightarrow> BaseLimit \<Rightarrow> BaseLimitIncrease \<Rightarrow> ScalingLimitConfig"
where
  "AddProtocolPeerLimit cfg k base inc =
    cfg\<lparr>ProtocolPeerLimits := (ProtocolPeerLimits cfg)
      (k \<mapsto> \<lparr>blcBaseLimit = base, blcBaseLimitIncrease = inc\<rparr>)\<rparr>"

section \<open>Scaling\<close>

text \<open>The arithmetic shift of a 64-bit product.\<close>

definition per_gib :: "int \<Rightarrow> int \<Rightarrow> int" where
  "per_gib inc mib = mul64 inc mib div 1024"

definition scale :: "BaseLimit \<Rightarrow> BaseLimitIncrease \<Rightarrow> int \<Rightarrow> int \<Rightarrow> BaseLimit" where
  "scale base inc mem numFD =
    (let mebibytesAvailable = (if mem > 134217728 then mem div 1048576 else 0);
         l = \<lparr>Streams = add64 (Streams base) (per_gib (incStreams inc) mebibytesAvailable),
              StreamsInbound =
                add64 (StreamsInbound base) (per_gib (incStreamsInbound inc) mebibytesAvailable),
              StreamsOutbound =
                add64 (StreamsOutbound base) (per_gib (incStreamsOutbound inc) mebibytesAvailable),
              Conns = add64 (Conns base) (per_gib (incConns inc) mebibytesAvailable),
              ConnsInbound =
                add64 (ConnsInbound base) (per_gib (incConnsInbound inc) mebibytesAvailable),
              ConnsOutbound =
                add64 (ConnsOutbound base) (per_gib (incConnsOutbound inc) mebibytesAvailable),
              FD = FD base,
              Memory = add64 (Memory base) (per_gib (incMemory inc) mebibytesAvailable)\<rparr>
     in if fst (incFDFraction inc) > 0 \<and> numFD > 0 then
          let fd = fraction_of (incFDFraction inc) numFD
          in l\<lparr>FD := (if fd < FD base then FD base else fd)\<rparr>
        else l)"

definition scale_map ::
  "('k \<rightharpoonup> baseLimitConfig) \<Rightarrow> int \<Rightarrow> int \<Rightarrow> 'k \<rightharpoonup> BaseLimit"
where
  "scale_map m mem numFD =
    (\<lambda>k. map_option (\<lambda>c. scale (blcBaseLimit c) (blcBaseLimitIncrease c) mem numFD) (m k))"

definition Scale :: "ScalingLimitConfig \<Rightarrow> int \<Rightarrow> int \<Rightarrow> ConcreteLimitConfig" where
  "Scale cfg mem numFD =
    \<lparr>c_system = scale (SystemBaseLimit cfg) (SystemLimitIncrease cfg) mem numFD,
     c_transient = scale (TransientBaseLimit cfg) (TransientLimitIncrease cfg) mem numFD,
     c_allowlistedSystem = scale (AllowlistedSystemBaseLimit cfg) (AllowlistedSystemLimitIncrease cfg) mem numFD,
     c_allowlistedTransient = scale (AllowlistedTransientBaseLimit cfg) (AllowlistedTransientLimitIncrease cfg) mem numFD,
     c_serviceDefault = scale (ServiceBaseLimit cfg) (ServiceLimitIncrease cfg) mem numFD,
     c_service = scale_map (ServiceLimits cfg) mem numFD,
     c_servicePeerDefault = scale (ServicePeerBaseLimit cfg) (ServicePeerLimitIncrease cfg) mem numFD,
     c_servicePeer = scale_map (ServicePeerLimits cfg) mem numFD,
     c_protocolDefault = scale (ProtocolBaseLimit cfg) (ProtocolLimitIncrease cfg) mem numFD,
     c_protocol = scale_map (ProtocolLimits cfg) mem numFD,
     c_protocolPeerDefault = scale (ProtocolPeerBaseLimit cfg) (ProtocolPeerLimitIncrease cfg) mem numFD,
     c_protocolPeer = scale_map (ProtocolPeerLimits cfg) mem numFD,
     c_peerDefault = scale (PeerBaseLimit cfg) (PeerLimitIncrease cfg) mem numFD,
     c_peer = scale_map (PeerLimits cfg) mem numFD,
     c_conn = scale (ConnBaseLimit cfg) (ConnLimitIncrease cfg) mem numFD,
     c_stream = scale (StreamBaseLimit cfg) (ConnLimitIncrease cfg) mem numFD\<rparr>"

text \<open>\<open>AutoScale\<close> reads the memory and the descriptor limit of the machine.\<close>

definition AutoScale :: "ScalingLimitConfig \<Rightarrow> int \<Rightarrow> int \<Rightarrow> ConcreteLimitConfig" where
  "AutoScale cfg totalMemory numFDs = Scale cfg (quot totalMemory 8) (quot numFDs 2)"

section \<open>The configurations the package exports\<close>

abbreviation base_limit ::
  "int \<Rightarrow> int \<Rightarrow> int \<Rightarrow> int \<Rightarrow> int \<Rightarrow> int \<Rightarrow> int \<Rightarrow> int \<Rightarrow> BaseLimit"
where
  "base_limit ci co c si os s m fd \<equiv>
    \<lparr>Streams = s, StreamsInbound = si, StreamsOutbound = os, Conns = c, ConnsInbound = ci,
     ConnsOutbound = co, FD = fd, Memory = m\<rparr>"

abbreviation base_increase ::
  "int \<Rightarrow> int \<Rightarrow> int \<Rightarrow> int \<Rightarrow> int \<Rightarrow> int \<Rightarrow> int \<Rightarrow> float64 \<Rightarrow> BaseLimitIncrease"
where
  "base_increase ci co c si os s m fd \<equiv>
    \<lparr>incStreams = s, incStreamsInbound = si, incStreamsOutbound = os, incConns = c,
     incConnsInbound = ci, incConnsOutbound = co, incMemory = m, incFDFraction = fd\<rparr>"

abbreviation MiB :: int where "MiB \<equiv> 1048576"

definition DefaultLimits :: ScalingLimitConfig where
  "DefaultLimits =
    \<lparr>SystemBaseLimit = base_limit 64 128 128 (64 * 16) (128 * 16) (128 * 16) (128 * MiB) 256,
     SystemLimitIncrease = base_increase 64 128 128 (64 * 16) (128 * 16) (128 * 16) (1024 * MiB) (1, 0),
     TransientBaseLimit = base_limit 32 64 64 128 256 256 (32 * MiB) 64,
     TransientLimitIncrease = base_increase 16 32 32 128 256 256 (128 * MiB) (1, - 2),
     AllowlistedSystemBaseLimit = base_limit 64 128 128 (64 * 16) (128 * 16) (128 * 16) (128 * MiB) 256,
     AllowlistedSystemLimitIncrease = base_increase 64 128 128 (64 * 16) (128 * 16) (128 * 16) (1024 * MiB) (1, 0),
     AllowlistedTransientBaseLimit = base_limit 32 64 64 128 256 256 (32 * MiB) 64,
     AllowlistedTransientLimitIncrease = base_increase 16 32 32 128 256 256 (128 * MiB) (1, - 2),
     ServiceBaseLimit = base_limit 0 0 0 1024 4096 4096 (64 * MiB) 0,
     ServiceLimitIncrease = base_increase 0 0 0 512 2048 2048 (128 * MiB) (0, 0),
     ServiceLimits = Map.empty,
     ServicePeerBaseLimit = base_limit 0 0 0 128 256 256 (16 * MiB) 0,
     ServicePeerLimitIncrease = base_increase 0 0 0 4 8 8 (4 * MiB) (0, 0),
     ServicePeerLimits = Map.empty,
     ProtocolBaseLimit = base_limit 0 0 0 512 2048 2048 (64 * MiB) 0,
     ProtocolLimitIncrease = base_increase 0 0 0 256 512 512 (164 * MiB) (0, 0),
     ProtocolLimits = Map.empty,
     ProtocolPeerBaseLimit = base_limit 0 0 0 64 128 256 (16 * MiB) 0,
     ProtocolPeerLimitIncrease = base_increase 0 0 0 4 8 16 4 (0, 0),
     ProtocolPeerLimits = Map.empty,
     PeerBaseLimit = base_limit 8 8 8 256 512 512 (64 * MiB) 4,
     PeerLimitIncrease = base_increase 0 0 0 128 256 256 (128 * MiB) (1, - 6),
     PeerLimits = Map.empty,
     ConnBaseLimit = base_limit 1 1 1 0 0 0 (32 * MiB) 1,
     ConnLimitIncrease = base_increase 0 0 0 0 0 0 0 (0, 0),
     StreamBaseLimit = base_limit 0 0 0 1 1 1 (16 * MiB) 0,
     StreamLimitIncrease = base_increase 0 0 0 0 0 0 0 (0, 0)\<rparr>"

definition infiniteBaseLimit :: BaseLimit where
  "infiniteBaseLimit = base_limit MaxInt64 MaxInt64 MaxInt64 MaxInt64 MaxInt64 MaxInt64 MaxInt64
     MaxInt64"

definition InfiniteLimits :: ConcreteLimitConfig where
  "InfiniteLimits =
    \<lparr>c_system = infiniteBaseLimit,
     c_transient = infiniteBaseLimit,
     c_allowlistedSystem = infiniteBaseLimit,
     c_allowlistedTransient = infiniteBaseLimit,
     c_serviceDefault = infiniteBaseLimit, c_service = Map.empty,
     c_servicePeerDefault = infiniteBaseLimit, c_servicePeer = Map.empty,
     c_protocolDefault = infiniteBaseLimit, c_protocol = Map.empty,
     c_protocolPeerDefault = infiniteBaseLimit, c_protocolPeer = Map.empty,
     c_peerDefault = infiniteBaseLimit, c_peer = Map.empty,
     c_conn = infiniteBaseLimit,
     c_stream = infiniteBaseLimit\<rparr>"

section \<open>What scaling gives\<close>

definition limit_le :: "BaseLimit \<Rightarrow> BaseLimit \<Rightarrow> bool" where
  "limit_le a b \<longleftrightarrow> Streams a \<le> Streams b \<and> StreamsInbound a \<le> StreamsInbound b
     \<and> StreamsOutbound a \<le> StreamsOutbound b \<and> Conns a \<le> Conns b
     \<and> ConnsInbound a \<le> ConnsInbound b \<and> ConnsOutbound a \<le> ConnsOutbound b
     \<and> FD a \<le> FD b \<and> Memory a \<le> Memory b"

text \<open>Increases that do not overflow on a machine with less than \<open>2 ^ 53\<close> bytes.\<close>

definition modest :: "BaseLimit \<Rightarrow> BaseLimitIncrease \<Rightarrow> bool" where
  "modest b i \<longleftrightarrow>
     (\<forall>(x, y) \<in> set [(Streams b, incStreams i), (StreamsInbound b, incStreamsInbound i),
        (StreamsOutbound b, incStreamsOutbound i), (Conns b, incConns i),
        (ConnsInbound b, incConnsInbound i), (ConnsOutbound b, incConnsOutbound i),
        (Memory b, incMemory i)].
        0 \<le> x \<and> x \<le> 4611686018427387904 \<and> 0 \<le> y \<and> y \<le> 1073741824) \<and> 0 \<le> FD b"

lemma add_per_gib:
  assumes "0 \<le> b" "b \<le> 4611686018427387904" "0 \<le> i" "i \<le> 1073741824" "0 \<le> mib" "mib < 8589934592"
  shows "add64 b (per_gib i mib) = b + i * mib div 1024"
proof -
  have "i * mib \<le> 1073741824 * 8589934591" using assms by (intro mult_mono) auto
  moreover have "0 \<le> i * mib" using assms by simp
  ultimately have "per_gib i mib = i * mib div 1024" "0 \<le> i * mib div 1024"
    "i * mib div 1024 \<le> 9007199253692416"
    by (auto simp: per_gib_def mul64_exact int64_range_def)
  then show ?thesis using assms by (simp add: add64_exact int64_range_def)
qed

definition mib_of :: "int \<Rightarrow> int" where
  "mib_of mem = (if mem > 134217728 then mem div 1048576 else 0)"

lemma mib_of_range: "mem < 9007199254740992 \<Longrightarrow> 0 \<le> mib_of mem \<and> mib_of mem < 8589934592"
  by (auto simp: mib_of_def)

lemma mib_of_mono: "mem \<le> mem' \<Longrightarrow> mib_of mem \<le> mib_of mem'"
  by (auto simp: mib_of_def zdiv_mono1)

lemma scale_fields:
  assumes "modest b i" and "mem < 9007199254740992"
  shows "scale b i mem numFD =
    \<lparr>Streams = Streams b + incStreams i * mib_of mem div 1024,
     StreamsInbound = StreamsInbound b + incStreamsInbound i * mib_of mem div 1024,
     StreamsOutbound = StreamsOutbound b + incStreamsOutbound i * mib_of mem div 1024,
     Conns = Conns b + incConns i * mib_of mem div 1024,
     ConnsInbound = ConnsInbound b + incConnsInbound i * mib_of mem div 1024,
     ConnsOutbound = ConnsOutbound b + incConnsOutbound i * mib_of mem div 1024,
     FD = (if fst (incFDFraction i) > 0 \<and> numFD > 0
           then max (FD b) (fraction_of (incFDFraction i) numFD) else FD b),
     Memory = Memory b + incMemory i * mib_of mem div 1024\<rparr>"
  using assms mib_of_range [OF assms(2)]
  by (simp add: scale_def Let_def modest_def add_per_gib max_def flip: mib_of_def)

lemma share_mono: "0 \<le> (i::int) \<Longrightarrow> m \<le> m' \<Longrightarrow> i * m div 1024 \<le> i * m' div 1024"
  by (simp add: mult_left_mono zdiv_mono1)

lemma scale_ge:
  assumes "modest b i" and "mem < 9007199254740992"
  shows "limit_le b (scale b i mem numFD)"
  using assms mib_of_range [OF assms(2)]
  by (simp add: scale_fields limit_le_def modest_def pos_imp_zdiv_nonneg_iff)

lemma scale_mono:
  assumes "modest b i" and "mem \<le> mem'" and "mem' < 9007199254740992"
  shows "limit_le (scale b i mem numFD) (scale b i mem' numFD)"
  using assms(1) mib_of_mono [OF assms(2)] assms(2,3)
  by (simp add: scale_fields limit_le_def modest_def share_mono)

lemma nonneg_limit_le: "nonneg_limit a \<Longrightarrow> limit_le a b \<Longrightarrow> nonneg_limit b"
  by (auto simp: nonneg_limit_def limit_le_def)

lemma modest_nonneg: "modest b i \<Longrightarrow> nonneg_limit b"
  by (auto simp: modest_def nonneg_limit_def)

lemma nonneg_scale:
  "modest b i \<Longrightarrow> mem < 9007199254740992 \<Longrightarrow> nonneg_limit (scale b i mem numFD)"
  using scale_ge modest_nonneg nonneg_limit_le by blast

text \<open>A share of a count that a float64 holds exactly is rounded down only once.\<close>

lemma round53_exact: "n < 2 ^ 53 \<Longrightarrow> round53 n = (n, 0)"
  using bit_length_le [of n 53] by (simp add: round53_def Let_def)

lemma fraction_of_exact:
  assumes "0 < m" "0 < n" "m * n < 2 ^ 53"
  shows "fraction_of (m, - int k) n = m * n div 2 ^ k"
proof -
  have "n \<le> m * n" using assms by (simp add: mult_le_cancel_right1)
  then have "n < 2 ^ 53" using assms(3) by linarith
  then have "nat n < 2 ^ 53" "nat m * nat n < 2 ^ 53"
    using assms by (simp_all flip: nat_mult_distrib)
  then show ?thesis
    using assms by (cases "k = 0") (simp_all add: fraction_of_def round53_exact)
qed

section \<open>Properties\<close>

text \<open>For limits and increases of a sensible size and less than 2^53 bytes of memory, \<open>scale\<close>
  never lowers a limit below its base, never lowers one when memory is added, and its 64-bit
  arithmetic gives exactly base + increase * MiB / 1024.\<close>

theorem scale_monotone:
  assumes "modest b i" and "mem \<le> mem'" and "mem' < 9007199254740992"
  shows "limit_le b (scale b i mem numFD) \<and> limit_le (scale b i mem numFD) (scale b i mem' numFD)
    \<and> Memory (scale b i mem numFD) = Memory b + incMemory i * mib_of mem div 1024"
  using scale_mono [OF assms] scale_ge [OF assms(1)] scale_fields [OF assms(1)] assms(2,3) by simp

theorem scale_monotone_witness:
  "Memory (scale (SystemBaseLimit DefaultLimits) (SystemLimitIncrease DefaultLimits)
     4294967296 1024) = 4429185024"
  using scale_monotone [of "SystemBaseLimit DefaultLimits" "SystemLimitIncrease DefaultLimits"
      4294967296 4294967296 1024]
  by (simp add: modest_def DefaultLimits_def mib_of_def)

text \<open>C21: Scaling the default limits to any machine with less than 2^53 bytes of memory gives a
  configuration without negative limits (a negative limit would be read as a sentinel).\<close>

theorem default_limits_nonneg:
  assumes "mem < 9007199254740992"
  shows "nonneg_config (Scale DefaultLimits mem numFD)"
proof -
  have "modest (SystemBaseLimit DefaultLimits) (SystemLimitIncrease DefaultLimits)"
    "modest (TransientBaseLimit DefaultLimits) (TransientLimitIncrease DefaultLimits)"
    "modest (AllowlistedSystemBaseLimit DefaultLimits) (AllowlistedSystemLimitIncrease DefaultLimits)"
    "modest (AllowlistedTransientBaseLimit DefaultLimits)
       (AllowlistedTransientLimitIncrease DefaultLimits)"
    "modest (ServiceBaseLimit DefaultLimits) (ServiceLimitIncrease DefaultLimits)"
    "modest (ServicePeerBaseLimit DefaultLimits) (ServicePeerLimitIncrease DefaultLimits)"
    "modest (ProtocolBaseLimit DefaultLimits) (ProtocolLimitIncrease DefaultLimits)"
    "modest (ProtocolPeerBaseLimit DefaultLimits) (ProtocolPeerLimitIncrease DefaultLimits)"
    "modest (PeerBaseLimit DefaultLimits) (PeerLimitIncrease DefaultLimits)"
    "modest (ConnBaseLimit DefaultLimits) (ConnLimitIncrease DefaultLimits)"
    "modest (StreamBaseLimit DefaultLimits) (ConnLimitIncrease DefaultLimits)"
    by (simp_all add: modest_def DefaultLimits_def)
  moreover have "ServiceLimits DefaultLimits = Map.empty" "ServicePeerLimits DefaultLimits = Map.empty"
    "ProtocolLimits DefaultLimits = Map.empty" "ProtocolPeerLimits DefaultLimits = Map.empty"
    "PeerLimits DefaultLimits = Map.empty"
    by (simp_all add: DefaultLimits_def)
  ultimately show ?thesis
    using assms by (simp add: nonneg_config_def Scale_def nonneg_scale nonneg_map_def scale_map_def)
qed

theorem default_limits_nonneg_witness: "nonneg_config (Scale DefaultLimits 1073741824 1024)"
  by (rule default_limits_nonneg) simp


text \<open>As long as the number of descriptors and its share fit the 53 bits of a float64, a scope
  is granted exactly the floor of its share, and never less than its base.\<close>

theorem fd_share_exact:
  assumes "incFDFraction i = (m, - int k)" and "0 < m" and "0 < numFD" and "m * numFD < 2 ^ 53"
  shows "FD (scale b i mem numFD) = max (FD b) (m * numFD div 2 ^ k)"
  using assms fraction_of_exact [of m numFD k] by (auto simp: scale_def Let_def)

theorem fd_share_exact_witness:
  "FD (scale (TransientBaseLimit DefaultLimits) (TransientLimitIncrease DefaultLimits) 0 1023) = 255"
  using fd_share_exact [of "TransientLimitIncrease DefaultLimits" 1 2 1023
      "TransientBaseLimit DefaultLimits" 0]
  by (simp add: DefaultLimits_def)

end
