(* ===== verification/Varint.thy ===== *)
theory Varint
  imports Prelude
begin

text \<open>
  Unsigned varints (multiformats/varint/varint.go): seven bits a byte, the least significant first,
  at most nine bytes, and only the shortest encoding is read.  Bytes are 8-bit words and values
  64-bit words.  The encoder of encoding/binary, which the package calls, writes into a slice; an
  index out of its range is the result \<open>None\<close>.
\<close>

unbundle bit_operations_syntax

type_synonym byte = "8 word"

section \<open>Definitions\<close>

datatype varint_error = ErrOverflow | ErrUnderflow | ErrNotMinimal

definition MaxLenUvarint63 :: nat where
  "MaxLenUvarint63 = 9"

definition MaxValueUvarint63 :: "64 word" where
  "MaxValueUvarint63 = push_bit 63 1 - 1"

definition UvarintSize :: "64 word \<Rightarrow> nat" where
  "UvarintSize num =
    (let bits = bit_length (unat num); q = bits div 7; r = bits mod 7 in
     if r > 0 \<or> q = 0 then q + 1 else q)"

text \<open>binary.PutUvarint: the slice it wrote into, and the number of bytes.\<close>

function put_loop :: "byte list \<Rightarrow> nat \<Rightarrow> 64 word \<Rightarrow> (byte list \<times> nat) option" where
  "put_loop buf i x =
    (if i \<ge> length buf then None
     else if x \<ge> 0x80 then put_loop (buf[i := ucast x OR 0x80]) (i + 1) (drop_bit 7 x)
     else Some (buf[i := ucast x], i + 1))"
  by pat_completeness auto
termination
  by (relation "measure (\<lambda>(buf, i, x). length buf - i)") auto

declare put_loop.simps [simp del]

definition PutUvarint :: "byte list \<Rightarrow> 64 word \<Rightarrow> (byte list \<times> nat) option" where
  "PutUvarint buf x = put_loop buf 0 x"

definition ToUvarint :: "64 word \<Rightarrow> byte list option" where
  "ToUvarint num =
    (case PutUvarint (replicate (UvarintSize num) 0) num of
       None \<Rightarrow> None
     | Some (buf, n) \<Rightarrow> Some (take n buf))"

fun from_loop :: "nat \<Rightarrow> 64 word \<Rightarrow> nat \<Rightarrow> byte list \<Rightarrow> varint_error + 64 word \<times> nat" where
  "from_loop i x s [] = Inl ErrUnderflow"
| "from_loop i x s (b # buf) =
    (if i = 8 \<and> b \<ge> 0x80 \<or> i \<ge> MaxLenUvarint63 then Inl ErrOverflow
     else if b < 0x80 then
       if b = 0 \<and> s > 0 then Inl ErrNotMinimal
       else Inr (x OR push_bit s (ucast b), i + 1)
     else from_loop (i + 1) (x OR push_bit s (ucast (b AND 0x7f))) (s + 7) buf)"

definition FromUvarint :: "byte list \<Rightarrow> varint_error + 64 word \<times> nat" where
  "FromUvarint buf = from_loop 0 0 0 buf"

text \<open>
  io.ByteReader: a function that gives a byte or an error, and the reader afterwards.
\<close>

datatype io_error = EOF | ErrUnexpectedEOF | OtherError string

type_synonym 'r byte_reader = "'r \<Rightarrow> (io_error + byte) \<times> 'r"

function read_loop ::
  "'r byte_reader \<Rightarrow> 'r \<Rightarrow> 64 word \<Rightarrow> nat \<Rightarrow> ((io_error + varint_error) + 64 word) \<times> 'r" where
  "read_loop ReadByte r x s =
    (case ReadByte r of
       (Inl err, r') \<Rightarrow> (Inl (Inl (if err = EOF \<and> s \<noteq> 0 then ErrUnexpectedEOF else err)), r')
     | (Inr b, r') \<Rightarrow>
         if s = 56 \<and> b \<ge> 0x80 \<or> s \<ge> 7 * MaxLenUvarint63 then (Inl (Inr ErrOverflow), r')
         else if b < 0x80 then
           if b = 0 \<and> s > 0 then (Inl (Inr ErrNotMinimal), r')
           else (Inr (x OR push_bit s (ucast b)), r')
         else read_loop ReadByte r' (x OR push_bit s (ucast (b AND 0x7f))) (s + 7))"
  by pat_completeness auto
termination
  by (relation "measure (\<lambda>(rd, r, x, s). 63 - s)") (auto simp: MaxLenUvarint63_def)

declare read_loop.simps [simp del]

definition ReadUvarint :: "'r byte_reader \<Rightarrow> 'r \<Rightarrow> ((io_error + varint_error) + 64 word) \<times> 'r" where
  "ReadUvarint ReadByte r = read_loop ReadByte r 0 0"

text \<open>The reader of a byte slice (bytes.Reader).\<close>

fun slice_reader :: "byte list byte_reader" where
  "slice_reader [] = (Inl EOF, [])"
| "slice_reader (b # bs) = (Inr b, bs)"

section \<open>The encoding\<close>

text \<open>The encoding of a number, free of buffers and words.\<close>

fun varint_bytes :: "nat \<Rightarrow> byte list" where
  "varint_bytes n =
    (if n < 128 then [of_nat n] else of_nat (n mod 128 + 128) # varint_bytes (n div 128))"

declare varint_bytes.simps [simp del]

lemma varint_bytes_small: "n < 128 \<Longrightarrow> varint_bytes n = [of_nat n]"
  by (simp add: varint_bytes.simps)

lemma varint_bytes_large:
  "128 \<le> n \<Longrightarrow> varint_bytes n = of_nat (n mod 128 + 128) # varint_bytes (n div 128)"
  by (subst varint_bytes.simps) simp

lemma varint_bytes_nonempty [simp]: "varint_bytes n \<noteq> []"
  by (subst varint_bytes.simps) simp

lemma bit_length_div: "2 ^ k \<le> n \<Longrightarrow> bit_length n = bit_length (n div 2 ^ k) + k"
proof (induction k arbitrary: n)
  case 0
  then show ?case by simp
next
  case (Suc k)
  then have "2 ^ k \<le> n div 2" by auto
  then have "bit_length (n div 2) = bit_length (n div 2 div 2 ^ k) + k" by (rule Suc.IH)
  moreover have "n \<noteq> 0" using Suc.prems by (metis not_le zero_less_numeral zero_less_power)
  ultimately show ?case
    by (subst bit_length.simps) (simp add: div_mult2_eq [symmetric])
qed

lemma bit_length_pos: "0 < n \<Longrightarrow> 0 < bit_length n"
  by (subst bit_length.simps) simp

definition varint_len :: "nat \<Rightarrow> nat" where
  "varint_len n = (let q = bit_length n div 7 in if bit_length n mod 7 > 0 \<or> q = 0 then q + 1 else q)"

lemma length_varint_bytes: "length (varint_bytes n) = varint_len n"
proof (induction n rule: varint_bytes.induct)
  case (1 n)
  show ?case
  proof (cases "n < 128")
    case True
    then have "bit_length n \<le> 7" by (simp add: bit_length_le)
    then have "bit_length n = 7 \<or> bit_length n < 7" by auto
    then show ?thesis using True by (auto simp: varint_bytes_small varint_len_def Let_def)
  next
    case False
    then have "bit_length n = bit_length (n div 128) + 7"
      using bit_length_div [of 7 n] by simp
    moreover have "0 < bit_length (n div 128)" using False by (intro bit_length_pos) simp
    moreover have "(m + 7) div 7 = Suc (m div 7)" "(m + 7) mod 7 = m mod 7" for m :: nat
      by simp_all
    moreover have "m div 7 = 0 \<Longrightarrow> 0 < m \<Longrightarrow> 0 < m mod 7" for m :: nat
      by (simp add: div_eq_0_iff)
    ultimately show ?thesis
      using 1 [OF False] False by (auto simp: varint_bytes_large varint_len_def Let_def)
  qed
qed

lemma UvarintSize_length: "UvarintSize num = length (varint_bytes (unat num))"
  by (simp add: UvarintSize_def length_varint_bytes varint_len_def Let_def)

lemma length_varint_bound: "length (varint_bytes n) \<le> Suc k \<longleftrightarrow> n < 2 ^ (7 * Suc k)"
proof (induction n arbitrary: k rule: varint_bytes.induct)
  case (1 n)
  show ?case
  proof (cases "n < 128")
    case True
    have "(128 :: nat) \<le> 2 ^ (7 * Suc k)" using power_increasing [of 7 "7 * Suc k" "2 :: nat"] by simp
    then show ?thesis using True by (simp add: varint_bytes_small)
  next
    case False
    show ?thesis
    proof (cases k)
      case 0
      then show ?thesis using False by (simp add: varint_bytes_large)
    next
      case (Suc k')
      have "n < 2 ^ (7 * Suc k) \<longleftrightarrow> n div 128 < 2 ^ (7 * k)"
        by (simp add: div_less_iff_less_mult power_add mult.commute)
      then show ?thesis using 1 [OF False, of k'] False Suc by (simp add: varint_bytes_large)
    qed
  qed
qed

section \<open>The encoder writes the encoding\<close>

text \<open>Putting a number above the low bits of a word adds it.\<close>

lemma or_push_bit:
  fixes x w :: "'a::len word"
  assumes "unat x < 2 ^ s"
  shows "x OR push_bit s w = x + push_bit s w"
proof -
  have x: "take_bit s x = x"
    using assms by (intro word_unat_eq_iff [THEN iffD2]) (simp add: unsigned_take_bit_eq take_bit_nat_eq_self)
  have "take_bit s x AND push_bit s w = 0"
    by (rule bit_word_eqI) (auto simp: bit_simps)
  then show ?thesis using x by (simp add: disjunctive_add_eq_or)
qed

lemma unat_push_bit:
  fixes w :: "'a::len word"
  assumes "2 ^ s * unat w < 2 ^ LENGTH('a)"
  shows "unat (push_bit s w) = 2 ^ s * unat w"
  unfolding unsigned_push_bit_eq using assms by (simp add: push_bit_eq_mult take_bit_nat_eq_self mult.commute)

lemma or_continuation: "(w :: byte) OR 0x80 = of_nat (unat w mod 128 + 128)"
proof -
  have "w OR 0x80 = take_bit 7 w OR push_bit 7 1"
    by (rule bit_word_eqI) (auto simp: bit_simps less_Suc_eq numeral_eq_Suc)
  also have "\<dots> = take_bit 7 w + push_bit 7 1"
    by (rule or_push_bit) (unfold unsigned_take_bit_eq, simp add: take_bit_eq_mod)
  also have "\<dots> = of_nat (unat w mod 128 + 128)"
    by (rule word_unat_eq_iff [THEN iffD2]) (simp add: unat_word_ariths unsigned_take_bit_eq unsigned_of_nat take_bit_eq_mod)
  finally show ?thesis .
qed

lemma unat_ucast_byte: "unat (ucast (x :: 64 word) :: byte) = unat x mod 256"
  by (simp add: unsigned_ucast_eq take_bit_eq_mod)

lemma put_loop_bytes:
  "i + length (varint_bytes (unat x)) \<le> length buf \<Longrightarrow>
   put_loop buf i x = Some (take i buf @ varint_bytes (unat x) @ drop (i + length (varint_bytes (unat x))) buf,
     i + length (varint_bytes (unat x)))"
proof (induction buf i x rule: put_loop.induct)
  case (1 buf i x)
  have i: "i < length buf" using 1(2) by (cases "varint_bytes (unat x)") auto
  show ?case
  proof (cases "x \<ge> 0x80")
    case True
    then have l: "128 \<le> unat x" by (simp add: word_le_nat_alt)
    define b where "b = (ucast x OR 0x80 :: byte)"
    have b: "b = of_nat (unat x mod 128 + 128)"
      unfolding b_def or_continuation unat_ucast_byte by (simp add: mod_mod_cancel)
    have d: "unat (drop_bit 7 x) = unat x div 128" by (simp add: drop_bit_eq_div unat_div)
    have v: "varint_bytes (unat x) = b # varint_bytes (unat (drop_bit 7 x))"
      unfolding b d using l by (rule varint_bytes_large)
    have "put_loop buf i x = put_loop (buf[i := b]) (i + 1) (drop_bit 7 x)"
      using i True b_def by (subst put_loop.simps) simp
    also have "\<dots> = Some (take (i + 1) (buf[i := b]) @ varint_bytes (unat (drop_bit 7 x)) @
        drop (i + 1 + length (varint_bytes (unat (drop_bit 7 x)))) (buf[i := b]),
        i + 1 + length (varint_bytes (unat (drop_bit 7 x))))"
      unfolding b_def by (rule 1(1)) (use i True 1(2) v in auto)
    finally show ?thesis using i by (simp add: v take_Suc_conv_app_nth)
  next
    case False
    then have "unat x < 128" by (simp add: word_le_nat_alt)
    moreover have "ucast x = (of_nat (unat x) :: byte)" by simp
    ultimately show ?thesis using i False
      by (subst put_loop.simps) (simp add: varint_bytes_small upd_conv_take_nth_drop)
  qed
qed

lemma ToUvarint_bytes: "ToUvarint num = Some (varint_bytes (unat num))"
  using put_loop_bytes [of 0 num "replicate (UvarintSize num) 0"]
  by (simp add: ToUvarint_def PutUvarint_def UvarintSize_length)
section \<open>The decoder\<close>

lemma unat_low_bits: "unat ((b :: byte) AND 0x7f) = unat b mod 128"
proof -
  have "b AND 0x7f = take_bit 7 b" by (simp add: take_bit_eq_mask mask_eq_exp_minus_1)
  then show ?thesis by (simp add: take_bit_eq_mod unat_mod)
qed

lemma unat_byte: "unat (b :: byte) < 256"
proof -
  have "unat b < 2 ^ LENGTH(8)" by (rule unsigned_less)
  then show ?thesis by simp
qed

lemma unat_numeral_byte: "unat (0x80 :: byte) = 128"
  by simp

lemma unat_ucast_wide: "unat (ucast (b :: byte) :: 64 word) = unat b"
  using unat_byte [of b] by (simp add: unsigned_ucast_eq take_bit_nat_eq_self_iff)

lemma accumulate:
  fixes x :: "64 word"
  assumes "unat x < 2 ^ s" "unat b < 128" "s + 7 \<le> 64"
  shows "unat (x OR push_bit s (ucast (b :: byte))) = unat x + 2 ^ s * unat b"
    and "unat (x OR push_bit s (ucast b)) < 2 ^ (s + 7)"
proof -
  have "2 ^ s * unat b \<le> 2 ^ s * 127" using assms(2) by simp
  then have "unat x + 2 ^ s * unat b < 2 ^ s + 2 ^ s * 127" by (rule add_less_le_mono [OF assms(1)])
  then have lt: "unat x + 2 ^ s * unat b < 2 ^ (s + 7)" by (simp add: power_add)
  also have "\<dots> \<le> 2 ^ 64" using assms(3) by (rule power_increasing) simp
  finally have b: "unat x + 2 ^ s * unat b < 2 ^ 64" .
  then have p: "unat (push_bit s (ucast b :: 64 word)) = 2 ^ s * unat b"
    using unat_push_bit [of s "ucast b :: 64 word"] by (simp add: unat_ucast_wide)
  show e: "unat (x OR push_bit s (ucast b)) = unat x + 2 ^ s * unat b"
    unfolding or_push_bit [OF assms(1)] using b by (simp add: unat_word_ariths p)
  show "unat (x OR push_bit s (ucast b)) < 2 ^ (s + 7)" unfolding e by (rule lt)
qed

lemma continuation_iff: "(n :: nat) < 256 \<Longrightarrow> n = r mod 128 + 128 \<longleftrightarrow> \<not> n < 128 \<and> n mod 128 = r mod 128"
  by (cases "n < 128") (auto simp: le_mod_geq not_less)

lemma split_128: "r < 128 \<Longrightarrow> (k :: nat) = r + 128 * k' \<longleftrightarrow> r = k mod 128 \<and> k' = k div 128"
  by auto

lemma varint_bytes_Cons:
  "b # buf = varint_bytes k @ rest \<longleftrightarrow>
    (if b < 0x80 then k = unat b \<and> buf = rest
     else \<exists>k'. 0 < k' \<and> k = unat b mod 128 + 128 * k' \<and> buf = varint_bytes k' @ rest)"
proof (cases "k < 128")
  case True
  then have "unat (of_nat k :: byte) = k" by (simp add: unsigned_of_nat take_bit_nat_eq_self)
  then show ?thesis using True
    by (auto simp: varint_bytes_small word_less_nat_alt)
next
  case False
  let ?c = "of_nat (k mod 128 + 128) :: byte"
  have c: "unat ?c = k mod 128 + 128" by (subst unsigned_of_nat) (simp add: take_bit_nat_eq_self)
  have m: "unat b < 256" by (rule unat_byte)
  have *: "b = ?c \<longleftrightarrow> \<not> b < 0x80 \<and> unat b mod 128 = k mod 128"
    unfolding word_unat_eq_iff c word_less_nat_alt unat_numeral_byte by (rule continuation_iff [OF m])
  have d: "k = unat b mod 128 + 128 * k' \<longleftrightarrow> unat b mod 128 = k mod 128 \<and> k' = k div 128" for k'
    by (rule split_128) simp
  have "0 < k div 128" using False by simp
  then show ?thesis unfolding varint_bytes_large [OF False [unfolded not_less]] d using * False
    by (auto simp: word_less_nat_alt)
qed

lemma from_loop_iff:
  "i \<le> 8 \<Longrightarrow> unat x < 2 ^ (7 * i) \<Longrightarrow>
   from_loop i x (7 * i) buf = Inr (y, n) \<longleftrightarrow>
     (\<exists>k rest. buf = varint_bytes k @ rest \<and> n = i + length (varint_bytes k) \<and> n \<le> 9
        \<and> (i = 0 \<or> 0 < k) \<and> unat y = unat x + 2 ^ (7 * i) * k)"
proof (induction buf arbitrary: i x)
  case Nil
  then show ?case by simp
next
  case (Cons b buf)
  show ?case
  proof (cases "b < 0x80")
    case True
    then have b: "unat b < 128" by (simp add: word_less_nat_alt)
    have z: "b = 0 \<longleftrightarrow> unat b = 0" by (simp add: unat_eq_0)
    define w where "w = x OR push_bit (7 * i) (ucast b)"
    have w: "w = y \<longleftrightarrow> unat y = unat x + 2 ^ (7 * i) * unat b"
      using accumulate(1) [OF Cons.prems(2) b] Cons.prems(1) by (auto simp: word_unat_eq_iff w_def)
    have "from_loop i x (7 * i) (b # buf) =
        (if b = 0 \<and> 0 < i then Inl ErrNotMinimal else Inr (w, i + 1))"
      using True Cons.prems(1) by (simp add: MaxLenUvarint63_def w_def) (metis leD)
    then show ?thesis using True b Cons.prems(1) unfolding varint_bytes_Cons
      by (auto simp: z w varint_bytes_small not_le)
  next
    case False
    let ?b = "b AND 0x7f"
    let ?x = "x OR push_bit (7 * i) (ucast ?b)"
    have b: "unat ?b < 128" by (simp add: unat_low_bits)
    have i: "7 * i + 7 \<le> 64" using Cons.prems(1) by simp
    let ?k = "\<lambda>k'. unat b mod 128 + 128 * k'"
    have len: "0 < k' \<Longrightarrow> length (varint_bytes (?k k')) = Suc (length (varint_bytes k'))" for k'
      by (simp add: varint_bytes_large)
    note acc = accumulate [OF Cons.prems(2) b i]
    show ?thesis
    proof (cases "i = 8")
      case True
      have "\<not> 8 + length (varint_bytes (?k k')) \<le> 9" if "0 < k'" for k'
        using len [OF that] by (simp add: not_le)
      moreover have "from_loop i x (7 * i) (b # buf) = Inl ErrOverflow"
        using False True by (simp add: not_less)
      ultimately show ?thesis unfolding varint_bytes_Cons if_not_P [OF False] True by auto
    next
      case i8: False
      have "from_loop i x (7 * i) (b # buf) = from_loop (i + 1) ?x (7 * (i + 1)) buf"
        using False i8 Cons.prems(1) by (simp add: MaxLenUvarint63_def algebra_simps)
      moreover have "unat ?x < 2 ^ (7 * (i + 1))" using acc(2) by (simp add: algebra_simps)
      ultimately have lhs: "from_loop i x (7 * i) (b # buf) = Inr (y, n) \<longleftrightarrow>
          (\<exists>k' rest. buf = varint_bytes k' @ rest \<and> n = i + 1 + length (varint_bytes k') \<and> n \<le> 9
            \<and> 0 < k' \<and> unat y = unat ?x + 2 ^ (7 * (i + 1)) * k')"
        using Cons.IH [of "i + 1" ?x] i8 Cons.prems(1) by simp
      have val: "unat x + 2 ^ (7 * i) * ?k k' = unat ?x + 2 ^ (7 * (i + 1)) * k'" for k'
        unfolding acc(1) unat_low_bits by (simp add: algebra_simps power_add)
      have pos: "0 < k' \<Longrightarrow> 0 < ?k k'" for k' by simp
      show ?thesis unfolding lhs varint_bytes_Cons if_not_P [OF False]
      proof (intro iffI; elim exE conjE)
        fix k' rest
        assume "buf = varint_bytes k' @ rest" "n = i + 1 + length (varint_bytes k')" "n \<le> 9" "0 < k'"
          "unat y = unat ?x + 2 ^ (7 * (i + 1)) * k'"
        then show "\<exists>k rest. (\<exists>k'>0. k = ?k k' \<and> buf = varint_bytes k' @ rest) \<and> n = i + length (varint_bytes k)
            \<and> n \<le> 9 \<and> (i = 0 \<or> 0 < k) \<and> unat y = unat x + 2 ^ (7 * i) * k"
          by (rule_tac exI [of _ "?k k'"], rule_tac exI [of _ rest]) (simp add: len val pos)
      next
        fix k rest k'
        assume "n = i + length (varint_bytes k)" "n \<le> 9" "unat y = unat x + 2 ^ (7 * i) * k"
          "0 < k'" "k = ?k k'" "buf = varint_bytes k' @ rest"
        then show "\<exists>k' rest. buf = varint_bytes k' @ rest \<and> n = i + 1 + length (varint_bytes k') \<and> n \<le> 9
            \<and> 0 < k' \<and> unat y = unat ?x + 2 ^ (7 * (i + 1)) * k'"
          by (intro exI [of _ k'] exI [of _ rest] conjI) (assumption | simp add: len | simp only: val)+
      qed
    qed
  qed
qed
lemma from_loop_error:
  "i \<le> 8 \<Longrightarrow> from_loop i x s buf = Inl e \<longleftrightarrow>
    (let c = length (takeWhile ((\<le>) 0x80) buf) in
     if 9 \<le> i + c then e = ErrOverflow
     else if c = length buf then e = ErrUnderflow
     else e = ErrNotMinimal \<and> buf ! c = 0 \<and> (0 < s \<or> 0 < c))"
proof (induction buf arbitrary: i x s)
  case Nil
  then show ?case by auto
next
  case (Cons b buf)
  show ?case
  proof (cases "0x80 \<le> b")
    case True
    then have b: "\<not> b < 0x80" by (simp add: not_less)
    then show ?thesis using Cons.IH [of "i + 1" "x OR push_bit s (ucast (b AND 0x7f))" "s + 7"] Cons.prems True
      by (cases "i = 8") (auto simp: MaxLenUvarint63_def Let_def)
  next
    case False
    then have b: "b < 0x80" by (simp add: not_le)
    then show ?thesis using Cons.prems False by (auto simp: MaxLenUvarint63_def Let_def)
  qed
qed

lemma from_loop_count: "from_loop i x s buf = Inr (y, n) \<Longrightarrow> i < n"
  by (induction i x s buf rule: from_loop.induct) (auto dest: Suc_lessD split: if_splits)

lemma read_loop_slice:
  "from_loop i x (7 * i) buf = Inr (y, n) \<Longrightarrow>
     read_loop slice_reader buf x (7 * i) = (Inr y, drop (n - i) buf)"
proof (induction buf arbitrary: i x)
  case Nil
  then show ?case by simp
next
  case (Cons b buf)
  have s: "7 * i + 7 = 7 * Suc i" by simp
  let ?x = "x OR push_bit (7 * i) (ucast (b AND 0x7f))"
  have u: "7 * i = 56 \<longleftrightarrow> i = 8" "7 * 9 \<le> 7 * i \<longleftrightarrow> 9 \<le> i" by auto
  have "from_loop (Suc i) ?x (7 * Suc i) buf = Inr (y, n) \<Longrightarrow> drop (n - Suc i) buf = drop (n - i) (b # buf)"
    using from_loop_count [of "Suc i"] by (metis Suc_diff_Suc Suc_lessD drop_Suc_Cons)
  then show ?case using Cons.IH [of "Suc i" ?x] Cons.prems
    by (subst read_loop.simps) (auto simp: MaxLenUvarint63_def s u simp del: mult_Suc_right split: if_splits)
qed

lemma read_loop_slice_error:
  "from_loop i x (7 * i) buf = Inl e \<Longrightarrow>
     fst (read_loop slice_reader buf x (7 * i)) =
       Inl (if e = ErrUnderflow then Inl (if buf = [] \<and> i = 0 then EOF else ErrUnexpectedEOF) else Inr e)"
proof (induction buf arbitrary: i x)
  case Nil
  then show ?case by (subst read_loop.simps) auto
next
  case (Cons b buf)
  have s: "7 * i + 7 = 7 * Suc i" by simp
  have u: "7 * i = 56 \<longleftrightarrow> i = 8" "7 * 9 \<le> 7 * i \<longleftrightarrow> 9 \<le> i" by auto
  show ?case using Cons.IH [of "Suc i" "x OR push_bit (7 * i) (ucast (b AND 0x7f))"] Cons.prems
    by (subst read_loop.simps) (auto simp: MaxLenUvarint63_def s u simp del: mult_Suc_right split: if_splits)
qed

lemma read_loop_calls:
  "s = 7 * i \<Longrightarrow> i \<le> 8 \<Longrightarrow>
   \<exists>n. 1 \<le> n \<and> i + n \<le> 9 \<and> snd (read_loop rd r x s) = ((\<lambda>r. snd (rd r)) ^^ n) r"
proof (induction rd r x s arbitrary: i rule: read_loop.induct)
  case (1 rd r x s)
  obtain q r' where r': "rd r = (q, r')" by (cases "rd r")
  have one: ?case if "snd (read_loop rd r x s) = r'"
    using that r' 1(3) by (intro exI [of _ 1]) simp
  show ?case
  proof (cases "\<exists>b. q = Inr b \<and> \<not> (s = 56 \<and> b \<ge> 0x80 \<or> s \<ge> 7 * MaxLenUvarint63) \<and> \<not> b < 0x80")
    case True
    then obtain b where b: "q = Inr b" "\<not> (s = 56 \<and> b \<ge> 0x80 \<or> s \<ge> 7 * MaxLenUvarint63)" "\<not> b < 0x80"
      by auto
    then have "s \<noteq> 56" by auto
    then have i: "s + 7 = 7 * (i + 1)" "i + 1 \<le> 8" using 1(2,3) by auto
    obtain n where "1 \<le> n" "i + 1 + n \<le> 9"
      "snd (read_loop rd r' (x OR push_bit s (ucast (b AND 0x7f))) (s + 7)) = ((\<lambda>r. snd (rd r)) ^^ n) r'"
      using 1(1) [OF r' [unfolded b(1), symmetric] refl b(2,3) i] by auto
    then show ?thesis using b r' \<open>s \<noteq> 56\<close>
      by (intro exI [of _ "Suc n"]) (simp add: read_loop.simps [of rd r] funpow_Suc_right del: funpow.simps(2))
  next
    case False
    then show ?thesis using r' by (intro one) (auto simp: read_loop.simps [of rd r] split: sum.splits)
  qed
qed

section \<open>Properties\<close>

lemma MaxValue_bound: "x \<le> MaxValueUvarint63 \<longleftrightarrow> unat x < 2 ^ 63"
  by (auto simp: MaxValueUvarint63_def word_le_nat_alt)

lemma FromUvarint_bytes:
  "FromUvarint buf = Inr (x, n) \<longleftrightarrow>
     (\<exists>rest. buf = varint_bytes (unat x) @ rest) \<and> n = length (varint_bytes (unat x)) \<and> unat x < 2 ^ 63"
  using from_loop_iff [of 0 0 buf x n] length_varint_bound [of "unat x" 8] unfolding FromUvarint_def by auto

text \<open>C23: Decoding is exact: \<open>FromUvarint\<close> returns a value and a length for exactly the buffers that
  start with the encoding \<open>ToUvarint\<close> gives for that value, and the value is at most \<open>MaxValueUvarint63\<close>.\<close>

theorem varint_decode_exact:
  "FromUvarint buf = Inr (x, n) \<longleftrightarrow>
     x \<le> MaxValueUvarint63 \<and> n = UvarintSize x \<and> n \<le> length buf \<and> ToUvarint x = Some (take n buf)"
proof -
  have "(\<exists>rest. buf = bs @ rest) \<longleftrightarrow> length bs \<le> length buf \<and> bs = take (length bs) buf" for bs :: "byte list"
    by (metis append_eq_conv_conj append_take_drop_id length_append le_add1)
  then show ?thesis
    unfolding FromUvarint_bytes MaxValue_bound ToUvarint_bytes UvarintSize_length by auto
qed

text \<open>C24: Which error a refused buffer gives: nine continuation bytes are an overflow, a buffer of only
  continuation bytes is an underflow, and a last byte 0 after others is not minimal.\<close>

theorem varint_errors:
  "FromUvarint buf = Inl e \<longleftrightarrow>
    (let c = length (takeWhile ((\<le>) 0x80) buf) in
     if 9 \<le> c then e = ErrOverflow
     else if c = length buf then e = ErrUnderflow
     else e = ErrNotMinimal \<and> buf ! c = 0 \<and> 0 < c)"
  unfolding FromUvarint_def using from_loop_error [of 0 0 0 buf e] by simp

text \<open>C25: Reading from a reader of a slice agrees with decoding the slice: the same value, leaving
  the bytes after it unread, and the same error, where the end of the slice is the error of the reader.\<close>

theorem ReadUvarint_agrees:
  "case FromUvarint buf of
     Inr (x, n) \<Rightarrow> ReadUvarint slice_reader buf = (Inr x, drop n buf)
   | Inl e \<Rightarrow> fst (ReadUvarint slice_reader buf) =
       Inl (if e = ErrUnderflow then Inl (if buf = [] then EOF else ErrUnexpectedEOF) else Inr e)"
  unfolding FromUvarint_def ReadUvarint_def
  using read_loop_slice [of 0 0 buf] read_loop_slice_error [of 0 0 buf]
  by (auto split: sum.splits)

text \<open>C26: The loop of \<open>ReadUvarint\<close>, which has no condition, ends on every reader, even an endless one,
  after at most nine calls of \<open>ReadByte\<close>.\<close>

theorem ReadUvarint_bounded:
  "\<exists>n. 1 \<le> n \<and> n \<le> MaxLenUvarint63 \<and>
     snd (ReadUvarint ReadByte r) = ((\<lambda>r. snd (ReadByte r)) ^^ n) r"
  unfolding ReadUvarint_def MaxLenUvarint63_def using read_loop_calls [of 0 0 ReadByte r 0] by simp

end
