(* ===== verification/Multiaddr.thy ===== *)
theory Multiaddr
  imports Varint
begin

text \<open>
  Multiaddrs (multiformats/multiaddr): the registry of protocols (protocol.go), the binary and the
  textual form (codec.go, varint.go), components (component.go), and the operations that take
  addresses apart and put them together (multiaddr.go, util.go).  A Go string is its list of
  bytes, as characters.  A result \<open>None\<close> is a panic.  The registry, a pair of global maps in the
  code, is an argument.  An address is an encoded byte string or a single component, as the two
  implementations of the interface.
\<close>

section \<open>Strings as bytes\<close>

definition byte_of_char :: "char \<Rightarrow> byte" where
  "byte_of_char c = of_nat (of_char c)"

definition char_of_byte :: "byte \<Rightarrow> char" where
  "char_of_byte b = char_of (unat b)"

definition str_bytes :: "string \<Rightarrow> byte list" where
  "str_bytes s = map byte_of_char s"

definition bytes_str :: "byte list \<Rightarrow> string" where
  "bytes_str b = map char_of_byte b"

text \<open>strings.TrimRight, strings.Split and strings.Join with a single character.\<close>

definition TrimRight :: "string \<Rightarrow> char \<Rightarrow> string" where
  "TrimRight s c = rev (dropWhile ((=) c) (rev s))"

fun split_on :: "char \<Rightarrow> string \<Rightarrow> string list" where
  "split_on c [] = [[]]"
| "split_on c (x # xs) =
    (if x = c then [] # split_on c xs
     else case split_on c xs of [] \<Rightarrow> [[x]] | w # ws \<Rightarrow> (x # w) # ws)"

fun join_with :: "char \<Rightarrow> string list \<Rightarrow> string" where
  "join_with c [] = []"
| "join_with c [w] = w"
| "join_with c (w # ws) = w @ c # join_with c ws"

section \<open>Protocols (protocol.go)\<close>

type_synonym value_error = string

record Transcoder =
  StringToBytes :: "string \<Rightarrow> value_error + byte list"
  BytesToString :: "byte list \<Rightarrow> value_error + string"
  ValidateBytes :: "byte list \<Rightarrow> value_error option"

record Protocol =
  pName :: string
  pCode :: int
  pVCode :: "byte list"
  pSize :: int
  pPath :: bool
  pTranscoder :: "Transcoder option"

definition LengthPrefixedVarSize :: int where
  "LengthPrefixedVarSize = - 1"

text \<open>The zero value that a map lookup gives for a missing key.\<close>

definition zero_protocol :: Protocol where
  "zero_protocol = \<lparr>pName = [], pCode = 0, pVCode = [], pSize = 0, pPath = False, pTranscoder = None\<rparr>"

record registry =
  protocolsByName :: "string \<rightharpoonup> Protocol"
  protocolsByCode :: "int \<rightharpoonup> Protocol"
  allProtocols :: "Protocol list"

definition empty_registry :: registry where
  "empty_registry = \<lparr>protocolsByName = Map.empty, protocolsByCode = Map.empty, allProtocols = []\<rparr>"

datatype protocol_error = NameExists string | CodeTaken int | NoTranscoder | PathNeedsVarSize

definition AddProtocol :: "registry \<Rightarrow> Protocol \<Rightarrow> protocol_error + registry" where
  "AddProtocol r p =
    (if protocolsByName r (pName p) \<noteq> None then Inl (NameExists (pName p))
     else if protocolsByCode r (pCode p) \<noteq> None then Inl (CodeTaken (pCode p))
     else if pSize p \<noteq> 0 \<and> pTranscoder p = None then Inl NoTranscoder
     else if pPath p \<and> pSize p \<ge> 0 then Inl PathNeedsVarSize
     else Inr (r\<lparr>allProtocols := allProtocols r @ [p],
        protocolsByName := (protocolsByName r)(pName p \<mapsto> p),
        protocolsByCode := (protocolsByCode r)(pCode p \<mapsto> p)\<rparr>))"

definition ProtocolWithName :: "registry \<Rightarrow> string \<Rightarrow> Protocol" where
  "ProtocolWithName r s = (case protocolsByName r s of None \<Rightarrow> zero_protocol | Some p \<Rightarrow> p)"

definition ProtocolWithCode :: "registry \<Rightarrow> int \<Rightarrow> Protocol" where
  "ProtocolWithCode r c = (case protocolsByCode r c of None \<Rightarrow> zero_protocol | Some p \<Rightarrow> p)"

section \<open>The codec (varint.go, codec.go)\<close>

datatype maddr_error =
    VarintError varint_error
  | MustBeginWithSlash
  | EmptyMultiaddr
  | UnknownProtocol string
  | UnexpectedEnd
  | InvalidValue string value_error
  | NoProtocolWithCode int
  | InvalidSize int
  | InvalidPathSize int
  | ValueError value_error
  | ProtocolNotFound
  | Recovered

definition MaxInt32 :: int where
  "MaxInt32 = 2147483647"

definition CodeToVarint :: "int \<Rightarrow> byte list option" where
  "CodeToVarint num = (if num < 0 \<or> num > MaxInt32 then None else ToUvarint (of_int num))"

definition ReadVarintCode :: "byte list \<Rightarrow> varint_error + int \<times> nat" where
  "ReadVarintCode b =
    (case FromUvarint b of
       Inl err \<Rightarrow> Inl err
     | Inr (code, n) \<Rightarrow> if uint code > MaxInt32 then Inl ErrOverflow else Inr (uint code, n))"

definition sizeForAddr :: "Protocol \<Rightarrow> byte list \<Rightarrow> varint_error + nat \<times> int" where
  "sizeForAddr p b =
    (if pSize p > 0 then Inr (0, pSize p div 8)
     else if pSize p = 0 then Inr (0, 0)
     else case ReadVarintCode b of Inl err \<Rightarrow> Inl err | Inr (sz, n) \<Rightarrow> Inr (n, sz))"

record Component =
  cBytes :: "byte list"
  cProtocol :: Protocol
  cOffset :: nat

definition readComponent :: "registry \<Rightarrow> byte list \<Rightarrow> maddr_error + nat \<times> Component" where
  "readComponent r b =
    (case ReadVarintCode b of
       Inl err \<Rightarrow> Inl (VarintError err)
     | Inr (code, n) \<Rightarrow>
       let p = ProtocolWithCode r code in
       if pCode p = 0 then Inl (NoProtocolWithCode code)
       else if pSize p = 0 then Inr (n, \<lparr>cBytes = take n b, cProtocol = p, cOffset = n\<rparr>)
       else case sizeForAddr p (drop n b) of
         Inl err \<Rightarrow> Inl (VarintError err)
       | Inr (m, sz) \<Rightarrow>
         let offset = n + m in
         if int (length (drop offset b)) < sz \<or> sz < 0
         then Inl (InvalidSize (int (length (drop offset b))))
         else Inr (offset + nat sz,
           \<lparr>cBytes = take (offset + nat sz) b, cProtocol = p, cOffset = offset\<rparr>))"

lemma ReadVarintCode_iff:
  "ReadVarintCode b = Inr (c, n) \<longleftrightarrow>
     0 \<le> c \<and> c \<le> MaxInt32 \<and> (\<exists>rest. b = varint_bytes (nat c) @ rest) \<and> n = length (varint_bytes (nat c))"
proof
  assume "ReadVarintCode b = Inr (c, n)"
  then obtain x where x: "FromUvarint b = Inr (x, n)" "\<not> uint x > MaxInt32" "c = uint x"
    by (auto simp: ReadVarintCode_def split: sum.splits if_splits)
  then show "0 \<le> c \<and> c \<le> MaxInt32 \<and> (\<exists>rest. b = varint_bytes (nat c) @ rest) \<and> n = length (varint_bytes (nat c))"
    unfolding FromUvarint_bytes by simp
next
  assume a: "0 \<le> c \<and> c \<le> MaxInt32 \<and> (\<exists>rest. b = varint_bytes (nat c) @ rest) \<and> n = length (varint_bytes (nat c))"
  then have c: "0 \<le> c" "c < 2 ^ 63" by (auto simp: MaxInt32_def)
  then have "c < 2 ^ LENGTH(64)" by simp
  then have u: "uint (of_int c :: 64 word) = c"
    unfolding unsigned_of_int using c(1) by (simp add: take_bit_int_eq_self)
  then have v: "unat (of_int c :: 64 word) = nat c" by (simp only: unat_eq_nat_uint)
  have "nat c < 2 ^ 63" using c by (simp add: nat_less_iff)
  then have "FromUvarint b = Inr (of_int c, n)"
    using a unfolding FromUvarint_bytes v by blast
  then show "ReadVarintCode b = Inr (c, n)"
    using a u by (simp add: ReadVarintCode_def)
qed

lemma ReadVarintCode_count: "ReadVarintCode b = Inr (c, n) \<Longrightarrow> 0 < n \<and> n \<le> length b"
  unfolding ReadVarintCode_iff by auto

lemma sizeForAddr_count: "sizeForAddr p b = Inr (m, sz) \<Longrightarrow> m \<le> length b"
  by (auto simp: sizeForAddr_def dest: ReadVarintCode_count split: if_splits sum.splits)

lemma readComponent_count: "readComponent r b = Inr (n, c) \<Longrightarrow> 0 < n \<and> n \<le> length b"
proof -
  assume a: "readComponent r b = Inr (n, c)"
  then obtain code k where k: "ReadVarintCode b = Inr (code, k)"
    by (auto simp: readComponent_def split: sum.splits)
  note ReadVarintCode_count [OF k]
  then show ?thesis using a k
    by (auto simp: readComponent_def Let_def dest!: sizeForAddr_count split: if_splits sum.splits)
qed

function validate_loop :: "registry \<Rightarrow> byte list \<Rightarrow> (maddr_error + unit) option" where
  "validate_loop r b =
    (if b = [] then Some (Inr ())
     else case ReadVarintCode b of
       Inl err \<Rightarrow> Some (Inl (VarintError err))
     | Inr (code, n) \<Rightarrow>
       let b = drop n b; p = ProtocolWithCode r code in
       if pCode p = 0 then Some (Inl (NoProtocolWithCode code))
       else if pSize p = 0 then validate_loop r b
       else case sizeForAddr p b of
         Inl err \<Rightarrow> Some (Inl (VarintError err))
       | Inr (m, sz) \<Rightarrow>
         let b = drop m b in
         if int (length b) < sz \<or> sz < 0 then Some (Inl (InvalidSize (int (length b))))
         else if pPath p \<and> int (length b) \<noteq> sz then Some (Inl (InvalidPathSize sz))
         else case pTranscoder p of
           None \<Rightarrow> None
         | Some t \<Rightarrow>
           (case ValidateBytes t (take (nat sz) b) of
              Some err \<Rightarrow> Some (Inl (ValueError err))
            | None \<Rightarrow> validate_loop r (drop (nat sz) b)))"
  by pat_completeness auto
termination
  by (relation "measure (\<lambda>(r, b). length b)") (auto dest!: ReadVarintCode_count)

declare validate_loop.simps [simp del]

definition validateBytes :: "registry \<Rightarrow> byte list \<Rightarrow> (maddr_error + unit) option" where
  "validateBytes r b = (if b = [] then Some (Inl EmptyMultiaddr) else validate_loop r b)"

function string_loop :: "registry \<Rightarrow> byte list \<Rightarrow> string list \<Rightarrow> (maddr_error + byte list) option" where
  "string_loop r b sp =
    (case sp of
       [] \<Rightarrow> Some (Inr b)
     | name # sp \<Rightarrow>
       let p = ProtocolWithName r name in
       if pCode p = 0 then Some (Inl (UnknownProtocol name))
       else if pSize p = 0 then string_loop r (b @ pVCode p) sp
       else if sp = [] then Some (Inl UnexpectedEnd)
       else
         let sp = (if pPath p then [CHR ''/'' # join_with CHR ''/'' sp] else sp) in
         case pTranscoder p of
           None \<Rightarrow> None
         | Some t \<Rightarrow>
           (case StringToBytes t (hd sp) of
              Inl err \<Rightarrow> Some (Inl (InvalidValue (pName p) err))
            | Inr a \<Rightarrow>
              if pSize p < 0 then
                (case ToUvarint (of_nat (length a)) of
                   None \<Rightarrow> None
                 | Some l \<Rightarrow> string_loop r (b @ pVCode p @ l @ a) (tl sp))
              else string_loop r (b @ pVCode p @ a) (tl sp)))"
  by pat_completeness auto
termination
  by (relation "measure (\<lambda>(r, b, sp). length sp)") (auto split: if_splits)

declare string_loop.simps [simp del]

definition stringToBytes :: "registry \<Rightarrow> string \<Rightarrow> (maddr_error + byte list) option" where
  "stringToBytes r s =
    (let s = TrimRight s CHR ''/''; sp = split_on CHR ''/'' s in
     if hd sp \<noteq> [] then Some (Inl MustBeginWithSlash)
     else if tl sp = [] then Some (Inl EmptyMultiaddr)
     else string_loop r [] (tl sp))"

section \<open>Components (component.go)\<close>

definition RawValue :: "Component \<Rightarrow> byte list" where
  "RawValue c = drop (cOffset c) (cBytes c)"

definition cValue :: "Component \<Rightarrow> string option" where
  "cValue c =
    (case pTranscoder (cProtocol c) of
       None \<Rightarrow> Some []
     | Some t \<Rightarrow> (case BytesToString t (drop (cOffset c) (cBytes c)) of Inl err \<Rightarrow> None | Inr v \<Rightarrow> Some v))"

definition writeTo :: "Component \<Rightarrow> string option" where
  "writeTo c =
    (case cValue c of
       None \<Rightarrow> None
     | Some value \<Rightarrow>
       let s = CHR ''/'' # pName (cProtocol c) in
       if value = [] then Some s
       else Some (s @ (if \<not> (pPath (cProtocol c) \<and> hd value = CHR ''/'') then ''/'' else []) @ value))"

definition newComponent :: "Protocol \<Rightarrow> byte list \<Rightarrow> Component option" where
  "newComponent protocol bvalue =
    (let sz = length bvalue + length (pVCode protocol)
           + (if pSize protocol < 0 then UvarintSize (of_nat (length bvalue)) else 0) in
     case (if pSize protocol < 0
           then map_option (\<lambda>(buf, n). take n buf)
             (PutUvarint (replicate (sz - length (pVCode protocol)) 0) (of_nat (length bvalue)))
           else Some []) of
       None \<Rightarrow> None
     | Some prefix \<Rightarrow>
       let offset = length (pVCode protocol) + length prefix in
       if sz \<noteq> offset + length bvalue then None
       else Some \<lparr>cBytes = pVCode protocol @ prefix @ bvalue, cProtocol = protocol, cOffset = offset\<rparr>)"

datatype component_error = UnsupportedProtocol string | ComponentValue value_error | TakesNoValue string

definition NewComponent :: "registry \<Rightarrow> string \<Rightarrow> string \<Rightarrow> (component_error + Component) option" where
  "NewComponent r protocol value =
    (let p = ProtocolWithName r protocol in
     if pCode p = 0 then Some (Inl (UnsupportedProtocol protocol))
     else case pTranscoder p of
       Some t \<Rightarrow>
         (case StringToBytes t value of
            Inl err \<Rightarrow> Some (Inl (ComponentValue err))
          | Inr bts \<Rightarrow> map_option Inr (newComponent p bts))
     | None \<Rightarrow>
         if value \<noteq> [] then Some (Inl (TakesNoValue (pName p)))
         else map_option Inr (newComponent p []))"

function text_loop :: "registry \<Rightarrow> string \<Rightarrow> byte list \<Rightarrow> (maddr_error + string) option" where
  "text_loop r buf b =
    (if b = [] then Some (Inr buf)
     else case readComponent r b of
       Inl err \<Rightarrow> Some (Inl err)
     | Inr (n, c) \<Rightarrow>
       (case writeTo c of
          None \<Rightarrow> None
        | Some s \<Rightarrow> text_loop r (buf @ s) (drop n b)))"
  by pat_completeness auto
termination
  by (relation "measure (\<lambda>(r, buf, b). length b)") (auto dest!: readComponent_count)

declare text_loop.simps [simp del]

definition bytesToString :: "registry \<Rightarrow> byte list \<Rightarrow> (maddr_error + string) option" where
  "bytesToString r b = (if b = [] then Some (Inl EmptyMultiaddr) else text_loop r [] b)"

section \<open>Addresses (multiaddr.go, util.go)\<close>

text \<open>A nil address is \<open>None\<close>.\<close>

datatype Multiaddr = MA "byte list" | MC Component

fun mBytes :: "Multiaddr \<Rightarrow> byte list" where
  "mBytes (MA b) = b"
| "mBytes (MC c) = cBytes c"

definition NewMultiaddr :: "registry \<Rightarrow> string \<Rightarrow> maddr_error + Multiaddr" where
  "NewMultiaddr r s =
    (case stringToBytes r s of
       None \<Rightarrow> Inl Recovered
     | Some (Inl err) \<Rightarrow> Inl err
     | Some (Inr b) \<Rightarrow> Inr (MA b))"

definition NewMultiaddrBytes :: "registry \<Rightarrow> byte list \<Rightarrow> maddr_error + Multiaddr" where
  "NewMultiaddrBytes r b =
    (case validateBytes r b of
       None \<Rightarrow> Inl Recovered
     | Some (Inl err) \<Rightarrow> Inl err
     | Some (Inr _) \<Rightarrow> Inr (MA b))"

definition mString :: "registry \<Rightarrow> Multiaddr \<Rightarrow> string option" where
  "mString r m =
    (case m of
       MA b \<Rightarrow> (case bytesToString r b of Some (Inr s) \<Rightarrow> Some s | _ \<Rightarrow> None)
     | MC c \<Rightarrow> writeTo c)"

definition mEqual :: "Multiaddr \<Rightarrow> Multiaddr option \<Rightarrow> bool" where
  "mEqual m m2 = (case m2 of None \<Rightarrow> False | Some m2 \<Rightarrow> mBytes m = mBytes m2)"

text \<open>The callback of \<open>ForEach\<close> changes the variables it captures, and may panic.\<close>

function for_loop ::
  "registry \<Rightarrow> ('s \<Rightarrow> Component \<Rightarrow> (bool \<times> 's) option) \<Rightarrow> 's \<Rightarrow> byte list \<Rightarrow> 's option" where
  "for_loop r cb st b =
    (if b = [] then Some st
     else case readComponent r b of
       Inl err \<Rightarrow> None
     | Inr (n, c) \<Rightarrow>
       (case cb st c of
          None \<Rightarrow> None
        | Some (continue, st') \<Rightarrow> if \<not> continue then Some st' else for_loop r cb st' (drop n b)))"
  by pat_completeness auto
termination
  by (relation "measure (\<lambda>(r, cb, st, b). length b)") (auto dest!: readComponent_count)

declare for_loop.simps [simp del]

definition ForEach ::
  "registry \<Rightarrow> Multiaddr option \<Rightarrow> ('s \<Rightarrow> Component \<Rightarrow> (bool \<times> 's) option) \<Rightarrow> 's \<Rightarrow> 's option" where
  "ForEach r m cb st =
    (case m of
       None \<Rightarrow> Some st
     | Some (MC c) \<Rightarrow> map_option snd (cb st c)
     | Some (MA b) \<Rightarrow> for_loop r cb st b)"

definition SplitAddr :: "registry \<Rightarrow> Multiaddr \<Rightarrow> Multiaddr list option" where
  "SplitAddr r m =
    (case m of
       MC c \<Rightarrow> Some [MC c]
     | MA b \<Rightarrow> ForEach r (Some m) (\<lambda>addrs c. Some (True, addrs @ [MC c])) [])"

definition JoinAddrs :: "Multiaddr option list \<Rightarrow> Multiaddr option" where
  "JoinAddrs ms =
    (case ms of
       [] \<Rightarrow> Some (MA [])
     | [m] \<Rightarrow> m
     | _ \<Rightarrow>
       let b = concat (map (\<lambda>m. case m of None \<Rightarrow> [] | Some m \<Rightarrow> mBytes m) ms) in
       if b = [] then None else Some (MA b))"

definition SplitFirst :: "registry \<Rightarrow> Multiaddr option \<Rightarrow> (Component option \<times> Multiaddr option) option" where
  "SplitFirst r m =
    (case m of
       None \<Rightarrow> Some (None, None)
     | Some (MC c) \<Rightarrow> Some (Some c, None)
     | Some (MA b) \<Rightarrow>
       if b = [] then Some (None, None)
       else case readComponent r b of
         Inl err \<Rightarrow> None
       | Inr (n, c) \<Rightarrow> if length b = n then Some (Some c, None) else Some (Some c, Some (MA (drop n b))))"

function last_loop :: "registry \<Rightarrow> byte list \<Rightarrow> nat \<Rightarrow> (nat \<times> Component) option" where
  "last_loop r b offset =
    (case readComponent r (drop offset b) of
       Inl err \<Rightarrow> None
     | Inr (n, c) \<Rightarrow>
       if length b = n + offset then Some (offset, c) else last_loop r b (offset + n))"
  by pat_completeness auto
termination
  by (relation "measure (\<lambda>(r, b, offset). length b - offset)") (auto dest!: readComponent_count)

declare last_loop.simps [simp del]

definition SplitLast :: "registry \<Rightarrow> Multiaddr option \<Rightarrow> (Multiaddr option \<times> Component option) option" where
  "SplitLast r m =
    (case m of
       None \<Rightarrow> Some (None, None)
     | Some (MC c) \<Rightarrow> Some (None, Some c)
     | Some (MA b) \<Rightarrow>
       if b = [] then Some (None, None)
       else case last_loop r b 0 of
         None \<Rightarrow> None
       | Some (offset, c) \<Rightarrow>
           if offset = 0 then Some (None, Some c) else Some (Some (MA (take offset b)), Some c))"

function split_loop :: "registry \<Rightarrow> (Component \<Rightarrow> bool) \<Rightarrow> byte list \<Rightarrow> nat \<Rightarrow> nat option" where
  "split_loop r cb b offset =
    (if offset < length b then
       case readComponent r (drop offset b) of
         Inl err \<Rightarrow> None
       | Inr (n, c) \<Rightarrow> if cb c then Some offset else split_loop r cb b (offset + n)
     else Some offset)"
  by pat_completeness auto
termination
  by (relation "measure (\<lambda>(r, cb, b, offset). length b - offset)") (auto dest!: readComponent_count)

declare split_loop.simps [simp del]

definition SplitFunc ::
  "registry \<Rightarrow> Multiaddr option \<Rightarrow> (Component \<Rightarrow> bool) \<Rightarrow> (Multiaddr option \<times> Multiaddr option) option" where
  "SplitFunc r m cb =
    (case m of
       None \<Rightarrow> Some (None, None)
     | Some (MC c) \<Rightarrow> if cb c then Some (None, m) else Some (m, None)
     | Some (MA b) \<Rightarrow>
       if b = [] then Some (None, None)
       else case split_loop r cb b 0 of
         None \<Rightarrow> None
       | Some offset \<Rightarrow>
           if offset = 0 then Some (None, m)
           else if offset = length b then Some (m, None)
           else Some (Some (MA (take offset b)), Some (MA (drop offset b))))"

function protocols_loop :: "registry \<Rightarrow> Protocol list \<Rightarrow> byte list \<Rightarrow> Protocol list option" where
  "protocols_loop r ps b =
    (if b = [] then Some ps
     else case ReadVarintCode b of
       Inl err \<Rightarrow> None
     | Inr (code, n) \<Rightarrow>
       let p = ProtocolWithCode r code in
       if pCode p = 0 then None
       else case sizeForAddr p (drop n b) of
         Inl err \<Rightarrow> None
       | Inr (m, sz) \<Rightarrow>
           if int (length (drop n b)) < int m + sz \<or> sz < 0 then None
           else protocols_loop r (ps @ [p]) (drop (m + nat sz) (drop n b)))"
  by pat_completeness auto
termination
  by (relation "measure (\<lambda>(r, ps, b). length b)") (auto dest!: ReadVarintCode_count)

declare protocols_loop.simps [simp del]

definition mProtocols :: "registry \<Rightarrow> Multiaddr \<Rightarrow> Protocol list option" where
  "mProtocols r m = (case m of MC c \<Rightarrow> Some [cProtocol c] | MA b \<Rightarrow> protocols_loop r [] b)"

definition Encapsulate :: "Multiaddr \<Rightarrow> Multiaddr option \<Rightarrow> Multiaddr" where
  "Encapsulate m o' = (case o' of None \<Rightarrow> MA (mBytes m) | Some o' \<Rightarrow> MA (mBytes m @ mBytes o'))"

fun match_loop :: "Multiaddr list \<Rightarrow> nat \<Rightarrow> bool \<Rightarrow> Multiaddr list \<Rightarrow> bool" where
  "match_loop leftParts k foundMatch [] = foundMatch"
| "match_loop leftParts k foundMatch (rightC # rightParts) =
    (if length leftParts \<le> k then False
     else if \<not> mEqual rightC (Some (leftParts ! k)) then False
     else match_loop leftParts (k + 1) True rightParts)"

definition lastIndex :: "Multiaddr list \<Rightarrow> Multiaddr list \<Rightarrow> int" where
  "lastIndex leftParts rightParts =
    foldl (\<lambda>last i. if match_loop leftParts i False rightParts then int i else last) (- 1)
      [0..<length leftParts]"

definition Decapsulate :: "registry \<Rightarrow> Multiaddr \<Rightarrow> Multiaddr option \<Rightarrow> Multiaddr option option" where
  "Decapsulate r m right =
    (case m of
       MC c \<Rightarrow> if mEqual m right then Some None else Some (Some m)
     | MA b \<Rightarrow>
       (case right of
          None \<Rightarrow> Some (Some m)
        | Some right \<Rightarrow>
          (case (SplitAddr r m, SplitAddr r right) of
             (Some leftParts, Some rightParts) \<Rightarrow>
               let i = lastIndex leftParts rightParts in
               if i = 0 then Some None
               else if i < 0 then Some (Some (MA b))
               else Some (JoinAddrs (map Some (take (nat i) leftParts)))
           | _ \<Rightarrow> None)))"

definition ValueForProtocol :: "registry \<Rightarrow> Multiaddr \<Rightarrow> int \<Rightarrow> (maddr_error + string) option" where
  "ValueForProtocol r m code =
    (case m of
       MC c \<Rightarrow>
         if pCode (cProtocol c) \<noteq> code then Some (Inl ProtocolNotFound) else map_option Inr (cValue c)
     | MA b \<Rightarrow>
         ForEach r (Some m)
           (\<lambda>res c. if pCode (cProtocol c) = code
             then map_option (\<lambda>v. (False, Inr v)) (cValue c) else Some (True, res))
           (Inl ProtocolNotFound))"

text \<open>A filter may append to variables it captures: it maps their value to a verdict and the value
  after, or panics.\<close>

fun run_filters ::
  "('s \<Rightarrow> Multiaddr \<Rightarrow> (bool \<times> 's) option) list \<Rightarrow> 's \<Rightarrow> Multiaddr \<Rightarrow> (bool \<times> 's) option" where
  "run_filters [] st a = Some (True, st)"
| "run_filters (f # fs) st a =
    (case f st a of
       None \<Rightarrow> None
     | Some (keep, st') \<Rightarrow> if \<not> keep then Some (False, st') else run_filters fs st' a)"

fun FilterAddrs ::
  "('s \<Rightarrow> Multiaddr \<Rightarrow> (bool \<times> 's) option) list \<Rightarrow> 's \<Rightarrow> Multiaddr list \<Rightarrow> (Multiaddr list \<times> 's) option" where
  "FilterAddrs filters st [] = Some ([], st)"
| "FilterAddrs filters st (a # as) =
    do { (keep, st') \<leftarrow> run_filters filters st a;
         (b, st'') \<leftarrow> FilterAddrs filters st' as;
         Some (if keep then a # b else b, st'') }"

definition ContainsAddr :: "Multiaddr list \<Rightarrow> Multiaddr \<Rightarrow> bool" where
  "ContainsAddr addrs addr = list_ex (\<lambda>a. mEqual addr (Some a)) addrs"

end
