(* ===== verification/Multiaddr_Codec.thy ===== *)
theory Multiaddr_Codec
  imports Multiaddr
begin

text \<open>
  What the multiaddr codec guarantees.  In a well-formed registry a valid byte string is a sequence
  of components, each the code of a protocol, a length where the protocol needs one, and a value its
  transcoder accepts.  The operations on addresses are described on that sequence.  Where the
  transcoders translate values faithfully, so do the binary and the textual form of addresses.
\<close>

section \<open>Well-formed protocols and registries\<close>

definition wf_protocol :: "Protocol \<Rightarrow> bool" where
  "wf_protocol p \<longleftrightarrow> 0 < pCode p \<and> CodeToVarint (pCode p) = Some (pVCode p)
     \<and> pName p \<noteq> [] \<and> CHR ''/'' \<notin> set (pName p)
     \<and> (pSize p = 0 \<longleftrightarrow> pTranscoder p = None) \<and> (pPath p \<longrightarrow> pSize p < 0)"

definition wf_registry :: "registry \<Rightarrow> bool" where
  "wf_registry r \<longleftrightarrow>
     (\<forall>c p. protocolsByCode r c = Some p \<longrightarrow>
        pCode p = c \<and> wf_protocol p \<and> protocolsByName r (pName p) = Some p)
     \<and> (\<forall>s p. protocolsByName r s = Some p \<longrightarrow> protocolsByCode r (pCode p) = Some p)"

lemma CodeToVarint_bytes:
  "CodeToVarint c = Some b \<longleftrightarrow> 0 \<le> c \<and> c \<le> MaxInt32 \<and> b = varint_bytes (nat c)"
proof -
  have "unat (of_int c :: 64 word) = nat c" if c: "0 \<le> c" "c \<le> MaxInt32"
  proof -
    have "c < 2 ^ LENGTH(64)" using c by (simp add: MaxInt32_def)
    then have "uint (of_int c :: 64 word) = c"
      unfolding unsigned_of_int using c(1) by (simp add: take_bit_int_eq_self)
    then show ?thesis by (simp only: unat_eq_nat_uint)
  qed
  then show ?thesis by (auto simp: CodeToVarint_def ToUvarint_bytes)
qed

lemma wf_registryD:
  assumes "wf_registry r" "protocolsByCode r c = Some p"
  shows "pCode p = c" "wf_protocol p" "protocolsByName r (pName p) = Some p"
    "ProtocolWithCode r c = p" "ProtocolWithName r (pName p) = p" "pCode p \<noteq> 0"
    "pVCode p = varint_bytes (nat c)" "0 \<le> c" "c \<le> MaxInt32"
proof -
  show 1: "pCode p = c" "wf_protocol p" "protocolsByName r (pName p) = Some p"
    using assms by (auto simp: wf_registry_def)
  then show "pCode p \<noteq> 0" "pVCode p = varint_bytes (nat c)" "0 \<le> c" "c \<le> MaxInt32"
    by (auto simp: wf_protocol_def CodeToVarint_bytes)
  show "ProtocolWithCode r c = p" "ProtocolWithName r (pName p) = p"
    using assms(2) 1(3) by (simp_all add: ProtocolWithCode_def ProtocolWithName_def)
qed

lemma empty_wf: "wf_registry empty_registry"
  by (simp add: wf_registry_def empty_registry_def)

lemma AddProtocol_wf:
  assumes "wf_registry r" "AddProtocol r p = Inr r'" "0 < pCode p" "CodeToVarint (pCode p) = Some (pVCode p)"
    "pName p \<noteq> []" "CHR ''/'' \<notin> set (pName p)" "pSize p = 0 \<Longrightarrow> pTranscoder p = None"
  shows "wf_registry r'"
proof -
  have p: "wf_protocol p" using assms(2-7) by (auto simp: wf_protocol_def AddProtocol_def split: if_splits)
  have r': "r' = r\<lparr>allProtocols := allProtocols r @ [p],
      protocolsByName := (protocolsByName r)(pName p \<mapsto> p),
      protocolsByCode := (protocolsByCode r)(pCode p \<mapsto> p)\<rparr>"
    and new: "protocolsByName r (pName p) = None" "protocolsByCode r (pCode p) = None"
    using assms(2) by (auto simp: AddProtocol_def split: if_splits)
  have "pName q \<noteq> pName p" if "protocolsByCode r c = Some q" for c q
    using wf_registryD(3) [OF assms(1) that] new(1) by auto
  moreover have "pCode q \<noteq> pCode p" if "protocolsByName r s = Some q" for s q
    using assms(1) that new(2) unfolding wf_registry_def by fastforce
  ultimately show ?thesis using assms(1) p unfolding r' by (auto simp: wf_registry_def)
qed

section \<open>The bytes of a component\<close>

definition len_prefix :: "Protocol \<Rightarrow> byte list \<Rightarrow> byte list" where
  "len_prefix p v = (if pSize p < 0 then varint_bytes (length v) else [])"

definition comp_bytes :: "Protocol \<Rightarrow> byte list \<Rightarrow> byte list" where
  "comp_bytes p v = pVCode p @ len_prefix p v @ v"

definition mk_comp :: "Protocol \<Rightarrow> byte list \<Rightarrow> Component" where
  "mk_comp p v = \<lparr>cBytes = comp_bytes p v, cProtocol = p, cOffset = length (pVCode p @ len_prefix p v)\<rparr>"

definition len_ok :: "int \<Rightarrow> byte list \<Rightarrow> bool" where
  "len_ok sz v \<longleftrightarrow> (if sz < 0 then int (length v) \<le> MaxInt32 else int (length v) = sz div 8)"

lemma mk_comp_simps [simp]:
  "cBytes (mk_comp p v) = comp_bytes p v" "cProtocol (mk_comp p v) = p"
  "drop (cOffset (mk_comp p v)) (comp_bytes p v) = v" "RawValue (mk_comp p v) = v"
  by (simp_all add: mk_comp_def comp_bytes_def RawValue_def)

lemma newComponent_mk:
  assumes "length v < 2 ^ 64"
  shows "newComponent p v = Some (mk_comp p v)"
proof -
  have u: "unat (of_nat (length v) :: 64 word) = length v"
    using assms by (simp add: unsigned_of_nat take_bit_nat_eq_self)
  have "PutUvarint (replicate (length v + length (varint_bytes (length v))) 0) (of_nat (length v)) =
      Some (varint_bytes (length v) @ replicate (length v) 0, length (varint_bytes (length v)))"
    unfolding PutUvarint_def
    using put_loop_bytes [of 0 "of_nat (length v)" "replicate (length v + length (varint_bytes (length v))) 0"]
    by (simp add: u)
  then show ?thesis
    by (simp add: newComponent_def Let_def UvarintSize_length u mk_comp_def comp_bytes_def len_prefix_def
        add.commute add.left_commute)
qed

lemma sizeForAddr_mk:
  assumes v: "len_ok (pSize p) v" and p: "pSize p \<noteq> 0"
  shows "sizeForAddr p (len_prefix p v @ v @ rest) = Inr (length (len_prefix p v), int (length v))"
proof (cases "pSize p < 0")
  case True
  then have "ReadVarintCode (len_prefix p v @ v @ rest) = Inr (int (length v), length (len_prefix p v))"
    unfolding ReadVarintCode_iff len_prefix_def using v by (auto simp: len_ok_def)
  then show ?thesis using True by (simp add: sizeForAddr_def)
next
  case n: False
  then show ?thesis using p v by (simp add: sizeForAddr_def len_prefix_def len_ok_def)
qed

lemma readComponent_mk:
  assumes r: "wf_registry r" "protocolsByCode r (pCode p) = Some p" and v: "len_ok (pSize p) v"
  shows "readComponent r (comp_bytes p v @ rest) = Inr (length (comp_bytes p v), mk_comp p v)"
proof -
  note p = wf_registryD [OF r]
  have 1: "ReadVarintCode (comp_bytes p v @ rest) = Inr (pCode p, length (pVCode p))"
    unfolding ReadVarintCode_iff comp_bytes_def p(7) using p(8,9) by auto
  have d: "drop (length (pVCode p)) (comp_bytes p v @ rest) = len_prefix p v @ v @ rest"
    by (simp add: comp_bytes_def)
  show ?thesis
  proof (cases "pSize p = 0")
    case True
    then have "v = []" "len_prefix p v = []" using v by (auto simp: len_ok_def len_prefix_def)
    then show ?thesis using True 1 p(4,6) by (simp add: readComponent_def comp_bytes_def mk_comp_def)
  next
    case False
    then show ?thesis using sizeForAddr_mk [OF v, of rest] 1 p(4,6) d
      by (simp add: readComponent_def Let_def mk_comp_def comp_bytes_def)
  qed
qed

lemma readComponent_ok:
  assumes r: "wf_registry r" and b: "readComponent r b = Inr (n, c)"
  shows "\<exists>p v rest. b = comp_bytes p v @ rest \<and> c = mk_comp p v \<and> n = length (comp_bytes p v)
    \<and> protocolsByCode r (pCode p) = Some p \<and> len_ok (pSize p) v"
proof -
  obtain code k where k: "ReadVarintCode b = Inr (code, k)"
    using b by (auto simp: readComponent_def split: sum.splits)
  define p where "p = ProtocolWithCode r code"
  have c0: "pCode p \<noteq> 0" using b k by (auto simp: readComponent_def p_def Let_def split: if_splits)
  then have pc: "protocolsByCode r code = Some p"
    by (auto simp: p_def ProtocolWithCode_def zero_protocol_def split: option.splits)
  note p = wf_registryD [OF r pc]
  obtain b' where b': "b = pVCode p @ b'" "k = length (pVCode p)"
    using k unfolding ReadVarintCode_iff p(7) by auto
  have "\<exists>v rest. b' = len_prefix p v @ v @ rest \<and> c = mk_comp p v \<and> n = length (comp_bytes p v) \<and> len_ok (pSize p) v"
  proof (cases "pSize p = 0")
    case True
    then have "b' = len_prefix p [] @ [] @ b' \<and> c = mk_comp p [] \<and> n = length (comp_bytes p []) \<and> len_ok (pSize p) []"
      using b k b' c0 p(4) by (auto simp: readComponent_def len_prefix_def mk_comp_def comp_bytes_def len_ok_def)
    then show ?thesis by blast
  next
    case False
    then obtain m sz where m: "sizeForAddr p b' = Inr (m, sz)" "\<not> int (length (drop m b')) < sz" "\<not> sz < 0"
      "n = k + m + nat sz" "c = \<lparr>cBytes = take n b, cProtocol = p, cOffset = k + m\<rparr>"
      using b k b' c0 p(4) by (auto simp: readComponent_def Let_def split: sum.splits if_splits)
    define v where "v = take (nat sz) (drop m b')"
    have lv: "int (length v) = sz" using m(2,3) by (auto simp: v_def)
    have "m = length (len_prefix p v) \<and> take m b' = len_prefix p v \<and> len_ok (pSize p) v"
    proof (cases "pSize p < 0")
      case True
      then have "ReadVarintCode b' = Inr (sz, m)"
        using m(1) by (auto simp: sizeForAddr_def split: sum.splits)
      then show ?thesis using True lv unfolding ReadVarintCode_iff by (auto simp: len_prefix_def len_ok_def)
    next
      case pos: False
      then show ?thesis using False m(1) lv by (auto simp: sizeForAddr_def len_prefix_def len_ok_def)
    qed
    moreover have "b' = take m b' @ v @ drop (nat sz) (drop m b')"
      unfolding v_def append_take_drop_id ..
    ultimately have "b' = len_prefix p v @ v @ drop (nat sz) (drop m b')" "m = length (len_prefix p v)" "len_ok (pSize p) v"
      by auto
    moreover have "n = length (comp_bytes p v)" using lv m(4) b'(2) calculation(2) by (simp add: comp_bytes_def)
    moreover have "take n b = comp_bytes p v"
      using calculation(1,4) b'(1) by (metis append.assoc append_eq_conv_conj comp_bytes_def)
    ultimately show ?thesis using m(5) b'(2) by (auto simp: mk_comp_def)
  qed
  then show ?thesis using b' pc p(1) by (auto simp: comp_bytes_def)
qed

section \<open>Valid bytes are sequences of components\<close>

definition items_bytes :: "(Protocol \<times> byte list) list \<Rightarrow> byte list" where
  "items_bytes cs = concat (map (\<lambda>(p, v). comp_bytes p v) cs)"

definition parts :: "(Protocol \<times> byte list) list \<Rightarrow> Component list" where
  "parts cs = map (\<lambda>(p, v). mk_comp p v) cs"

definition known :: "registry \<Rightarrow> Protocol \<times> byte list \<Rightarrow> bool" where
  "known r = (\<lambda>(p, v). protocolsByCode r (pCode p) = Some p \<and> len_ok (pSize p) v)"

fun valid_items :: "registry \<Rightarrow> (Protocol \<times> byte list) list \<Rightarrow> bool" where
  "valid_items r [] \<longleftrightarrow> True"
| "valid_items r ((p, v) # cs) \<longleftrightarrow> known r (p, v)
     \<and> (\<forall>t. pTranscoder p = Some t \<longrightarrow> ValidateBytes t v = None) \<and> (pPath p \<longrightarrow> cs = []) \<and> valid_items r cs"

lemma items_bytes_simps [simp]:
  "items_bytes [] = []" "items_bytes ((p, v) # cs) = comp_bytes p v @ items_bytes cs"
  "items_bytes (cs @ ds) = items_bytes cs @ items_bytes ds"
  by (simp_all add: items_bytes_def)

lemma parts_simps [simp]:
  "parts [] = []" "parts ((p, v) # cs) = mk_comp p v # parts cs" "parts (cs @ ds) = parts cs @ parts ds"
  "length (parts cs) = length cs"
  by (simp_all add: parts_def)

lemma known_simp [simp]: "known r (p, v) \<longleftrightarrow> protocolsByCode r (pCode p) = Some p \<and> len_ok (pSize p) v"
  by (simp add: known_def)

lemma valid_known: "valid_items r cs \<Longrightarrow> list_all (known r) cs"
  by (induction r cs rule: valid_items.induct) auto

lemma comp_bytes_nonempty:
  "wf_registry r \<Longrightarrow> protocolsByCode r (pCode p) = Some p \<Longrightarrow> comp_bytes p v \<noteq> []"
  using wf_registryD(7) by (simp add: comp_bytes_def)

lemma items_bytes_empty:
  "wf_registry r \<Longrightarrow> list_all (known r) cs \<Longrightarrow> items_bytes cs = [] \<longleftrightarrow> cs = []"
  by (cases cs) (auto dest: comp_bytes_nonempty)

lemma validate_step:
  assumes r: "wf_registry r" "protocolsByCode r (pCode p) = Some p" and v: "len_ok (pSize p) v"
  shows "validate_loop r (comp_bytes p v @ rest) =
    (case pTranscoder p of
       None \<Rightarrow> validate_loop r rest
     | Some t \<Rightarrow>
       if pPath p \<and> rest \<noteq> [] then Some (Inl (InvalidPathSize (int (length v))))
       else case ValidateBytes t v of Some e \<Rightarrow> Some (Inl (ValueError e)) | None \<Rightarrow> validate_loop r rest)"
proof -
  note p = wf_registryD [OF r]
  have 1: "ReadVarintCode (comp_bytes p v @ rest) = Inr (pCode p, length (pVCode p))"
    unfolding ReadVarintCode_iff comp_bytes_def p(7) using p(8,9) by auto
  have d: "drop (length (pVCode p)) (comp_bytes p v @ rest) = len_prefix p v @ v @ rest"
    by (simp add: comp_bytes_def)
  note s = sizeForAddr_mk [OF v, of rest]
  have z: "pSize p = 0 \<longleftrightarrow> pTranscoder p = None" using p(2) by (simp add: wf_protocol_def)
  have z0: "pSize p = 0 \<Longrightarrow> len_prefix p v @ v @ rest = rest" using v by (auto simp: len_ok_def len_prefix_def)
  have ne: "comp_bytes p v @ rest \<noteq> []" using comp_bytes_nonempty [OF r] by simp
  show ?thesis
    unfolding validate_loop.simps [of r "comp_bytes p v @ rest"]
    using 1 d s z z0 ne p(4,6) by (auto simp: Let_def split: option.splits)
qed

lemma validate_fail:
  assumes b: "b \<noteq> []" and e: "readComponent r b = Inl e"
  shows "validate_loop r b = Some (Inl e)"
proof (cases "ReadVarintCode b")
  case (Inl err)
  then show ?thesis using b e by (subst validate_loop.simps) (simp add: readComponent_def)
next
  case (Inr a)
  then obtain code n where n: "ReadVarintCode b = Inr (code, n)" by (cases a) auto
  let ?p = "ProtocolWithCode r code"
  show ?thesis
  proof (cases "pCode ?p = 0 \<or> pSize ?p = 0")
    case True
    then show ?thesis using b e n
      by (subst validate_loop.simps) (auto simp: readComponent_def Let_def split: if_splits)
  next
    case False
    then show ?thesis
    proof (cases "sizeForAddr ?p (drop n b)")
      case (Inl err)
      then show ?thesis using False b e n by (subst validate_loop.simps) (simp add: readComponent_def Let_def)
    next
      case (Inr a)
      then show ?thesis using False b e n
        by (subst validate_loop.simps, cases a) (auto simp: readComponent_def Let_def add.commute split: if_splits)
    qed
  qed
qed

lemma validate_loop_iff:
  assumes r: "wf_registry r"
  shows "validate_loop r b = Some (Inr ()) \<longleftrightarrow> (\<exists>cs. b = items_bytes cs \<and> valid_items r cs)"
proof (induction b rule: length_induct)
  case (1 b)
  show ?case
  proof (cases "b = []")
    case True
    then show ?thesis by (auto simp: validate_loop.simps [of r "[]"] intro: exI [of _ "[]"])
  next
    case ne: False
    show ?thesis
    proof (cases "readComponent r b")
      case (Inl e)
      have False if cs: "b = items_bytes cs" "valid_items r cs" for cs
        using that ne Inl by (cases cs) (auto simp: readComponent_mk [OF r])
      then show ?thesis using validate_fail [OF ne Inl] by auto
    next
      case (Inr a)
      then obtain p v rest where b: "b = comp_bytes p v @ rest"
        and k: "protocolsByCode r (pCode p) = Some p" "len_ok (pSize p) v"
        using readComponent_ok [OF r] by (metis surj_pair)
      have IH: "validate_loop r rest = Some (Inr ()) \<longleftrightarrow> (\<exists>cs. rest = items_bytes cs \<and> valid_items r cs)"
        using 1 b comp_bytes_nonempty [OF r k(1)] by auto
      have hd: "cs = (p, v) # tl cs \<and> rest = items_bytes (tl cs)" if cs: "b = items_bytes cs" "valid_items r cs" for cs
      proof -
        obtain q w ds where q: "cs = (q, w) # ds" using cs ne by (cases cs) auto
        have "readComponent r b = Inr (length (comp_bytes q w), mk_comp q w)"
          unfolding cs(1) q using cs(2) q by (simp add: readComponent_mk [OF r])
        then have m: "mk_comp q w = mk_comp p v" using readComponent_mk [OF r k, of rest] b by simp
        then have "q = p" "w = v" by (metis mk_comp_simps(2)) (metis m mk_comp_simps(4))
        then show ?thesis using b cs(1) q by simp
      qed
      have "(\<exists>cs. b = items_bytes cs \<and> valid_items r cs) \<longleftrightarrow>
          (\<exists>ds. rest = items_bytes ds \<and> valid_items r ((p, v) # ds))"
        using hd b by (metis items_bytes_simps(2))
      moreover have "pTranscoder p = None \<Longrightarrow> \<not> pPath p"
        using wf_registryD(2) [OF r k(1)] by (auto simp: wf_protocol_def)
      moreover have "valid_items r ds \<Longrightarrow> items_bytes ds = [] \<longleftrightarrow> ds = []" for ds
        using items_bytes_empty [OF r] valid_known by blast
      ultimately show ?thesis unfolding b validate_step [OF r k] using IH k
        by (cases "pTranscoder p") (auto split: option.splits)
    qed
  qed
qed

section \<open>Walking over the components\<close>

fun walk :: "('s \<Rightarrow> Component \<Rightarrow> (bool \<times> 's) option) \<Rightarrow> 's \<Rightarrow> Component list \<Rightarrow> 's option" where
  "walk cb st [] = Some st"
| "walk cb st (c # cs) =
    (case cb st c of
       None \<Rightarrow> None
     | Some (continue, st') \<Rightarrow> if \<not> continue then Some st' else walk cb st' cs)"

lemma for_loop_walk:
  assumes "wf_registry r" "list_all (known r) cs"
  shows "for_loop r cb st (items_bytes cs) = walk cb st (parts cs)"
  using assms(2)
proof (induction cs arbitrary: st)
  case Nil
  then show ?case by (simp add: for_loop.simps [of r cb st "[]"])
next
  case (Cons a cs)
  obtain p v where a: "a = (p, v)" by (cases a)
  then have "readComponent r (items_bytes (a # cs)) = Inr (length (comp_bytes p v), mk_comp p v)"
    using readComponent_mk [OF assms(1), of p v "items_bytes cs"] Cons.prems by simp
  moreover have "items_bytes (a # cs) \<noteq> []" using items_bytes_empty [OF assms(1) Cons.prems] by simp
  ultimately show ?case using Cons.IH Cons.prems a
    by (subst for_loop.simps) (auto split: option.splits)
qed

lemma walk_collect: "walk (\<lambda>acc c. Some (True, acc @ [f c])) acc cs = Some (acc @ map f cs)"
  by (induction cs arbitrary: acc) auto

lemma SplitAddr_parts:
  "wf_registry r \<Longrightarrow> list_all (known r) cs \<Longrightarrow>
    SplitAddr r (MA (items_bytes cs)) = Some (map MC (parts cs))"
  by (simp add: SplitAddr_def ForEach_def for_loop_walk walk_collect)

lemma concat_parts: "concat (map mBytes (map MC (parts cs))) = items_bytes cs"
  by (induction cs) auto

lemma JoinAddrs_parts:
  assumes "wf_registry r" "list_all (known r) cs"
  shows "\<exists>m. JoinAddrs (map Some (map MC (parts cs))) = Some m \<and> mBytes m = items_bytes cs"
proof (cases "map Some (map MC (parts cs))" rule: list.exhaust)
  case Nil
  then have "cs = []" by (cases cs) auto
  then show ?thesis by (simp add: JoinAddrs_def)
next
  case (Cons m ms)
  then obtain p v ds where cs: "cs = (p, v) # ds" by (cases cs) auto
  have b: "concat (map (\<lambda>m. case m of None \<Rightarrow> [] | Some m \<Rightarrow> mBytes m) (map Some (map MC (parts cs)))) = items_bytes cs"
    using concat_parts [of cs] by (simp add: comp_def)
  have ne: "items_bytes cs \<noteq> []" using items_bytes_empty [OF assms] cs by simp
  show ?thesis
  proof (cases ds)
    case Nil
    then show ?thesis using cs by (simp add: JoinAddrs_def)
  next
    case (Cons d ds')
    obtain q w where d: "d = (q, w)" by (cases d)
    have "JoinAddrs (map Some (map MC (parts cs))) = Some (MA (items_bytes cs))"
      using b ne by (auto simp: JoinAddrs_def cs Cons d Let_def)
    then show ?thesis by simp
  qed
qed

section \<open>Encapsulation\<close>

lemma match_loop_iff:
  "match_loop left k found right \<longleftrightarrow>
     (if right = [] then found
      else k + length right \<le> length left \<and> map mBytes (take (length right) (drop k left)) = map mBytes right)"
proof (induction left k found right rule: match_loop.induct)
  case (2 left k found c right)
  show ?case
  proof (cases "length left \<le> k")
    case False
    then have "drop k left = left ! k # drop (k + 1) left" by (simp add: Cons_nth_drop_Suc)
    then show ?thesis using False 2 by (cases "right = []") (auto simp: mEqual_def)
  qed auto
qed simp

lemma foldl_last:
  "P n \<Longrightarrow> (\<And>i. n < i \<Longrightarrow> i < m \<Longrightarrow> \<not> P i) \<Longrightarrow> n < m \<Longrightarrow>
   foldl (\<lambda>l i. if P i then int i else l) z [0..<m] = int n"
  by (induction m) (auto simp: less_Suc_eq)

lemma lastIndex_append:
  assumes "right \<noteq> []"
  shows "lastIndex (left @ right) right = int (length left)"
  unfolding lastIndex_def
  by (rule foldl_last) (use assms in \<open>auto simp: match_loop_iff\<close>)

lemma drop_items: "drop (length (items_bytes cs)) (items_bytes (cs @ ds)) = items_bytes ds"
  by simp

lemma last_loop_items:
  assumes r: "wf_registry r"
  shows "list_all (known r) (ds @ [(p, v)]) \<Longrightarrow>
    last_loop r (items_bytes (cs @ ds @ [(p, v)])) (length (items_bytes cs)) =
      Some (length (items_bytes (cs @ ds)), mk_comp p v)"
proof (induction ds arbitrary: cs)
  case Nil
  then show ?case using readComponent_mk [OF r, of p v "[]"]
    by (subst last_loop.simps) simp
next
  case (Cons d ds)
  obtain q w where d: "d = (q, w)" by (cases d)
  have rd: "readComponent r (items_bytes (d # ds @ [(p, v)])) = Inr (length (comp_bytes q w), mk_comp q w)"
    using readComponent_mk [OF r, of q w "items_bytes (ds @ [(p, v)])"] Cons.prems d by simp
  have "comp_bytes p v \<noteq> []" using comp_bytes_nonempty [OF r] Cons.prems by simp
  then have "last_loop r (items_bytes (cs @ (d # ds) @ [(p, v)])) (length (items_bytes cs)) =
      last_loop r (items_bytes ((cs @ [d]) @ ds @ [(p, v)])) (length (items_bytes (cs @ [d])))"
    using rd d by (subst last_loop.simps) (simp add: ac_simps)
  then show ?case using Cons.IH [of "cs @ [d]"] Cons.prems by simp
qed

lemma split_loop_items:
  assumes r: "wf_registry r"
  shows "list_all (known r) ds \<Longrightarrow>
    \<exists>n. split_loop r cb (items_bytes (cs @ ds)) (length (items_bytes cs)) = Some n
      \<and> length (items_bytes cs) \<le> n \<and> n \<le> length (items_bytes (cs @ ds))"
proof (induction ds arbitrary: cs)
  case Nil
  then show ?case by (subst split_loop.simps) simp
next
  case (Cons d ds)
  obtain q w where d: "d = (q, w)" by (cases d)
  have rd: "readComponent r (items_bytes (d # ds)) = Inr (length (comp_bytes q w), mk_comp q w)"
    using readComponent_mk [OF r, of q w "items_bytes ds"] Cons.prems d by simp
  have "comp_bytes q w \<noteq> []" using comp_bytes_nonempty [OF r] Cons.prems d by simp
  then have "split_loop r cb (items_bytes (cs @ d # ds)) (length (items_bytes cs)) =
      (if cb (mk_comp q w) then Some (length (items_bytes cs))
       else split_loop r cb (items_bytes ((cs @ [d]) @ ds)) (length (items_bytes (cs @ [d]))))"
    using rd d by (subst split_loop.simps) simp
  then show ?case using Cons.IH [of "cs @ [d]"] Cons.prems d by (auto intro: le_trans)
qed

lemma protocols_loop_items:
  assumes r: "wf_registry r"
  shows "list_all (known r) cs \<Longrightarrow> protocols_loop r ps (items_bytes cs) = Some (ps @ map fst cs)"
proof (induction cs arbitrary: ps)
  case Nil
  then show ?case by (subst protocols_loop.simps) simp
next
  case (Cons c cs)
  obtain p v where c: "c = (p, v)" by (cases c)
  have k: "protocolsByCode r (pCode p) = Some p" "len_ok (pSize p) v" using Cons.prems c by auto
  note p = wf_registryD [OF r k(1)]
  have 1: "ReadVarintCode (comp_bytes p v @ items_bytes cs) = Inr (pCode p, length (pVCode p))"
    unfolding ReadVarintCode_iff comp_bytes_def p(7) using p(8,9) by auto
  have d: "drop (length (pVCode p)) (comp_bytes p v @ items_bytes cs) = len_prefix p v @ v @ items_bytes cs"
    by (simp add: comp_bytes_def)
  have "sizeForAddr p (len_prefix p v @ v @ items_bytes cs) = Inr (length (len_prefix p v), int (length v))"
  proof (cases "pSize p = 0")
    case True
    then show ?thesis using k(2) by (simp add: sizeForAddr_def len_prefix_def len_ok_def)
  qed (simp add: sizeForAddr_mk [OF k(2)])
  then have "protocols_loop r ps (items_bytes (c # cs)) = protocols_loop r (ps @ [p]) (items_bytes cs)"
    using 1 d p(4,6) c comp_bytes_nonempty [OF r k(1)] by (subst protocols_loop.simps) (simp add: Let_def)
  then show ?case using Cons c by simp
qed

section \<open>The textual form\<close>

text \<open>
  What a transcoder promises for a protocol whose size field is \<open>sz\<close>: a valid value has a text
  that is read back as this value and that can stand between slashes (or, for a path protocol, at
  the end), and what it reads from such a text is valid.
\<close>

definition text_ok :: "bool \<Rightarrow> string \<Rightarrow> bool" where
  "text_ok path s \<longleftrightarrow>
    (if path then \<exists>u. s = CHR ''/'' # u \<and> u \<noteq> [] \<and> last u \<noteq> CHR ''/''
     else s \<noteq> [] \<and> CHR ''/'' \<notin> set s)"

locale transcoder =
  fixes sz :: int and path :: bool and t :: Transcoder
  assumes print_parse: "\<And>v. len_ok sz v \<Longrightarrow> ValidateBytes t v = None \<Longrightarrow>
      \<exists>s. BytesToString t v = Inr s \<and> text_ok path s \<and> StringToBytes t s = Inr v"
    and parse_valid: "\<And>s v. StringToBytes t s = Inr v \<Longrightarrow> text_ok path s \<or> \<not> path \<and> s = [] \<Longrightarrow>
      int (length s) \<le> MaxInt32 \<Longrightarrow> len_ok sz v \<and> ValidateBytes t v = None"
begin

lemma parse_print_parse:
  assumes "StringToBytes t s = Inr v" "text_ok path s" "int (length s) \<le> MaxInt32"
  shows "\<exists>s'. BytesToString t v = Inr s' \<and> StringToBytes t s' = Inr v"
  using parse_valid [OF assms(1)] assms(2,3) print_parse by blast

end

definition lawful :: "registry \<Rightarrow> bool" where
  "lawful r \<longleftrightarrow> wf_registry r \<and>
    (\<forall>c p t. protocolsByCode r c = Some p \<longrightarrow> pTranscoder p = Some t \<longrightarrow> transcoder (pSize p) (pPath p) t)"

definition slashes :: "string list \<Rightarrow> string" where
  "slashes ws = concat (map (\<lambda>w. CHR ''/'' # w) ws)"

lemma slashes_simps [simp]:
  "slashes [] = []" "slashes (w # ws) = CHR ''/'' # w @ slashes ws" "slashes (us @ ws) = slashes us @ slashes ws"
  by (simp_all add: slashes_def)

lemma slashes_join: "ws \<noteq> [] \<Longrightarrow> slashes ws = CHR ''/'' # join_with CHR ''/'' ws"
  by (induction "CHR ''/''" ws rule: join_with.induct) auto

lemma split_on_nonempty: "split_on c s \<noteq> []"
  by (induction s) (auto split: list.splits)

lemma split_on_prefix: "c \<notin> set w \<Longrightarrow> split_on c (w @ c # s) = w # split_on c s"
  by (induction w) auto

lemma split_on_word: "c \<notin> set w \<Longrightarrow> split_on c w = [w]"
  by (induction w) auto

lemma split_on_slashes:
  "list_all (\<lambda>w. CHR ''/'' \<notin> set w) ws \<Longrightarrow> CHR ''/'' \<notin> set w \<Longrightarrow> split_on CHR ''/'' (w @ slashes ws) = w # ws"
  by (induction ws arbitrary: w) (auto simp: split_on_prefix split_on_word)

lemma join_split: "join_with c (split_on c s) = s"
proof (induction s)
  case (Cons x s)
  obtain w ws where w: "split_on c s = w # ws" using split_on_nonempty [of c s] by (cases "split_on c s") auto
  then show ?case using Cons by (cases ws) auto
qed simp

lemma split_on_words: "w \<in> set (split_on c s) \<Longrightarrow> c \<notin> set w"
proof (induction s arbitrary: w)
  case (Cons x s)
  then show ?case by (cases "split_on c s") (auto split: if_splits)
qed simp

lemma slashes_split: "slashes (split_on CHR ''/'' s) = CHR ''/'' # s"
  using slashes_join [OF split_on_nonempty, of "CHR ''/''" s] join_split by simp

lemma TrimRight_id: "s = [] \<or> last s \<noteq> c \<Longrightarrow> TrimRight s c = s"
  by (cases s rule: rev_cases) (auto simp: TrimRight_def)

lemma TrimRight_last: "TrimRight s c \<noteq> [] \<Longrightarrow> last (TrimRight s c) \<noteq> c"
  unfolding TrimRight_def by (metis last_rev hd_dropWhile rev_is_Nil_conv)

lemma last_slashes: "ws \<noteq> [] \<Longrightarrow> last ws \<noteq> [] \<Longrightarrow> last (slashes ws) = last (last ws)"
  by (cases ws rule: rev_cases) auto

lemma ToUvarint_length: "length v < 2 ^ 64 \<Longrightarrow> ToUvarint (of_nat (length v)) = Some (varint_bytes (length v))"
  by (simp add: ToUvarint_bytes unsigned_of_nat take_bit_nat_eq_self)

lemma len_ok_bound: "len_ok sz v \<Longrightarrow> sz < 0 \<Longrightarrow> length v < 2 ^ 64"
  by (simp add: len_ok_def MaxInt32_def)

lemma string_step_plain:
  assumes "wf_registry r" "protocolsByCode r (pCode p) = Some p" "pSize p = 0"
  shows "string_loop r acc (pName p # ws) = string_loop r (acc @ pVCode p) ws"
  using wf_registryD(5,6) [OF assms(1,2)] assms(3) by (subst string_loop.simps) simp

lemma string_step_value:
  assumes "wf_registry r" "protocolsByCode r (pCode p) = Some p" "pSize p \<noteq> 0" "pTranscoder p = Some t"
    and us: "us \<noteq> []" and s: "s # ws = (if pPath p then [CHR ''/'' # join_with CHR ''/'' us] else us)"
    and v: "StringToBytes t s = Inr v" "len_ok (pSize p) v"
  shows "string_loop r acc (pName p # us) = string_loop r (acc @ comp_bytes p v) ws"
proof -
  have "string_loop r acc (pName p # us) =
      (case Inr v of
         Inl err \<Rightarrow> Some (Inl (InvalidValue (pName p) err))
       | Inr a \<Rightarrow>
         if pSize p < 0 then
           (case ToUvarint (of_nat (length a)) of
              None \<Rightarrow> None
            | Some l \<Rightarrow> string_loop r (acc @ pVCode p @ l @ a) ws)
         else string_loop r (acc @ pVCode p @ a) ws)"
    using wf_registryD(5,6) [OF assms(1,2)] assms(3,4) us
    by (subst string_loop.simps) (simp add: s [symmetric] v(1) Let_def split: option.split)
  also have "\<dots> = string_loop r (acc @ comp_bytes p v) ws"
    using ToUvarint_length [OF len_ok_bound [OF v(2)]] by (simp add: comp_bytes_def len_prefix_def)
  finally show ?thesis .
qed

definition words :: "Protocol \<Rightarrow> string \<Rightarrow> string list" where
  "words p s = pName p # (if pSize p = 0 then [] else if pPath p then split_on CHR ''/'' (tl s) else [s])"

lemma item_words:
  assumes l: "lawful r" and k: "protocolsByCode r (pCode p) = Some p" "len_ok (pSize p) v"
    and t: "\<And>t. pTranscoder p = Some t \<Longrightarrow> ValidateBytes t v = None"
  shows "\<exists>us. writeTo (mk_comp p v) = Some (slashes us)
    \<and> (\<forall>acc ws. (pPath p \<longrightarrow> ws = []) \<longrightarrow> string_loop r acc (us @ ws) = string_loop r (acc @ comp_bytes p v) ws)
    \<and> list_all (\<lambda>w. CHR ''/'' \<notin> set w) us \<and> us \<noteq> [] \<and> last us \<noteq> []"
proof -
  have r: "wf_registry r" using l by (simp add: lawful_def)
  note p = wf_registryD [OF r k(1)]
  have pn: "pName p \<noteq> []" "CHR ''/'' \<notin> set (pName p)" using p(2) by (auto simp: wf_protocol_def)
  show ?thesis
  proof (cases "pTranscoder p")
    case None
    then have z: "pSize p = 0" using p(2) by (simp add: wf_protocol_def)
    then have "v = []" using k(2) by (simp add: len_ok_def)
    then have "comp_bytes p v = pVCode p" using z by (simp add: comp_bytes_def len_prefix_def)
    moreover have "writeTo (mk_comp p v) = Some (slashes [pName p])"
      using None by (simp add: writeTo_def cValue_def)
    ultimately show ?thesis using string_step_plain [OF r k(1) z] pn
      by (intro exI [of _ "[pName p]"]) simp
  next
    case (Some t)
    then have z: "pSize p \<noteq> 0" using p(2) by (simp add: wf_protocol_def)
    obtain s where s: "BytesToString t v = Inr s" "text_ok (pPath p) s" "StringToBytes t s = Inr v"
      using l k Some t transcoder.print_parse unfolding lawful_def by blast
    have w: "writeTo (mk_comp p v) = Some (slashes (words p s))"
      using s Some z by (auto simp: writeTo_def cValue_def words_def text_ok_def slashes_split)
    have st: "string_loop r acc (words p s @ ws) = string_loop r (acc @ comp_bytes p v) ws"
      if ws: "pPath p \<longrightarrow> ws = []" for acc ws
    proof -
      have "words p s = pName p # tl (words p s)" by (simp add: words_def)
      moreover have "s # ws = (if pPath p then [CHR ''/'' # join_with CHR ''/'' (tl (words p s) @ ws)]
          else tl (words p s) @ ws)" "tl (words p s) @ ws \<noteq> []"
        using z s(2) ws by (auto simp: words_def text_ok_def join_split split_on_nonempty)
      ultimately show ?thesis
        using string_step_value [OF r k(1) z Some _ _ s(3) k(2)] by (metis append_Cons)
    qed
    have "list_all (\<lambda>w. CHR ''/'' \<notin> set w) (words p s)"
      using pn s(2) z by (auto simp: words_def text_ok_def list_all_iff split_on_words)
    moreover have "last (words p s) \<noteq> []"
    proof (cases "pPath p")
      case True
      then obtain u where u: "s = CHR ''/'' # u" "u \<noteq> []" "last u \<noteq> CHR ''/''"
        using s(2) by (auto simp: text_ok_def)
      let ?us = "split_on CHR ''/'' u"
      have "last ?us \<noteq> []"
      proof
        assume e: "last ?us = []"
        have "slashes ?us = slashes (butlast ?us) @ CHR ''/'' # last ?us"
          by (metis append_butlast_last_id split_on_nonempty slashes_simps append_Nil2)
        then have "last (slashes ?us) = CHR ''/''" using e by simp
        then show False using u slashes_split [of u] by simp
      qed
      then show ?thesis using True z u split_on_nonempty by (simp add: words_def)
    next
      case False
      then show ?thesis using s(2) z by (simp add: words_def text_ok_def)
    qed
    ultimately show ?thesis using w st by (intro exI [of _ "words p s"]) (simp add: words_def)
  qed
qed

lemma items_text:
  assumes l: "lawful r"
  shows "valid_items r cs \<Longrightarrow>
    \<exists>ws. (\<forall>buf. text_loop r buf (items_bytes cs) = Some (Inr (buf @ slashes ws)))
      \<and> (\<forall>acc. string_loop r acc ws = Some (Inr (acc @ items_bytes cs)))
      \<and> list_all (\<lambda>w. CHR ''/'' \<notin> set w) ws \<and> (ws = [] \<longleftrightarrow> cs = []) \<and> (cs \<noteq> [] \<longrightarrow> last ws \<noteq> [])"
proof (induction cs)
  case Nil
  then show ?case
    by (intro exI [of _ "[]"]) (simp add: text_loop.simps [of r _ "[]"] string_loop.simps [of r _ "[]"])
next
  case (Cons c cs)
  obtain p v where c: "c = (p, v)" by (cases c)
  have r: "wf_registry r" using l by (simp add: lawful_def)
  have k: "protocolsByCode r (pCode p) = Some p" "len_ok (pSize p) v" and v: "valid_items r cs"
    and path: "pPath p \<Longrightarrow> cs = []" and t: "\<And>t. pTranscoder p = Some t \<Longrightarrow> ValidateBytes t v = None"
    using Cons.prems c by auto
  obtain ws where ws: "\<And>buf. text_loop r buf (items_bytes cs) = Some (Inr (buf @ slashes ws))"
    "\<And>acc. string_loop r acc ws = Some (Inr (acc @ items_bytes cs))"
    "list_all (\<lambda>w. CHR ''/'' \<notin> set w) ws" "ws = [] \<longleftrightarrow> cs = []" "cs \<noteq> [] \<longrightarrow> last ws \<noteq> []"
    using Cons.IH [OF v] by blast
  obtain us where us: "writeTo (mk_comp p v) = Some (slashes us)"
    "\<And>acc ws. pPath p \<longrightarrow> ws = [] \<Longrightarrow> string_loop r acc (us @ ws) = string_loop r (acc @ comp_bytes p v) ws"
    "list_all (\<lambda>w. CHR ''/'' \<notin> set w) us" "us \<noteq> []" "last us \<noteq> []"
    using item_words [OF l k t] by blast
  have "text_loop r buf (items_bytes (c # cs)) = text_loop r (buf @ slashes us) (items_bytes cs)" for buf
    using readComponent_mk [OF r k, of "items_bytes cs"] comp_bytes_nonempty [OF r k(1)] us(1) c
    by (subst text_loop.simps) simp
  then have "text_loop r buf (items_bytes (c # cs)) = Some (Inr (buf @ slashes (us @ ws)))" for buf
    by (simp add: ws(1))
  moreover have "string_loop r acc (us @ ws) = Some (Inr (acc @ items_bytes (c # cs)))" for acc
    using us(2) [of ws acc] path ws(2,4) c by simp
  ultimately show ?case using us(3-5) ws(3-5) by (intro exI [of _ "us @ ws"]) auto
qed

lemma string_loop_name:
  assumes "wf_registry r" "string_loop r acc (name # us) = Some (Inr b)"
  shows "\<exists>p. ProtocolWithName r name = p \<and> protocolsByCode r (pCode p) = Some p"
proof -
  have "pCode (ProtocolWithName r name) \<noteq> 0"
    using assms(2) by (subst (asm) string_loop.simps) (auto simp: Let_def)
  then obtain p where "protocolsByName r name = Some p"
    by (auto simp: ProtocolWithName_def zero_protocol_def split: option.splits)
  then show ?thesis using assms(1) by (auto simp: wf_registry_def ProtocolWithName_def)
qed

lemma string_loop_value:
  assumes r: "wf_registry r" and s: "string_loop r acc (name # us) = Some (Inr b)"
    and p: "ProtocolWithName r name = p" "pCode p \<noteq> 0" "pSize p \<noteq> 0" "pTranscoder p = Some t"
  shows "\<exists>u ws v. us \<noteq> [] \<and> u # ws = (if pPath p then [CHR ''/'' # join_with CHR ''/'' us] else us)
    \<and> StringToBytes t u = Inr v \<and> (len_ok (pSize p) v \<longrightarrow> string_loop r (acc @ comp_bytes p v) ws = Some (Inr b))"
proof -
  define sp where "sp = (if pPath p then [CHR ''/'' # join_with CHR ''/'' us] else us)"
  have us: "us \<noteq> []" using s p by (subst (asm) string_loop.simps) (auto simp: Let_def)
  have st: "string_loop r acc (name # us) =
      (case StringToBytes t (hd sp) of
         Inl err \<Rightarrow> Some (Inl (InvalidValue (pName p) err))
       | Inr a \<Rightarrow>
         if pSize p < 0 then
           (case ToUvarint (of_nat (length a)) of
              None \<Rightarrow> None
            | Some l \<Rightarrow> string_loop r (acc @ pVCode p @ l @ a) (tl sp))
         else string_loop r (acc @ pVCode p @ a) (tl sp))"
    using p us by (subst string_loop.simps) (simp add: Let_def sp_def [symmetric])
  then obtain v where v: "StringToBytes t (hd sp) = Inr v" using s by (cases "StringToBytes t (hd sp)") auto
  have "string_loop r (acc @ comp_bytes p v) (tl sp) = Some (Inr b)" if lo: "len_ok (pSize p) v"
    using s st v ToUvarint_length [OF len_ok_bound [OF lo]]
    by (cases "pSize p < 0") (simp_all add: comp_bytes_def len_prefix_def)
  moreover have "hd sp # tl sp = sp" using us by (simp add: sp_def)
  ultimately show ?thesis using us v by (intro exI [of _ "hd sp"] exI [of _ "tl sp"] exI [of _ v]) (simp add: sp_def)
qed

lemma join_last: "us \<noteq> [] \<Longrightarrow> last us \<noteq> [] \<Longrightarrow> join_with c us \<noteq> [] \<and> last (join_with c us) = last (last us)"
  by (induction c us rule: join_with.induct) auto

lemma parsed_items:
  assumes l: "lawful r"
  shows "string_loop r acc ws = Some (Inr b) \<Longrightarrow> list_all (\<lambda>w. CHR ''/'' \<notin> set w) ws \<Longrightarrow>
    ws \<noteq> [] \<longrightarrow> last ws \<noteq> [] \<Longrightarrow> int (length (slashes ws)) \<le> MaxInt32 \<Longrightarrow>
    \<exists>cs. b = acc @ items_bytes cs \<and> valid_items r cs \<and> (cs = [] \<longleftrightarrow> ws = [])"
proof (induction "length ws" arbitrary: acc ws rule: less_induct)
  case less
  show ?case
  proof (cases ws)
    case Nil
    then show ?thesis using less.prems(1) by (intro exI [of _ "[]"]) (simp add: string_loop.simps [of r acc "[]"])
  next
    case (Cons name us)
    have r: "wf_registry r" using l by (simp add: lawful_def)
    obtain p where p: "ProtocolWithName r name = p" and k: "protocolsByCode r (pCode p) = Some p"
      using string_loop_name [OF r] less.prems(1) Cons by blast
    note c0 = wf_registryD(6) [OF r k] and wp = wf_registryD(2) [OF r k]
    show ?thesis
    proof (cases "pSize p = 0")
      case True
      have pt: "pTranscoder p = None" "\<not> pPath p" using wp True by (auto simp: wf_protocol_def)
      have "string_loop r (acc @ pVCode p) us = Some (Inr b)"
        using less.prems(1) Cons c0 p True by (subst (asm) string_loop.simps) simp
      moreover have "length us < length ws" "list_all (\<lambda>w. CHR ''/'' \<notin> set w) us" "us \<noteq> [] \<longrightarrow> last us \<noteq> []"
        "int (length (slashes us)) \<le> MaxInt32"
        using less.prems(2-4) Cons by auto
      ultimately obtain cs where "b = (acc @ pVCode p) @ items_bytes cs" "valid_items r cs"
        using less.hyps [of us "acc @ pVCode p"] by blast
      then show ?thesis using True k pt Cons
        by (intro exI [of _ "(p, []) # cs"]) (simp add: comp_bytes_def len_prefix_def len_ok_def)
    next
      case False
      then obtain t where t: "pTranscoder p = Some t" using wp by (auto simp: wf_protocol_def)
      obtain u vs v where u: "us \<noteq> []" "u # vs = (if pPath p then [CHR ''/'' # join_with CHR ''/'' us] else us)"
        "StringToBytes t u = Inr v"
        "len_ok (pSize p) v \<longrightarrow> string_loop r (acc @ comp_bytes p v) vs = Some (Inr b)"
        using string_loop_value [OF r _ p c0 False t] less.prems(1) Cons by blast
      have tr: "transcoder (pSize p) (pPath p) t" using l k t by (auto simp: lawful_def)
      have lu: "us \<noteq> []" "last us \<noteq> []" "last (last us) \<noteq> CHR ''/''"
        using less.prems(2,3) Cons u(1) by (auto simp: list_all_iff) (metis last_in_set)
      have "text_ok (pPath p) u \<or> \<not> pPath p \<and> u = []"
        using u(2) less.prems(2) Cons join_last [OF lu(1,2), of "CHR ''/''"] lu(3)
        by (auto simp: text_ok_def split: if_splits)
      moreover have "int (length u) \<le> MaxInt32"
      proof (cases "pPath p")
        case True
        then have "u = slashes us" using u(2) slashes_join [OF u(1)] by simp
        then show ?thesis using less.prems(4) Cons by simp
      next
        case False
        then show ?thesis using u(2) less.prems(4) Cons by auto
      qed
      ultimately have v: "len_ok (pSize p) v" "ValidateBytes t v = None"
        using transcoder.parse_valid [OF tr u(3)] by auto
      have "length vs < length ws" "list_all (\<lambda>w. CHR ''/'' \<notin> set w) vs" "vs \<noteq> [] \<longrightarrow> last vs \<noteq> []"
        "int (length (slashes vs)) \<le> MaxInt32" "pPath p \<longrightarrow> vs = []"
        using u(2) less.prems(2-4) Cons by (auto split: if_splits)
      then obtain cs where "b = (acc @ comp_bytes p v) @ items_bytes cs" "valid_items r cs" "cs = [] \<longleftrightarrow> vs = []"
        using less.hyps [of vs "acc @ comp_bytes p v"] u(4) v(1) by blast
      then show ?thesis using k v t Cons \<open>pPath p \<longrightarrow> vs = []\<close> by (intro exI [of _ "(p, v) # cs"]) simp
    qed
  qed
qed


lemma stringToBytes_slashes:
  assumes "list_all (\<lambda>w. CHR ''/'' \<notin> set w) ws" "ws \<noteq> []" "last ws \<noteq> []"
  shows "stringToBytes r (slashes ws) = string_loop r [] ws"
proof -
  have "last (slashes ws) \<noteq> CHR ''/''"
    using last_slashes [OF assms(2,3)] assms by (metis last_in_set list_all_iff)
  then have "TrimRight (slashes ws) CHR ''/'' = slashes ws" by (intro TrimRight_id) simp
  moreover have "split_on CHR ''/'' (slashes ws) = [] # ws" using split_on_slashes [OF assms(1), of "[]"] by simp
  ultimately show ?thesis using assms(2) by (simp add: stringToBytes_def)
qed

lemma stringToBytes_loop:
  assumes "stringToBytes r s = Some (Inr b)"
  shows "\<exists>ws. string_loop r [] ws = Some (Inr b) \<and> ws \<noteq> [] \<and> list_all (\<lambda>w. CHR ''/'' \<notin> set w) ws
    \<and> last ws \<noteq> [] \<and> length (slashes ws) \<le> length s"
proof -
  let ?s = "TrimRight s CHR ''/''"
  obtain w ws where w: "split_on CHR ''/'' ?s = w # ws"
    using split_on_nonempty [of "CHR ''/''" ?s] by (cases "split_on CHR ''/'' ?s") auto
  then have ws: "w = []" "ws \<noteq> []" "string_loop r [] ws = Some (Inr b)"
    using assms by (auto simp: stringToBytes_def Let_def split: if_splits)
  have s: "?s = slashes ws" using slashes_split [of ?s] w ws(1) by simp
  have n: "list_all (\<lambda>w. CHR ''/'' \<notin> set w) ws"
    using split_on_words [of _ "CHR ''/''" ?s] w by (simp add: list_all_iff)
  have "last ws \<noteq> []"
  proof
    assume "last ws = []"
    then have "last ?s = CHR ''/''" using ws(2) unfolding s by (cases ws rule: rev_cases) auto
    moreover have "?s \<noteq> []" using s ws(2) by (cases ws) auto
    ultimately show False using TrimRight_last by blast
  qed
  moreover have "length ?s \<le> length s"
    unfolding TrimRight_def by (metis length_dropWhile_le length_rev)
  ultimately show ?thesis using ws n s by auto
qed


section \<open>Properties\<close>

definition opt_bytes :: "Multiaddr option \<Rightarrow> byte list" where
  "opt_bytes m = (case m of None \<Rightarrow> [] | Some m \<Rightarrow> mBytes m)"

lemma opt_bytes_simps [simp]: "opt_bytes None = []" "opt_bytes (Some m) = mBytes m"
  by (simp_all add: opt_bytes_def)

lemma NewMultiaddrBytes_iff:
  assumes "wf_registry r"
  shows "NewMultiaddrBytes r b = Inr m \<longleftrightarrow> m = MA b \<and> (\<exists>cs. cs \<noteq> [] \<and> b = items_bytes cs \<and> valid_items r cs)"
proof -
  have "(b \<noteq> [] \<and> (\<exists>cs. b = items_bytes cs \<and> valid_items r cs)) \<longleftrightarrow>
      (\<exists>cs. cs \<noteq> [] \<and> b = items_bytes cs \<and> valid_items r cs)"
    using items_bytes_empty [OF assms valid_known] by auto
  moreover have "validate_loop r b = Some (Inr u) \<longleftrightarrow> validate_loop r b = Some (Inr ())" for u by simp
  then have "NewMultiaddrBytes r b = Inr m \<longleftrightarrow> m = MA b \<and> b \<noteq> [] \<and> validate_loop r b = Some (Inr ())"
    by (cases "validate_loop r b") (auto simp: NewMultiaddrBytes_def validateBytes_def split: sum.splits)
  ultimately show ?thesis unfolding validate_loop_iff [OF assms] by simp
qed

text \<open>C28: A validated address never makes the operations that take it apart panic, and the pieces
  they return put together are the address: its components, its first component and the rest, the
  last component and what is before it, and the two sides of a split at any component.\<close>

theorem validated_address_safe:
  assumes "wf_registry r" "NewMultiaddrBytes r b = Inr m"
  shows "(\<exists>ms. SplitAddr r m = Some ms \<and> concat (map mBytes ms) = b)
    \<and> (\<exists>c rest. SplitFirst r (Some m) = Some (Some c, rest) \<and> cBytes c @ opt_bytes rest = b)
    \<and> (\<exists>front c. SplitLast r (Some m) = Some (front, Some c) \<and> opt_bytes front @ cBytes c = b)
    \<and> (\<exists>x y. SplitFunc r (Some m) cb = Some (x, y) \<and> opt_bytes x @ opt_bytes y = b)
    \<and> (\<exists>ps. mProtocols r m = Some ps)"
proof -
  obtain cs where m: "m = MA b" and cs: "cs \<noteq> []" "b = items_bytes cs" "valid_items r cs"
    using assms(2) NewMultiaddrBytes_iff [OF assms(1)] by auto
  note k = valid_known [OF cs(3)]
  have ne: "b \<noteq> []" using items_bytes_empty [OF assms(1) k] cs by simp
  obtain p v ds where c: "cs = (p, v) # ds" using cs(1) by (cases cs) auto
  have first: "readComponent r b = Inr (length (comp_bytes p v), mk_comp p v)"
    using readComponent_mk [OF assms(1), of p v "items_bytes ds"] k c cs(2) by simp
  obtain q w es where e: "cs = es @ [(q, w)]" using cs(1) by (cases cs rule: rev_cases) auto
  have last: "last_loop r b 0 = Some (length (items_bytes es), mk_comp q w)"
    using last_loop_items [OF assms(1), of es q w "[]"] k e cs(2) by simp
  obtain n where n: "split_loop r cb b 0 = Some n" "n \<le> length b"
    using split_loop_items [OF assms(1) k, of cb "[]"] cs(2) by auto
  have "\<exists>ms. SplitAddr r m = Some ms \<and> concat (map mBytes ms) = b"
    using SplitAddr_parts [OF assms(1) k] concat_parts [of cs] m cs(2) by auto
  moreover have "\<exists>c rest. SplitFirst r (Some m) = Some (Some c, rest) \<and> cBytes c @ opt_bytes rest = b"
    using first m ne cs(2) c by (auto simp: SplitFirst_def)
  moreover have "\<exists>front c. SplitLast r (Some m) = Some (front, Some c) \<and> opt_bytes front @ cBytes c = b"
    using last m ne cs(2) e by (auto simp: SplitLast_def)
  moreover have "\<exists>x y. SplitFunc r (Some m) cb = Some (x, y) \<and> opt_bytes x @ opt_bytes y = b"
    using n m ne by (auto simp: SplitFunc_def)
  moreover have "\<exists>ps. mProtocols r m = Some ps"
    using protocols_loop_items [OF assms(1) k] m cs(2) by (simp add: mProtocols_def)
  ultimately show ?thesis by blast
qed

text \<open>C29: Decapsulating what was encapsulated last gives the original address back.\<close>

theorem decapsulate_encapsulate:
  assumes "wf_registry r" "NewMultiaddrBytes r b = Inr m" "NewMultiaddrBytes r b' = Inr m'"
  shows "\<exists>m''. Decapsulate r (Encapsulate m (Some m')) (Some m') = Some (Some m'') \<and> mBytes m'' = mBytes m"
proof -
  obtain cs where m: "m = MA b" and cs: "cs \<noteq> []" "b = items_bytes cs" "valid_items r cs"
    using assms(2) NewMultiaddrBytes_iff [OF assms(1)] by auto
  obtain ds where m': "m' = MA b'" and ds: "ds \<noteq> []" "b' = items_bytes ds" "valid_items r ds"
    using assms(3) NewMultiaddrBytes_iff [OF assms(1)] by auto
  note k = valid_known [OF cs(3)] and k' = valid_known [OF ds(3)]
  have l: "SplitAddr r (MA (b @ b')) = Some (map MC (parts cs) @ map MC (parts ds))"
    using SplitAddr_parts [OF assms(1), of "cs @ ds"] k k' cs(2) ds(2) by simp
  have r: "SplitAddr r m' = Some (map MC (parts ds))"
    using SplitAddr_parts [OF assms(1) k'] m' ds(2) by simp
  have "map MC (parts ds) \<noteq> []" using ds(1) by (cases ds) auto
  then have "lastIndex (map MC (parts cs) @ map MC (parts ds)) (map MC (parts ds)) = int (length cs)"
    by (subst lastIndex_append) simp_all
  then have "Decapsulate r (Encapsulate m (Some m')) (Some m') = Some (JoinAddrs (map Some (map MC (parts cs))))"
    using l r m m' cs(1) by (simp add: Decapsulate_def Encapsulate_def)
  then show ?thesis using JoinAddrs_parts [OF assms(1) k] m cs(2) by auto
qed

text \<open>C27: A validated address has a textual form, and parsing it gives the address back.\<close>

theorem text_roundtrip:
  assumes "lawful r" "NewMultiaddrBytes r b = Inr m"
  shows "\<exists>s. mString r m = Some s \<and> NewMultiaddr r s = Inr m"
proof -
  have r: "wf_registry r" using assms(1) by (simp add: lawful_def)
  obtain cs where m: "m = MA b" and cs: "cs \<noteq> []" "b = items_bytes cs" "valid_items r cs"
    using assms(2) NewMultiaddrBytes_iff [OF r] by auto
  have ne: "b \<noteq> []" using items_bytes_empty [OF r valid_known [OF cs(3)]] cs by simp
  obtain ws where "text_loop r [] b = Some (Inr (slashes ws))" "string_loop r [] ws = Some (Inr b)"
    "list_all (\<lambda>w. CHR ''/'' \<notin> set w) ws" "ws \<noteq> []" "last ws \<noteq> []"
    using items_text [OF assms(1) cs(3)] cs(1,2) by (metis append_Nil)
  then show ?thesis using m ne stringToBytes_slashes
    by (simp add: mString_def bytesToString_def NewMultiaddr_def)
qed

text \<open>C30: What the parser accepts is valid: an address read from text is a non-empty sequence of
  components of known protocols with valid values, so the operations on it are safe.\<close>

theorem parsed_address_valid:
  assumes "lawful r" "NewMultiaddr r s = Inr m" "int (length s) \<le> MaxInt32"
  shows "NewMultiaddrBytes r (mBytes m) = Inr m"
proof -
  have r: "wf_registry r" using assms(1) by (simp add: lawful_def)
  obtain b where m: "m = MA b" and b: "stringToBytes r s = Some (Inr b)"
    using assms(2) by (auto simp: NewMultiaddr_def split: option.splits sum.splits)
  obtain ws where ws: "string_loop r [] ws = Some (Inr b)" "ws \<noteq> []" "list_all (\<lambda>w. CHR ''/'' \<notin> set w) ws"
    "last ws \<noteq> []" "length (slashes ws) \<le> length s"
    using stringToBytes_loop [OF b] by blast
  then obtain cs where "b = items_bytes cs" "valid_items r cs" "cs \<noteq> []"
    using parsed_items [OF assms(1) ws(1,3)] assms(3) by auto
  then show ?thesis unfolding m mBytes.simps NewMultiaddrBytes_iff [OF r] by blast
qed

end
