(* ===== verification/Transcoders.thy ===== *)
theory Transcoders
  imports Multiaddr_Codec
begin

text \<open>
  Transcoders and the protocol table of multiaddrs (multiformats/multiaddr/transcoders.go and
  protocols.go): ports, CIDR masks, IPv6 zones, domain names, unix paths and memory
  addresses, each shown to satisfy the contract \<open>transcoder\<close> of the codec, and the registry that
  holds their protocols and those without a value.  An error is its kind, as text.
\<close>

section \<open>Numbers (strconv, encoding/binary)\<close>

definition is_digit :: "char \<Rightarrow> bool" where
  "is_digit c \<longleftrightarrow> 48 \<le> (of_char c :: nat) \<and> (of_char c :: nat) \<le> 57"

fun parse_loop :: "nat \<Rightarrow> nat \<Rightarrow> string \<Rightarrow> value_error + nat" where
  "parse_loop maxVal n [] = Inr n"
| "parse_loop maxVal n (c # s) =
    (if \<not> is_digit c then Inl ''invalid syntax''
     else let n1 = n * 10 + (of_char c - 48) in
       if n1 > maxVal then Inl ''value out of range'' else parse_loop maxVal n1 s)"

text \<open>strconv.ParseUint with base 10.\<close>

definition ParseUint :: "string \<Rightarrow> nat \<Rightarrow> value_error + nat" where
  "ParseUint s bitSize = (if s = [] then Inl ''invalid syntax'' else parse_loop (2 ^ bitSize - 1) 0 s)"

text \<open>binary.BigEndian: the last \<open>k\<close> bytes of a number, most significant first, and back.\<close>

fun big_endian :: "nat \<Rightarrow> nat \<Rightarrow> byte list" where
  "big_endian 0 n = []"
| "big_endian (Suc k) n = big_endian k (n div 256) @ [of_nat (n mod 256)]"

definition from_big_endian :: "byte list \<Rightarrow> nat" where
  "from_big_endian b = foldl (\<lambda>n x. n * 256 + unat x) 0 b"

section \<open>Transcoders (transcoders.go)\<close>

definition ipcidrValidate :: "byte list \<Rightarrow> value_error option" where
  "ipcidrValidate b = (if length b \<noteq> 1 then Some ''invalid length (should be == 1)'' else None)"

definition ipcidrBtS :: "byte list \<Rightarrow> value_error + string" where
  "ipcidrBtS b =
    (case ipcidrValidate b of Some err \<Rightarrow> Inl err | None \<Rightarrow> Inr (itoa (int (unat (b ! 0)))))"

definition ipcidrStB :: "string \<Rightarrow> value_error + byte list" where
  "ipcidrStB s = (case ParseUint s 8 of Inl err \<Rightarrow> Inl err | Inr ipMask \<Rightarrow> Inr [of_nat ipMask])"

definition TranscoderIPCIDR :: Transcoder where
  "TranscoderIPCIDR = \<lparr>StringToBytes = ipcidrStB, BytesToString = ipcidrBtS, ValidateBytes = ipcidrValidate\<rparr>"

definition ip6zoneStB :: "string \<Rightarrow> value_error + byte list" where
  "ip6zoneStB s =
    (if length s = 0 then Inl ''empty ip6zone''
     else if CHR ''/'' \<in> set s then Inl ''IPv6 zone ID contains a slash'' else Inr (str_bytes s))"

definition ip6zoneBtS :: "byte list \<Rightarrow> value_error + string" where
  "ip6zoneBtS b = (if length b = 0 then Inl ''invalid length (should be > 0)'' else Inr (bytes_str b))"

definition ip6zoneVal :: "byte list \<Rightarrow> value_error option" where
  "ip6zoneVal b =
    (if length b = 0 then Some ''invalid length (should be > 0)''
     else if byte_of_char CHR ''/'' \<in> set b then Some ''IPv6 zone ID contains a slash'' else None)"

definition TranscoderIP6Zone :: Transcoder where
  "TranscoderIP6Zone = \<lparr>StringToBytes = ip6zoneStB, BytesToString = ip6zoneBtS, ValidateBytes = ip6zoneVal\<rparr>"

definition portStB :: "string \<Rightarrow> value_error + byte list" where
  "portStB s = (case ParseUint s 16 of Inl err \<Rightarrow> Inl err | Inr i \<Rightarrow> Inr (big_endian 2 i))"

text \<open>Uint16 reads the first two bytes, and panics when there are fewer.\<close>

definition portBtS :: "byte list \<Rightarrow> value_error + string" where
  "portBtS b =
    (if length b < 2 then Inl ''index out of range''
     else Inr (nat_digits (from_big_endian (take 2 b))))"

definition TranscoderPort :: Transcoder where
  "TranscoderPort = \<lparr>StringToBytes = portStB, BytesToString = portBtS, ValidateBytes = (\<lambda>b. None)\<rparr>"

definition unixStB :: "string \<Rightarrow> value_error + byte list" where
  "unixStB s = Inr (str_bytes s)"

definition unixBtS :: "byte list \<Rightarrow> value_error + string" where
  "unixBtS b = Inr (bytes_str b)"

definition unixValidate :: "byte list \<Rightarrow> value_error option" where
  "unixValidate b =
    (if length b < 2 then Some ''byte slice too short''
     else if b ! 0 \<noteq> byte_of_char CHR ''/'' then Some ''path protocol must begin with a slash''
     else if b ! (length b - 1) = byte_of_char CHR ''/'' then Some ''unix socket path must not end in a slash''
     else None)"

definition TranscoderUnix :: Transcoder where
  "TranscoderUnix = \<lparr>StringToBytes = unixStB, BytesToString = unixBtS, ValidateBytes = unixValidate\<rparr>"

definition dnsVal :: "byte list \<Rightarrow> value_error option" where
  "dnsVal b =
    (if length b = 0 then Some ''empty dns addr''
     else if byte_of_char CHR ''/'' \<in> set b then Some ''domain name contains a slash'' else None)"

definition dnsStB :: "string \<Rightarrow> value_error + byte list" where
  "dnsStB s = (let b = str_bytes s in case dnsVal b of Some err \<Rightarrow> Inl err | None \<Rightarrow> Inr b)"

definition dnsBtS :: "byte list \<Rightarrow> value_error + string" where
  "dnsBtS b = Inr (bytes_str b)"

definition TranscoderDns :: Transcoder where
  "TranscoderDns = \<lparr>StringToBytes = dnsStB, BytesToString = dnsBtS, ValidateBytes = dnsVal\<rparr>"

definition memoryStB :: "string \<Rightarrow> value_error + byte list" where
  "memoryStB s = (case ParseUint s 64 of Inl err \<Rightarrow> Inl err | Inr z \<Rightarrow> Inr (big_endian 8 z))"

definition memoryBtS :: "byte list \<Rightarrow> value_error + string" where
  "memoryBtS b =
    (if length b \<noteq> 8 then Inl ''expected uint64'' else Inr (nat_digits (from_big_endian b)))"

definition memoryValidate :: "byte list \<Rightarrow> value_error option" where
  "memoryValidate b = (if length b \<noteq> 8 then Some ''invalid length: must be exactly 8 bytes'' else None)"

definition TranscoderMemory :: Transcoder where
  "TranscoderMemory = \<lparr>StringToBytes = memoryStB, BytesToString = memoryBtS, ValidateBytes = memoryValidate\<rparr>"

section \<open>Protocols (protocols.go)\<close>

text \<open>A protocol with its code as a varint, computed when the package is initialised.\<close>

definition new_protocol :: "string \<Rightarrow> int \<Rightarrow> int \<Rightarrow> bool \<Rightarrow> Transcoder option \<Rightarrow> Protocol" where
  "new_protocol name code sz path t =
    \<lparr>pName = name, pCode = code, pVCode = (case CodeToVarint code of None \<Rightarrow> [] | Some b \<Rightarrow> b),
      pSize = sz, pPath = path, pTranscoder = t\<rparr>"

definition protoTCP :: Protocol where
  "protoTCP = new_protocol ''tcp'' 6 16 False (Some TranscoderPort)"

definition protoDNS :: Protocol where
  "protoDNS = new_protocol ''dns'' 53 LengthPrefixedVarSize False (Some TranscoderDns)"

definition protoDNS4 :: Protocol where
  "protoDNS4 = new_protocol ''dns4'' 54 LengthPrefixedVarSize False (Some TranscoderDns)"

definition protoDNS6 :: Protocol where
  "protoDNS6 = new_protocol ''dns6'' 55 LengthPrefixedVarSize False (Some TranscoderDns)"

definition protoDNSADDR :: Protocol where
  "protoDNSADDR = new_protocol ''dnsaddr'' 56 LengthPrefixedVarSize False (Some TranscoderDns)"

definition protoUDP :: Protocol where
  "protoUDP = new_protocol ''udp'' 273 16 False (Some TranscoderPort)"

definition protoDCCP :: Protocol where
  "protoDCCP = new_protocol ''dccp'' 33 16 False (Some TranscoderPort)"

definition protoIPCIDR :: Protocol where
  "protoIPCIDR = new_protocol ''ipcidr'' 43 8 False (Some TranscoderIPCIDR)"

definition protoIP6ZONE :: Protocol where
  "protoIP6ZONE = new_protocol ''ip6zone'' 42 LengthPrefixedVarSize False (Some TranscoderIP6Zone)"

definition protoSCTP :: Protocol where
  "protoSCTP = new_protocol ''sctp'' 132 16 False (Some TranscoderPort)"

definition protoUNIX :: Protocol where
  "protoUNIX = new_protocol ''unix'' 400 LengthPrefixedVarSize True (Some TranscoderUnix)"

definition protoSNI :: Protocol where
  "protoSNI = new_protocol ''sni'' 449 LengthPrefixedVarSize False (Some TranscoderDns)"

definition protoMemory :: Protocol where
  "protoMemory = new_protocol ''memory'' 777 64 False (Some TranscoderMemory)"

definition protoCIRCUIT :: Protocol where
  "protoCIRCUIT = new_protocol ''p2p-circuit'' 290 0 False None"

definition protoUTP :: Protocol where
  "protoUTP = new_protocol ''utp'' 302 0 False None"

definition protoUDT :: Protocol where
  "protoUDT = new_protocol ''udt'' 301 0 False None"

definition protoQUIC :: Protocol where
  "protoQUIC = new_protocol ''quic'' 460 0 False None"

definition protoQUICV1 :: Protocol where
  "protoQUICV1 = new_protocol ''quic-v1'' 461 0 False None"

definition protoWEBTRANSPORT :: Protocol where
  "protoWEBTRANSPORT = new_protocol ''webtransport'' 465 0 False None"

definition protoHTTP :: Protocol where
  "protoHTTP = new_protocol ''http'' 480 0 False None"

definition protoHTTPS :: Protocol where
  "protoHTTPS = new_protocol ''https'' 443 0 False None"

definition protoP2P_WEBRTC_DIRECT :: Protocol where
  "protoP2P_WEBRTC_DIRECT = new_protocol ''p2p-webrtc-direct'' 276 0 False None"

definition protoTLS :: Protocol where
  "protoTLS = new_protocol ''tls'' 448 0 False None"

definition protoNOISE :: Protocol where
  "protoNOISE = new_protocol ''noise'' 454 0 False None"

definition protoPlaintextV2 :: Protocol where
  "protoPlaintextV2 = new_protocol ''plaintextv2'' 7367777 0 False None"

definition protoWS :: Protocol where
  "protoWS = new_protocol ''ws'' 477 0 False None"

definition protoWSS :: Protocol where
  "protoWSS = new_protocol ''wss'' 478 0 False None"

definition protoWebRTCDirect :: Protocol where
  "protoWebRTCDirect = new_protocol ''webrtc-direct'' 280 0 False None"

definition protoWebRTC :: Protocol where
  "protoWebRTC = new_protocol ''webrtc'' 281 0 False None"

text \<open>The loop of the package's \<open>init\<close>; an error is a panic.\<close>

fun add_all :: "registry \<Rightarrow> Protocol list \<Rightarrow> registry option" where
  "add_all r [] = Some r"
| "add_all r (p # ps) = (case AddProtocol r p of Inl err \<Rightarrow> None | Inr r' \<Rightarrow> add_all r' ps)"

definition protocol_table :: "Protocol list" where
  "protocol_table =
    [protoTCP, protoDNS, protoDNS4, protoDNS6, protoDNSADDR, protoUDP, protoDCCP, protoIP6ZONE,
     protoIPCIDR, protoSCTP, protoCIRCUIT, protoUTP, protoUDT, protoQUIC, protoQUICV1,
     protoWEBTRANSPORT, protoHTTP, protoHTTPS, protoUNIX, protoP2P_WEBRTC_DIRECT, protoTLS,
     protoSNI, protoNOISE, protoWS, protoWSS, protoPlaintextV2, protoWebRTCDirect, protoWebRTC,
     protoMemory]"

section \<open>The transcoders satisfy the contract\<close>

lemma char_byte_inverse [simp]: "char_of_byte (byte_of_char c) = c" "byte_of_char (char_of_byte b) = b"
proof -
  have "of_char c < (256 :: nat)" by simp
  then have "unat (of_nat (of_char c) :: byte) = of_char c"
    by (simp add: unsigned_of_nat take_bit_nat_eq_self)
  then show "char_of_byte (byte_of_char c) = c" by (simp add: char_of_byte_def byte_of_char_def)
  show "byte_of_char (char_of_byte b) = b"
    using unat_byte [of b] by (simp add: char_of_byte_def byte_of_char_def)
qed

lemma str_bytes_inverse [simp]: "bytes_str (str_bytes s) = s" "str_bytes (bytes_str b) = b"
  by (simp_all add: str_bytes_def bytes_str_def comp_def)

lemma length_str_bytes [simp]: "length (str_bytes s) = length s" "length (bytes_str b) = length b"
  by (simp_all add: str_bytes_def bytes_str_def)

lemma str_bytes_empty [simp]: "str_bytes s = [] \<longleftrightarrow> s = []" "bytes_str b = [] \<longleftrightarrow> b = []"
  by (simp_all add: str_bytes_def bytes_str_def)

lemma byte_in_str_bytes [simp]:
  "byte_of_char c \<in> set (str_bytes s) \<longleftrightarrow> c \<in> set s" "c \<in> set (bytes_str b) \<longleftrightarrow> byte_of_char c \<in> set b"
  unfolding str_bytes_def bytes_str_def by (metis char_byte_inverse imageE imageI list.set_map)+

lemma nat_digits_nonempty: "nat_digits n \<noteq> []"
  by (subst nat_digits.simps) simp

lemma parse_loop_append:
  "parse_loop m n (s @ t) = (case parse_loop m n s of Inl e \<Rightarrow> Inl e | Inr k \<Rightarrow> parse_loop m k t)"
  by (induction m n s rule: parse_loop.induct) (auto simp: Let_def)

lemma digit_char: "d < 10 \<Longrightarrow> is_digit (char_of (48 + d :: nat)) \<and> of_char (char_of (48 + d :: nat)) = (48 + d :: nat)"
  by (simp add: is_digit_def)

lemma parse_nat_digits: "n \<le> m \<Longrightarrow> parse_loop m 0 (nat_digits n) = Inr n"
proof (induction n rule: nat_digits.induct)
  case (1 n)
  show ?case
  proof (cases "n < 10")
    case True
    then show ?thesis using 1(2) digit_char [OF True] by (subst nat_digits.simps) (simp add: Let_def)
  next
    case False
    have "n mod 10 < 10" by simp
    note digit_char [OF this]
    then show ?thesis using 1(1) [OF False] 1(2) False
      by (subst nat_digits.simps) (simp add: parse_loop_append Let_def)
  qed
qed

lemma ParseUint_digits: "n < 2 ^ k \<Longrightarrow> ParseUint (nat_digits n) k = Inr n"
  using parse_nat_digits [of n "2 ^ k - 1"] nat_digits_nonempty by (simp add: ParseUint_def)

lemma parse_loop_bound: "parse_loop m n s = Inr k \<Longrightarrow> n \<le> m \<Longrightarrow> k \<le> m"
  by (induction m n s rule: parse_loop.induct) (auto simp: Let_def split: if_splits)

lemma ParseUint_bound: "ParseUint s k = Inr n \<Longrightarrow> n < 2 ^ k"
  using parse_loop_bound [of "2 ^ k - 1" 0 s n] by (auto simp: ParseUint_def less_eq_iff_succ_less split: if_splits)

lemma nat_digits_text: "text_ok False (nat_digits n)"
  using nat_digits_are_digits [of "CHR ''/''" n] nat_digits_nonempty by (auto simp: text_ok_def)

lemma length_big_endian [simp]: "length (big_endian k n) = k"
  by (induction k arbitrary: n) auto

lemma from_big_endian_snoc: "from_big_endian (b @ [x]) = from_big_endian b * 256 + unat x"
  by (simp add: from_big_endian_def)

lemma big_endian_inverse:
  "n < 256 ^ k \<Longrightarrow> from_big_endian (big_endian k n) = n"
proof (induction k arbitrary: n)
  case (Suc k)
  have "unat (of_nat (n mod 256) :: byte) = n mod 256" by (simp add: unsigned_of_nat take_bit_nat_eq_self)
  then show ?case using Suc by (simp add: from_big_endian_snoc less_mult_imp_div_less mult.commute)
qed (simp add: from_big_endian_def)

lemma from_big_endian_inverse: "big_endian (length b) (from_big_endian b) = b \<and> from_big_endian b < 256 ^ length b"
proof (induction b rule: rev_induct)
  case (snoc x b)
  have x: "unat x < 256" by (rule unat_byte)
  have "(from_big_endian b + 1) * 256 \<le> 256 ^ length b * 256" using snoc by (intro mult_le_mono1) simp
  then have "from_big_endian b * 256 + unat x < 256 ^ length b * 256" using x by simp
  then show ?case using snoc x by (simp add: from_big_endian_snoc mult.commute)
qed (simp add: from_big_endian_def)


lemmas transcoder_defs =
  TranscoderIPCIDR_def ipcidrStB_def ipcidrBtS_def ipcidrValidate_def
  TranscoderIP6Zone_def ip6zoneStB_def ip6zoneBtS_def ip6zoneVal_def
  TranscoderPort_def portStB_def portBtS_def
  TranscoderUnix_def unixStB_def unixBtS_def unixValidate_def
  TranscoderDns_def dnsStB_def dnsBtS_def dnsVal_def
  TranscoderMemory_def memoryStB_def memoryBtS_def memoryValidate_def

interpretation ipcidr: transcoder 8 False TranscoderIPCIDR
proof
  fix v
  assume "len_ok 8 v" "ValidateBytes TranscoderIPCIDR v = None"
  then obtain x where v: "v = [x]" by (cases v) (auto simp: len_ok_def)
  have "ParseUint (nat_digits (unat x)) 8 = Inr (unat x)" using unat_byte [of x] by (intro ParseUint_digits) simp
  then show "\<exists>s. BytesToString TranscoderIPCIDR v = Inr s \<and> text_ok False s \<and> StringToBytes TranscoderIPCIDR s = Inr v"
    using nat_digits_text by (simp add: v transcoder_defs itoa_def)
next
  fix s v
  assume "StringToBytes TranscoderIPCIDR s = Inr v"
  then show "len_ok 8 v \<and> ValidateBytes TranscoderIPCIDR v = None"
    by (auto simp: transcoder_defs len_ok_def split: sum.splits)
qed

interpretation port: transcoder 16 False TranscoderPort
proof
  fix v
  assume "len_ok 16 v"
  then have l: "length v = 2" by (simp add: len_ok_def)
  have "ParseUint (nat_digits (from_big_endian v)) 16 = Inr (from_big_endian v)"
    using from_big_endian_inverse [of v] l by (intro ParseUint_digits) simp
  then show "\<exists>s. BytesToString TranscoderPort v = Inr s \<and> text_ok False s \<and> StringToBytes TranscoderPort s = Inr v"
    using nat_digits_text from_big_endian_inverse [of v] l by (simp add: transcoder_defs)
next
  fix s v
  assume "StringToBytes TranscoderPort s = Inr v"
  then show "len_ok 16 v \<and> ValidateBytes TranscoderPort v = None"
    by (auto simp: transcoder_defs len_ok_def simp del: big_endian.simps split: sum.splits)
qed

interpretation memory: transcoder 64 False TranscoderMemory
proof
  fix v
  assume "len_ok 64 v"
  then have l: "length v = 8" by (simp add: len_ok_def)
  have "ParseUint (nat_digits (from_big_endian v)) 64 = Inr (from_big_endian v)"
    using from_big_endian_inverse [of v] l by (intro ParseUint_digits) simp
  then show "\<exists>s. BytesToString TranscoderMemory v = Inr s \<and> text_ok False s \<and> StringToBytes TranscoderMemory s = Inr v"
    using nat_digits_text from_big_endian_inverse [of v] l by (simp add: transcoder_defs)
next
  fix s v
  assume "StringToBytes TranscoderMemory s = Inr v"
  then show "len_ok 64 v \<and> ValidateBytes TranscoderMemory v = None"
    by (auto simp: transcoder_defs len_ok_def simp del: big_endian.simps split: sum.splits)
qed

interpretation ip6zone: transcoder "- 1" False TranscoderIP6Zone
  by unfold_locales (auto simp: transcoder_defs len_ok_def text_ok_def split: if_splits)

interpretation dns: transcoder "- 1" False TranscoderDns
  by unfold_locales (auto simp: transcoder_defs len_ok_def text_ok_def Let_def split: if_splits option.splits)

lemma last_bytes_str: "b \<noteq> [] \<Longrightarrow> last (bytes_str b) = char_of_byte (last b)"
  by (simp add: bytes_str_def last_map)

lemma last_str_bytes: "s \<noteq> [] \<Longrightarrow> last (str_bytes s) = byte_of_char (last s)"
  by (simp add: str_bytes_def last_map)

lemma byte_of_char_inj [simp]: "byte_of_char c = byte_of_char d \<longleftrightarrow> c = d"
  by (metis char_byte_inverse(1))

lemma unixValidate_iff:
  "unixValidate b = None \<longleftrightarrow>
     (\<exists>u. b = byte_of_char CHR ''/'' # u \<and> u \<noteq> [] \<and> last u \<noteq> byte_of_char CHR ''/'')"
proof (cases b)
  case (Cons x u)
  then show ?thesis by (cases "u = []") (auto simp: unixValidate_def last_conv_nth Suc_le_eq)
qed (simp add: unixValidate_def)

interpretation unix: transcoder "- 1" True TranscoderUnix
proof
  fix v
  assume "ValidateBytes TranscoderUnix v = None"
  then obtain u where u: "v = byte_of_char CHR ''/'' # u" "u \<noteq> []" "last u \<noteq> byte_of_char CHR ''/''"
    by (auto simp: TranscoderUnix_def unixValidate_iff)
  then have "bytes_str v = CHR ''/'' # bytes_str u" by (simp add: bytes_str_def)
  moreover have "last (bytes_str u) \<noteq> CHR ''/''"
    using u(2,3) last_bytes_str char_byte_inverse(2) by metis
  ultimately show "\<exists>s. BytesToString TranscoderUnix v = Inr s \<and> text_ok True s \<and> StringToBytes TranscoderUnix s = Inr v"
    using u(2) str_bytes_inverse(2) [of v] by (simp add: TranscoderUnix_def unixStB_def unixBtS_def text_ok_def)
next
  fix s v
  assume "StringToBytes TranscoderUnix s = Inr v" "text_ok True s \<or> \<not> True \<and> s = []" "int (length s) \<le> MaxInt32"
  then obtain u where u: "s = CHR ''/'' # u" "u \<noteq> []" "last u \<noteq> CHR ''/''" "v = str_bytes s"
    by (auto simp: TranscoderUnix_def unixStB_def text_ok_def)
  then have "v = byte_of_char CHR ''/'' # str_bytes u" by (simp add: str_bytes_def)
  then show "len_ok (- 1) v \<and> ValidateBytes TranscoderUnix v = None"
    using u \<open>int (length s) \<le> MaxInt32\<close> last_str_bytes [OF u(2)]
    by (auto simp: TranscoderUnix_def unixValidate_iff len_ok_def)
qed

section \<open>The registry\<close>

lemmas proto_defs = protoTCP_def protoDNS_def protoDNS4_def protoDNS6_def protoDNSADDR_def protoUDP_def protoDCCP_def
  protoIP6ZONE_def protoIPCIDR_def protoSCTP_def protoCIRCUIT_def protoUTP_def protoUDT_def protoQUIC_def
  protoQUICV1_def protoWEBTRANSPORT_def protoHTTP_def protoHTTPS_def protoUNIX_def protoP2P_WEBRTC_DIRECT_def
  protoTLS_def protoSNI_def protoNOISE_def protoWS_def protoWSS_def protoPlaintextV2_def protoWebRTCDirect_def
  protoWebRTC_def protoMemory_def

text \<open>Adding protocols of distinct names and codes to the registry.\<close>

definition good_protocol :: "Protocol \<Rightarrow> bool" where
  "good_protocol p \<longleftrightarrow> wf_protocol p \<and> (\<forall>t. pTranscoder p = Some t \<longrightarrow> transcoder (pSize p) (pPath p) t)"

lemma AddProtocol_lawful:
  assumes "lawful r" "good_protocol p" "protocolsByName r (pName p) = None" "protocolsByCode r (pCode p) = None"
  shows "\<exists>r'. AddProtocol r p = Inr r' \<and> lawful r' \<and> protocolsByName r' = (protocolsByName r)(pName p \<mapsto> p)
    \<and> protocolsByCode r' = (protocolsByCode r)(pCode p \<mapsto> p)"
proof -
  have w: "wf_protocol p" using assms(2) by (simp add: good_protocol_def)
  then obtain r' where r': "AddProtocol r p = Inr r'" "protocolsByName r' = (protocolsByName r)(pName p \<mapsto> p)"
    "protocolsByCode r' = (protocolsByCode r)(pCode p \<mapsto> p)"
    using assms(3,4) by (auto simp: AddProtocol_def wf_protocol_def)
  have "wf_registry r'"
    using AddProtocol_wf [OF _ r'(1)] assms(1) w by (auto simp: lawful_def wf_protocol_def)
  then show ?thesis using r' assms(1,2) by (auto simp: lawful_def good_protocol_def)
qed

lemma add_all_lawful:
  "lawful r \<Longrightarrow> list_all good_protocol ps \<Longrightarrow> distinct (map pName ps) \<Longrightarrow> distinct (map pCode ps) \<Longrightarrow>
   (\<forall>p \<in> set ps. protocolsByName r (pName p) = None \<and> protocolsByCode r (pCode p) = None) \<Longrightarrow>
   \<exists>r'. add_all r ps = Some r' \<and> lawful r' \<and> (\<forall>p \<in> set ps. protocolsByCode r' (pCode p) = Some p)
     \<and> (\<forall>c. c \<notin> pCode ` set ps \<longrightarrow> protocolsByCode r' c = protocolsByCode r c)"
proof (induction ps arbitrary: r)
  case (Cons p ps)
  obtain r' where r': "AddProtocol r p = Inr r'" "lawful r'" "protocolsByName r' = (protocolsByName r)(pName p \<mapsto> p)"
    "protocolsByCode r' = (protocolsByCode r)(pCode p \<mapsto> p)"
    using AddProtocol_lawful [of r p] Cons.prems by auto
  have "\<forall>q \<in> set ps. protocolsByName r' (pName q) = None \<and> protocolsByCode r' (pCode q) = None"
    using Cons.prems(3-5) r'(3,4) by (auto simp: image_iff)
  then obtain r'' where "add_all r' ps = Some r''" "lawful r''" "\<forall>p \<in> set ps. protocolsByCode r'' (pCode p) = Some p"
    "\<forall>c. c \<notin> pCode ` set ps \<longrightarrow> protocolsByCode r'' c = protocolsByCode r' c"
    using Cons.IH [OF r'(2)] Cons.prems by auto
  then show ?case using Cons.prems(4) r'(1,4) by (intro exI [of _ r'']) auto
qed simp

lemma new_protocol_good:
  assumes "0 < code" "code \<le> MaxInt32" "name \<noteq> []" "CHR ''/'' \<notin> set name" "sz = 0 \<longleftrightarrow> t = None" "path \<longrightarrow> sz < 0"
    "\<And>u. t = Some u \<Longrightarrow> transcoder sz path u"
  shows "good_protocol (new_protocol name code sz path t)"
proof -
  obtain b where "CodeToVarint code = Some b" using assms(1,2) CodeToVarint_bytes [of code] by simp
  then show ?thesis using assms by (simp add: good_protocol_def wf_protocol_def new_protocol_def)
qed

lemma table_good: "list_all good_protocol protocol_table"
  apply (simp only: protocol_table_def list.pred_inject proto_defs LengthPrefixedVarSize_def simp_thms)
  apply (intro conjI new_protocol_good)
  apply (auto simp: MaxInt32_def intro: ipcidr.transcoder_axioms port.transcoder_axioms memory.transcoder_axioms
      ip6zone.transcoder_axioms dns.transcoder_axioms unix.transcoder_axioms)
  done

lemma new_protocol_simps [simp]:
  "pName (new_protocol name code sz path t) = name" "pCode (new_protocol name code sz path t) = code"
  by (simp_all add: new_protocol_def)

lemma table_distinct: "distinct (map pName protocol_table)" "distinct (map pCode protocol_table)"
  by (simp_all add: protocol_table_def proto_defs)

lemma table_added:
  "\<exists>r. add_all empty_registry protocol_table = Some r \<and> lawful r
    \<and> (\<forall>p \<in> set protocol_table. protocolsByCode r (pCode p) = Some p)"
proof -
  have "lawful empty_registry" using empty_wf by (simp add: lawful_def empty_registry_def)
  then show ?thesis using add_all_lawful [of empty_registry protocol_table] table_good table_distinct
    by (fastforce simp: empty_registry_def)
qed


text \<open>The registry of the table, as the other packages use it.\<close>

definition std_registry :: registry where
  "std_registry = (case add_all empty_registry protocol_table of None \<Rightarrow> empty_registry | Some r \<Rightarrow> r)"

lemma std_registry_lawful: "lawful std_registry"
  and std_registry_code: "p \<in> set protocol_table \<Longrightarrow> protocolsByCode std_registry (pCode p) = Some p"
  using table_added by (auto simp: std_registry_def)

lemma std_registry_wf: "wf_registry std_registry"
  using std_registry_lawful by (simp add: lawful_def)

section \<open>Witnesses\<close>

text \<open>The address \<open>/dns/a/tcp/80\<close>.\<close>

lemma witness_items:
  "comp_bytes protoDNS [97] = [53, 1, 97]" "comp_bytes protoTCP [0, 80] = [6, 0, 80]"
  by (simp_all add: comp_bytes_def len_prefix_def proto_defs new_protocol_def CodeToVarint_def ToUvarint_bytes
      MaxInt32_def LengthPrefixedVarSize_def varint_bytes_small)

lemma witness_known:
  "valid_items std_registry [(protoDNS, [97])]" "valid_items std_registry [(protoTCP, [0, 80])]"
  using std_registry_code [of protoDNS] std_registry_code [of protoTCP]
  by (simp_all add: protocol_table_def)
    (simp_all add: proto_defs new_protocol_def len_ok_def MaxInt32_def LengthPrefixedVarSize_def
      transcoder_defs byte_of_char_def)

lemma witness_dns: "NewMultiaddrBytes std_registry [53, 1, 97] = Inr (MA [53, 1, 97])"
  unfolding NewMultiaddrBytes_iff [OF std_registry_wf]
  using witness_known(1) witness_items(1) by (intro conjI refl exI [of _ "[(protoDNS, [97])]"]) simp_all

lemma witness_tcp: "NewMultiaddrBytes std_registry [6, 0, 80] = Inr (MA [6, 0, 80])"
  unfolding NewMultiaddrBytes_iff [OF std_registry_wf]
  using witness_known(2) witness_items(2) by (intro conjI refl exI [of _ "[(protoTCP, [0, 80])]"]) simp_all

theorem validated_address_safe_witness:
  "\<exists>ms. SplitAddr std_registry (MA [6, 0, 80]) = Some ms \<and> concat (map mBytes ms) = [6, 0, 80]"
  using validated_address_safe [OF std_registry_wf witness_tcp] by blast

theorem decapsulate_encapsulate_witness:
  "\<exists>m. Decapsulate std_registry (Encapsulate (MA [53, 1, 97]) (Some (MA [6, 0, 80]))) (Some (MA [6, 0, 80]))
     = Some (Some m) \<and> mBytes m = [53, 1, 97]"
  using decapsulate_encapsulate [OF std_registry_wf witness_dns witness_tcp] by simp

theorem text_roundtrip_witness:
  "\<exists>s. mString std_registry (MA [6, 0, 80]) = Some s \<and> NewMultiaddr std_registry s = Inr (MA [6, 0, 80])"
  by (rule text_roundtrip [OF std_registry_lawful witness_tcp])


lemma witness_parse: "NewMultiaddr std_registry ''/tcp/80'' = Inr (MA [6, 0, 80])"
proof -
  have k: "protocolsByCode std_registry (pCode protoTCP) = Some protoTCP"
    by (rule std_registry_code) (simp add: protocol_table_def)
  have p: "pName protoTCP = ''tcp''" "pSize protoTCP \<noteq> 0" "pTranscoder protoTCP = Some TranscoderPort" "\<not> pPath protoTCP"
    "len_ok (pSize protoTCP) [0, 80]"
    by (simp_all add: proto_defs new_protocol_def len_ok_def)
  have "ParseUint ''80'' 16 = Inr 80" by (simp add: ParseUint_def is_digit_def)
  then have "StringToBytes TranscoderPort ''80'' = Inr [0, 80]"
    by (simp add: TranscoderPort_def portStB_def numeral_2_eq_2)
  then have "string_loop std_registry [] [pName protoTCP, ''80''] = string_loop std_registry ([] @ comp_bytes protoTCP [0, 80]) []"
    using string_step_value [OF std_registry_wf k p(2,3), of "[''80'']" "''80''" "[]"] p by simp
  then have "string_loop std_registry [] [''tcp'', ''80''] = Some (Inr [6, 0, 80])"
    using p(1) witness_items(2) by (simp add: string_loop.simps [of _ _ "[]"])
  then show ?thesis
    using stringToBytes_slashes [of "[''tcp'', ''80'']" std_registry] by (simp add: NewMultiaddr_def)
qed

theorem parsed_address_valid_witness:
  "NewMultiaddrBytes std_registry (mBytes (MA [6, 0, 80])) = Inr (MA [6, 0, 80])"
  by (rule parsed_address_valid [OF std_registry_lawful witness_parse]) (simp add: MaxInt32_def)

end
