(* ===== verification/Net_Addr.thy ===== *)
theory Net_Addr
  imports Transcoders Allow_List
begin

text \<open>
  Public and private addresses (multiformats/multiaddr/net/private.go) and the test for a protocol
  in an address (p2p/net/swarm/dial\_ranker.go).  The networks that the package parses from text
  when it is initialised are written out.
\<close>

section \<open>Networks\<close>

text \<open>\<open>net.IP\<close> of the raw value of a component; a length other than 4 and 16 is in no network.\<close>

definition word_of_bytes :: "byte list \<Rightarrow> 'a::len word" where
  "word_of_bytes b = foldl (\<lambda>w x. push_bit 8 w OR ucast x) 0 b"

definition ip_of_raw :: "byte list \<Rightarrow> IP option" where
  "ip_of_raw b =
    (if length b = 4 then Some (IP4 (word_of_bytes b))
     else if length b = 16 then Some (IP16 (word_of_bytes b)) else None)"

definition cidr4 :: "32 word \<Rightarrow> nat \<Rightarrow> ipnet" where
  "cidr4 a n = \<lparr>netIP = IP4 a, maskOnes = n, maskBits = 32\<rparr>"

definition cidr6 :: "128 word \<Rightarrow> nat \<Rightarrow> ipnet" where
  "cidr6 a n = \<lparr>netIP = IP16 a, maskOnes = n, maskBits = 128\<rparr>"

definition Private4 :: "ipnet list" where
  "Private4 =
    [cidr4 0x7f000000 8, cidr4 0x0a000000 8, cidr4 0x64400000 10, cidr4 0xac100000 12,
     cidr4 0xc0a80000 16, cidr4 0xa9fe0000 16]"

definition Private6 :: "ipnet list" where
  "Private6 = [cidr6 1 128, cidr6 (push_bit 112 0xfc00) 7, cidr6 (push_bit 112 0xfe80) 10]"

definition Unroutable4 :: "ipnet list" where
  "Unroutable4 =
    [cidr4 0 8, cidr4 0xc0000000 26, cidr4 0xc0000200 24, cidr4 0xc0586300 24, cidr4 0xc6120000 15,
     cidr4 0xc6336400 24, cidr4 0xcb007100 24, cidr4 0xe0000000 4, cidr4 0xf0000000 4,
     cidr4 0xffffffff 32]"

definition Unroutable6 :: "ipnet list" where
  "Unroutable6 = [cidr6 (push_bit 112 0xff00) 8, cidr6 (push_bit 96 0x20010db8) 32]"

definition globalUnicast :: "ipnet list" where
  "globalUnicast = [cidr6 (push_bit 112 0x2000) 3]"

definition nat64 :: "ipnet list" where
  "nat64 = [cidr6 (push_bit 80 0x0064ff9b0001) 48, cidr6 (push_bit 96 0x0064ff9b) 96]"

definition inAddrRange :: "IP option \<Rightarrow> ipnet list \<Rightarrow> bool" where
  "inAddrRange ip ipnets =
    (case ip of None \<Rightarrow> False | Some ip \<Rightarrow> list_ex (\<lambda>ipnet. net_Contains ipnet ip) ipnets)"

section \<open>Domains\<close>

definition unResolvableDomains :: "string list" where
  "unResolvableDomains = [''.in-addr.arpa'', ''.ip6.arpa'', ''.invalid'']"

definition privateUseDomains :: "string list" where
  "privateUseDomains = [''.home.arpa'', ''.local'', ''.test'']"

definition localHostDomain :: string where
  "localHostDomain = ''.localhost''"

definition HasSuffix :: "string \<Rightarrow> string \<Rightarrow> bool" where
  "HasSuffix s suffix \<longleftrightarrow> length suffix \<le> length s \<and> drop (length s - length suffix) s = suffix"

definition isSubdomain :: "string \<Rightarrow> string \<Rightarrow> bool" where
  "isSubdomain child parent \<longleftrightarrow> HasSuffix child parent \<or> child = tl parent"

section \<open>Public and private addresses\<close>

definition P_IP4 :: int where
  "P_IP4 = 4"

definition P_IP6 :: int where
  "P_IP6 = 41"

definition P_IP6ZONE :: int where
  "P_IP6ZONE = 42"

definition P_UDP :: int where
  "P_UDP = 273"

definition P_TCP :: int where
  "P_TCP = 6"

definition P_UNIX :: int where
  "P_UNIX = 400"

definition P_CIRCUIT :: int where
  "P_CIRCUIT = 290"

definition dns_codes :: "int list" where
  "dns_codes = [53, 54, 55, 56]"


definition public_step :: "bool \<Rightarrow> Component \<Rightarrow> (bool \<times> bool) option" where
  "public_step isPublic c =
    (let code = pCode (cProtocol c); ip = ip_of_raw (RawValue c) in
     if code = P_IP6ZONE then Some (True, isPublic)
     else if code = P_IP4 then Some (False, \<not> inAddrRange ip Private4 \<and> \<not> inAddrRange ip Unroutable4)
     else if code = P_IP6 then
       if inAddrRange ip globalUnicast \<and> \<not> inAddrRange ip Unroutable6 then Some (False, True)
       else Some (False, inAddrRange ip nat64)
     else if code \<in> set dns_codes then
       do { dnsAddr \<leftarrow> cValue c;
            Some (False,
              if isSubdomain dnsAddr localHostDomain then False
              else if list_ex (isSubdomain dnsAddr) unResolvableDomains then False
              else \<not> list_ex (isSubdomain dnsAddr) privateUseDomains) }
     else Some (False, isPublic))"

definition IsPublicAddr :: "registry \<Rightarrow> Multiaddr \<Rightarrow> bool option" where
  "IsPublicAddr r a = ForEach r (Some a) public_step False"

definition private_step :: "bool \<Rightarrow> Component \<Rightarrow> (bool \<times> bool) option" where
  "private_step isPrivate c =
    (let code = pCode (cProtocol c); ip = ip_of_raw (RawValue c) in
     if code = P_IP6ZONE then Some (True, isPrivate)
     else if code = P_IP4 then Some (False, inAddrRange ip Private4)
     else if code = P_IP6 then Some (False, inAddrRange ip Private6)
     else if code \<in> set dns_codes then
       do { dnsAddr \<leftarrow> cValue c;
            Some (False, if isSubdomain dnsAddr localHostDomain then True else isPrivate) }
     else Some (False, isPrivate))"

definition IsPrivateAddr :: "registry \<Rightarrow> Multiaddr \<Rightarrow> bool option" where
  "IsPrivateAddr r a = ForEach r (Some a) private_step False"

definition isProtocolAddr :: "registry \<Rightarrow> Multiaddr \<Rightarrow> int \<Rightarrow> bool option" where
  "isProtocolAddr r a p =
    ForEach r (Some a)
      (\<lambda>found c. if pCode (cProtocol c) = p then Some (False, True) else Some (True, found)) False"

section \<open>Public and private are disjoint\<close>

lemma cidr6_Contains:
  "To4 (IP16 n) = None \<Longrightarrow> net_Contains (cidr6 n k) (IP16 a) \<Longrightarrow> drop_bit (128 - k) a = drop_bit (128 - k) n"
  by (auto simp: net_Contains_def cidr6_def split: option.splits)

lemma cidr6_not4: "To4 (IP16 n) = None \<Longrightarrow> \<not> net_Contains (cidr6 n k) (IP4 a)"
  by (simp add: net_Contains_def cidr6_def To4_def)

lemma Private6_top:
  assumes "inAddrRange (Some ip) Private6"
  shows "\<exists>a. ip = IP16 a \<and> (a = 1 \<or> drop_bit 125 a = 7)"
proof (cases ip)
  case (IP4 a)
  then show ?thesis using assms by (simp add: inAddrRange_def Private6_def cidr6_not4 To4_def)
next
  case (IP16 a)
  have "a = 1 \<or> drop_bit 121 a = 0x7e \<or> drop_bit 118 a = 0x3fa"
    using assms IP16 by (auto simp: inAddrRange_def Private6_def dest!: cidr6_Contains [rotated] simp: To4_def)
  moreover have "drop_bit 121 a = 0x7e \<Longrightarrow> drop_bit 125 a = 7"
    by (drule arg_cong [where f = "drop_bit 4"]) simp
  moreover have "drop_bit 118 a = 0x3fa \<Longrightarrow> drop_bit 125 a = 7"
    by (drule arg_cong [where f = "drop_bit 7"]) simp
  ultimately show ?thesis using IP16 by auto
qed

lemma public6_top:
  assumes "inAddrRange (Some ip) globalUnicast \<or> inAddrRange (Some ip) nat64"
  shows "\<exists>a. ip = IP16 a \<and> a \<noteq> 1 \<and> (drop_bit 125 a = 1 \<or> drop_bit 125 a = 0)"
proof (cases ip)
  case (IP4 a)
  then show ?thesis using assms by (simp add: inAddrRange_def globalUnicast_def nat64_def cidr6_not4 To4_def)
next
  case (IP16 a)
  have "drop_bit 125 a = 1 \<or> drop_bit 80 a = 0x64ff9b0001 \<or> drop_bit 32 a = 0x64ff9b0000000000000000"
    using assms IP16
    by (auto simp: inAddrRange_def globalUnicast_def nat64_def dest!: cidr6_Contains [rotated] simp: To4_def)
  moreover have "drop_bit 80 a = 0x64ff9b0001 \<Longrightarrow> drop_bit 125 a = 0"
    by (drule arg_cong [where f = "drop_bit 45"]) simp
  moreover have "drop_bit 32 a = 0x64ff9b0000000000000000 \<Longrightarrow> drop_bit 125 a = 0"
    by (drule arg_cong [where f = "drop_bit 93"]) simp
  moreover have "a \<noteq> 1" using calculation(1) by auto
  ultimately show ?thesis using IP16 by auto
qed

lemma range6_disjoint:
  "inAddrRange ip globalUnicast \<or> inAddrRange ip nat64 \<Longrightarrow> \<not> inAddrRange ip Private6"
  using public6_top Private6_top by (cases ip) (fastforce simp: inAddrRange_def)+

lemma cValue_total:
  assumes "lawful r" "known r (p, v)" "\<And>t. pTranscoder p = Some t \<Longrightarrow> ValidateBytes t v = None"
  shows "\<exists>s. cValue (mk_comp p v) = Some s"
proof (cases "pTranscoder p")
  case None
  then show ?thesis by (simp add: cValue_def)
next
  case (Some t)
  then have "transcoder (pSize p) (pPath p) t" using assms(1,2) by (auto simp: lawful_def)
  then show ?thesis using transcoder.print_parse [of "pSize p" "pPath p" t v] assms(2,3) Some
    by (auto simp: cValue_def)
qed

lemma public_private_step:
  assumes "cValue c = Some s"
  shows "\<exists>go b b'. public_step False c = Some (go, b) \<and> private_step False c = Some (go, b') \<and> \<not> (b \<and> b')
    \<and> (go \<longrightarrow> \<not> b \<and> \<not> b')"
  using assms range6_disjoint by (auto simp: public_step_def private_step_def Let_def)

lemma public_private_walk:
  assumes "lawful r"
  shows "valid_items r cs \<Longrightarrow> \<exists>b b'. walk public_step False (parts cs) = Some b
    \<and> walk private_step False (parts cs) = Some b' \<and> \<not> (b \<and> b')"
proof (induction cs)
  case (Cons c cs)
  obtain p v where c: "c = (p, v)" by (cases c)
  obtain s where "cValue (mk_comp p v) = Some s"
    using cValue_total [OF assms, of p v] Cons.prems c by auto
  from public_private_step [OF this] obtain go b b' where
    "public_step False (mk_comp p v) = Some (go, b)" "private_step False (mk_comp p v) = Some (go, b')"
    "\<not> (b \<and> b')" "go \<longrightarrow> \<not> b \<and> \<not> b'" by blast
  then show ?case using Cons c by (cases go) auto
qed auto

text \<open>C32: On a validated address the two classifications return, and no address is both public and
  private.\<close>

theorem public_not_private:
  assumes "lawful r" "NewMultiaddrBytes r b = Inr m"
  shows "\<exists>pub priv. IsPublicAddr r m = Some pub \<and> IsPrivateAddr r m = Some priv \<and> \<not> (pub \<and> priv)"
proof -
  have r: "wf_registry r" using assms(1) by (simp add: lawful_def)
  obtain cs where cs: "m = MA (items_bytes cs)" "valid_items r cs"
    using assms(2) NewMultiaddrBytes_iff [OF r] by auto
  show ?thesis
    using public_private_walk [OF assms(1) cs(2)]
    by (simp add: IsPublicAddr_def IsPrivateAddr_def ForEach_def cs(1) for_loop_walk [OF r valid_known [OF cs(2)]])
qed

theorem public_not_private_witness:
  "\<exists>pub priv. IsPublicAddr std_registry (MA [53, 1, 97]) = Some pub
     \<and> IsPrivateAddr std_registry (MA [53, 1, 97]) = Some priv \<and> \<not> (pub \<and> priv)"
  by (rule public_not_private [OF std_registry_lawful witness_dns])

end
