(* ===== verification/Black_Hole.thy ===== *)
theory Black_Hole
  imports Net_Addr "HOL-Library.Signed_Division"
begin

text \<open>
  The black hole detector of the swarm (p2p/net/swarm/black\_hole\_detector.go): dials over UDP or
  IPv6 that keep failing put the detector of that protocol in the blocked state, in which
  addresses of the protocol are filtered out except for a probe every N requests.  The two
  counters of a detector are distinct objects.  A division by zero is the result \<open>None\<close>.  Locks,
  logging and metrics are left out.
\<close>

section \<open>The counter\<close>

datatype BlackHoleState = Probing | Allowed | Blocked

record BlackHoleSuccessCounter =
  bhN :: int
  bhMinSuccesses :: int
  bhRequests :: int
  bhDialResults :: "bool list"
  bhSuccesses :: int
  bhState :: BlackHoleState

definition new_counter :: "int \<Rightarrow> int \<Rightarrow> BlackHoleSuccessCounter" where
  "new_counter n m = \<lparr>bhN = n, bhMinSuccesses = m, bhRequests = 0, bhDialResults = [], bhSuccesses = 0,
     bhState = Probing\<rparr>"

definition updateState :: "BlackHoleSuccessCounter \<Rightarrow> BlackHoleSuccessCounter" where
  "updateState b =
    (if int (length (bhDialResults b)) < bhN b then b\<lparr>bhState := Probing\<rparr>
     else if bhSuccesses b \<ge> bhMinSuccesses b then b\<lparr>bhState := Allowed\<rparr>
     else b\<lparr>bhState := Blocked\<rparr>)"

definition bh_reset :: "BlackHoleSuccessCounter \<Rightarrow> BlackHoleSuccessCounter" where
  "bh_reset b = updateState (b\<lparr>bhSuccesses := 0, bhDialResults := [], bhRequests := 0\<rparr>)"

definition counter_RecordResult :: "BlackHoleSuccessCounter \<Rightarrow> bool \<Rightarrow> BlackHoleSuccessCounter" where
  "counter_RecordResult b success =
    (if bhState b = Blocked \<and> success then bh_reset b
     else
       let b = (if success then b\<lparr>bhSuccesses := add64 (bhSuccesses b) 1\<rparr> else b);
           b = b\<lparr>bhDialResults := bhDialResults b @ [success]\<rparr>;
           b = (if int (length (bhDialResults b)) > bhN b then
                  let b' = (if hd (bhDialResults b) then b\<lparr>bhSuccesses := sub64 (bhSuccesses b) 1\<rparr> else b)
                  in b'\<lparr>bhDialResults := tl (bhDialResults b')\<rparr>
                else b)
       in updateState b)"

definition HandleRequest :: "BlackHoleSuccessCounter \<Rightarrow> (BlackHoleState \<times> BlackHoleSuccessCounter) option" where
  "HandleRequest b =
    (let b = b\<lparr>bhRequests := add64 (bhRequests b) 1\<rparr> in
     if bhState b = Allowed then Some (Allowed, b)
     else if bhState b = Probing then Some (Probing, b)
     else if bhN b = 0 then None
     else if bhRequests b smod bhN b = 0 then Some (Probing, b)
     else Some (Blocked, b))"

text \<open>How many requests until the next probe; the rest of \<open>info\<close> is for the metrics.\<close>

definition nextProbeAfter :: "BlackHoleSuccessCounter \<Rightarrow> int option" where
  "nextProbeAfter b =
    (if bhState b = Blocked then
       if bhN b = 0 then None else Some (sub64 (bhN b) (bhRequests b smod bhN b))
     else Some 0)"

section \<open>The detector\<close>

record blackHoleDetector =
  bhUdp :: "BlackHoleSuccessCounter option"
  bhIpv6 :: "BlackHoleSuccessCounter option"
  bhReadOnly :: bool

definition getFilterState ::
  "blackHoleDetector \<Rightarrow> BlackHoleSuccessCounter \<Rightarrow> (BlackHoleState \<times> BlackHoleSuccessCounter) option" where
  "getFilterState d f =
    (if bhReadOnly d then
       if bhState f \<noteq> Allowed then Some (Blocked, f) else Some (Allowed, f)
     else HandleRequest f)"

fun scan_addrs :: "registry \<Rightarrow> bool \<times> bool \<Rightarrow> Multiaddr list \<Rightarrow> (bool \<times> bool) option" where
  "scan_addrs r (hasUDP, hasIPv6) [] = Some (hasUDP, hasIPv6)"
| "scan_addrs r (hasUDP, hasIPv6) (a # addrs) =
    do { pub \<leftarrow> IsPublicAddr r a;
         if \<not> pub then scan_addrs r (hasUDP, hasIPv6) addrs
         else do { u \<leftarrow> isProtocolAddr r a P_UDP;
                   v \<leftarrow> isProtocolAddr r a P_IP6;
                   scan_addrs r (hasUDP \<or> u, hasIPv6 \<or> v) addrs } }"

definition query_counter ::
  "blackHoleDetector \<Rightarrow> BlackHoleSuccessCounter option \<Rightarrow> bool \<Rightarrow>
   (BlackHoleState \<times> BlackHoleSuccessCounter option) option" where
  "query_counter d f has =
    (case f of
       None \<Rightarrow> Some (Allowed, f)
     | Some f \<Rightarrow> if has then do { (res, f') \<leftarrow> getFilterState d f; Some (res, Some f') } else Some (Allowed, Some f))"

definition keep_addr ::
  "registry \<Rightarrow> BlackHoleState \<Rightarrow> BlackHoleState \<Rightarrow> Multiaddr list \<Rightarrow> Multiaddr \<Rightarrow> (bool \<times> Multiaddr list) option" where
  "keep_addr r udpRes ipv6Res blackHoled a =
    do { pub \<leftarrow> IsPublicAddr r a;
         if \<not> pub then Some (True, blackHoled)
         else do { u \<leftarrow> isProtocolAddr r a P_UDP;
                   v \<leftarrow> isProtocolAddr r a P_IP6;
                   if udpRes = Probing \<and> u then Some (True, blackHoled)
                   else if ipv6Res = Probing \<and> v then Some (True, blackHoled)
                   else if udpRes = Blocked \<and> u then Some (False, blackHoled @ [a])
                   else if ipv6Res = Blocked \<and> v then Some (False, blackHoled @ [a])
                   else Some (True, blackHoled) } }"

definition detector_FilterAddrs ::
  "registry \<Rightarrow> blackHoleDetector \<Rightarrow> Multiaddr list \<Rightarrow>
   (Multiaddr list \<times> Multiaddr list \<times> blackHoleDetector) option" where
  "detector_FilterAddrs r d addrs =
    do { (hasUDP, hasIPv6) \<leftarrow> scan_addrs r (False, False) addrs;
         (udpRes, udp) \<leftarrow> query_counter d (bhUdp d) hasUDP;
         (ipv6Res, ipv6) \<leftarrow> query_counter d (bhIpv6 d) hasIPv6;
         (valid, blackHoled) \<leftarrow> FilterAddrs [keep_addr r udpRes ipv6Res] [] addrs;
         Some (valid, blackHoled, d\<lparr>bhUdp := udp, bhIpv6 := ipv6\<rparr>) }"

definition detector_RecordResult ::
  "registry \<Rightarrow> blackHoleDetector \<Rightarrow> Multiaddr \<Rightarrow> bool \<Rightarrow> blackHoleDetector option" where
  "detector_RecordResult r d addr success =
    (if bhReadOnly d then Some d
     else do { pub \<leftarrow> IsPublicAddr r addr;
               if \<not> pub then Some d
               else do {
                 d \<leftarrow> (case bhUdp d of
                        None \<Rightarrow> Some d
                      | Some f \<Rightarrow> do { u \<leftarrow> isProtocolAddr r addr P_UDP;
                                     Some (if u then d\<lparr>bhUdp := Some (counter_RecordResult f success)\<rparr> else d) });
                 case bhIpv6 d of
                   None \<Rightarrow> Some d
                 | Some f \<Rightarrow> do { v \<leftarrow> isProtocolAddr r addr P_IP6;
                                Some (if v then d\<lparr>bhIpv6 := Some (counter_RecordResult f success)\<rparr> else d) } } })"

section \<open>The counter over a history of dials\<close>

text \<open>The contract: the state is a function of the results since the last reset.\<close>

definition successes :: "bool list \<Rightarrow> int" where
  "successes h = int (length (filter id h))"

definition lastn :: "int \<Rightarrow> bool list \<Rightarrow> bool list" where
  "lastn n h = drop (length h - nat n) h"

definition bh_spec :: "int \<Rightarrow> int \<Rightarrow> bool list \<Rightarrow> BlackHoleState" where
  "bh_spec n m h =
    (if int (length h) < n then Probing else if successes (lastn n h) \<ge> m then Allowed else Blocked)"

definition bh_next :: "int \<Rightarrow> int \<Rightarrow> bool list \<Rightarrow> bool \<Rightarrow> bool list" where
  "bh_next n m h success = (if bh_spec n m h = Blocked \<and> success then [] else h @ [success])"

definition bh_rel :: "int \<Rightarrow> int \<Rightarrow> BlackHoleSuccessCounter \<Rightarrow> bool list \<Rightarrow> bool" where
  "bh_rel n m b h \<longleftrightarrow> bhN b = n \<and> bhMinSuccesses b = m \<and> bhDialResults b = lastn n h
     \<and> bhSuccesses b = successes (lastn n h) \<and> bhState b = bh_spec n m h"

lemma successes_simps [simp]:
  "successes [] = 0" "successes (x # h) = (if x then 1 else 0) + successes h"
  "successes (g @ h) = successes g + successes h"
  by (simp_all add: successes_def)

lemma successes_bounds: "0 \<le> successes h" "successes h \<le> int (length h)"
  by (simp_all add: successes_def)

lemma length_lastn: "0 < n \<Longrightarrow> int (length (lastn n h)) = min n (int (length h))"
  by (simp add: lastn_def)

lemma lastn_snoc:
  assumes "0 < n"
  shows "lastn n (h @ [x]) =
    (if int (length (lastn n h @ [x])) > n then tl (lastn n h @ [x]) else lastn n h @ [x])"
proof (cases "n \<le> int (length h)")
  case True
  then have "nat n \<le> length h" "0 < nat n" using assms by auto
  then have "lastn n h \<noteq> []" "lastn n (h @ [x]) = tl (lastn n h) @ [x]"
    by (auto simp: lastn_def drop_Suc tl_drop Suc_diff_le)
  then show ?thesis using True assms length_lastn [OF assms, of h] by (simp add: tl_append split: list.splits)
next
  case False
  then show ?thesis using assms by (simp add: lastn_def)
qed

lemma RecordResult_rel:
  assumes n: "0 < n" "n < 2 ^ 62" and r: "bh_rel n m b h"
  shows "bh_rel n m (counter_RecordResult b success) (bh_next n m h success)"
proof (cases "bh_spec n m h = Blocked \<and> success")
  case True
  then show ?thesis using n r by (simp add: bh_rel_def counter_RecordResult_def bh_reset_def updateState_def bh_next_def
      bh_spec_def lastn_def)
next
  case False
  let ?g = "lastn n h @ [success]"
  let ?L = "lastn n (h @ [success])"
  have len: "int (length (lastn n h)) \<le> n" using length_lastn [OF n(1), of h] by simp
  have s: "add64 (successes (lastn n h)) 1 = successes (lastn n h) + 1"
    using successes_bounds [of "lastn n h"] len n by (intro add64_exact) (auto simp: int64_range_def)
  have t: "sub64 (successes ?g) 1 = successes ?g - 1"
    using successes_bounds [of ?g] len n by (intro sub64_exact) (auto simp: int64_range_def)
  have g: "successes (tl ?g) = successes ?g - (if hd ?g then 1 else 0)"
    by (cases "lastn n h") auto
  have "counter_RecordResult b success = updateState (b\<lparr>bhSuccesses := successes ?L, bhDialResults := ?L\<rparr>)"
    using False r s t g lastn_snoc [OF n(1), of h success]
    by (cases b) (auto simp: counter_RecordResult_def bh_rel_def Let_def)
  moreover have "int (length ?L) < n \<longleftrightarrow> int (length (h @ [success])) < n"
    using length_lastn [OF n(1), of "h @ [success]"] by linarith
  moreover have "bh_next n m h success = h @ [success]" using False by (auto simp: bh_next_def)
  ultimately show ?thesis using r by (simp add: bh_rel_def updateState_def bh_spec_def)
qed

text \<open>Requests only count requests.\<close>

datatype bh_event = Result bool | Request

definition bh_step :: "BlackHoleSuccessCounter \<Rightarrow> bh_event \<Rightarrow> BlackHoleSuccessCounter" where
  "bh_step b e =
    (case e of
       Result success \<Rightarrow> counter_RecordResult b success
     | Request \<Rightarrow> (case HandleRequest b of Some (_, b') \<Rightarrow> b' | None \<Rightarrow> b))"

definition bh_history :: "int \<Rightarrow> int \<Rightarrow> bool list \<Rightarrow> bh_event \<Rightarrow> bool list" where
  "bh_history n m h e = (case e of Result success \<Rightarrow> bh_next n m h success | Request \<Rightarrow> h)"

lemma HandleRequest_total:
  "bhN b \<noteq> 0 \<Longrightarrow> \<exists>s. HandleRequest b = Some (s, b\<lparr>bhRequests := add64 (bhRequests b) 1\<rparr>)"
  by (simp add: HandleRequest_def Let_def)

lemma bh_step_rel:
  assumes "0 < n" "n < 2 ^ 62" "bh_rel n m b h"
  shows "bh_rel n m (bh_step b e) (bh_history n m h e)"
proof (cases e)
  case (Result success)
  then show ?thesis using RecordResult_rel [OF assms] by (simp add: bh_step_def bh_history_def)
next
  case Request
  have "bhN b \<noteq> 0" using assms by (auto simp: bh_rel_def)
  then obtain s where "HandleRequest b = Some (s, b\<lparr>bhRequests := add64 (bhRequests b) 1\<rparr>)"
    using HandleRequest_total by blast
  then show ?thesis using assms(3) Request by (simp add: bh_step_def bh_history_def bh_rel_def)
qed

text \<open>C33: Over any sequence of dial results and requests the state of a counter is the one its
  contract gives: probing while fewer than N results came in since the last reset, then allowed or
  blocked according to the successes among the last N, and a success while blocked resets it.\<close>

theorem counter_refines_history:
  assumes "0 < n" "n < 2 ^ 62"
  shows "bh_rel n m (foldl bh_step (new_counter n m) es) (foldl (bh_history n m) [] es)"
proof (induction es rule: rev_induct)
  case Nil
  then show ?case using assms by (simp add: bh_rel_def new_counter_def lastn_def bh_spec_def)
next
  case (snoc e es)
  then show ?case using bh_step_rel [OF assms] by simp
qed

theorem counter_refines_history_witness:
  "bh_rel 2 1 (foldl bh_step (new_counter 2 1) [Result False, Result False, Request])
     (foldl (bh_history 2 1) [] [Result False, Result False, Request])"
  by (rule counter_refines_history) simp_all

section \<open>Probes\<close>

fun requests :: "nat \<Rightarrow> BlackHoleSuccessCounter \<Rightarrow> BlackHoleState list" where
  "requests 0 b = []"
| "requests (Suc k) b = (case HandleRequest b of None \<Rightarrow> [] | Some (s, b') \<Rightarrow> s # requests k b')"

lemma requests_blocked:
  assumes "bhState b = Blocked" "0 < bhN b" "0 \<le> bhRequests b" "bhRequests b + int k < 2 ^ 63" "i < k"
  shows "requests k b ! i = (if bhN b dvd bhRequests b + int i + 1 then Probing else Blocked)"
  using assms
proof (induction k arbitrary: b i)
  case (Suc k)
  have a: "add64 (bhRequests b) 1 = bhRequests b + 1"
    using Suc.prems by (intro add64_exact) (auto simp: int64_range_def)
  have m: "(bhRequests b + 1) smod bhN b = 0 \<longleftrightarrow> bhN b dvd bhRequests b + 1"
    using Suc.prems by (simp add: smod_int_alt_def dvd_eq_mod_eq_0 sgn_if)
  have h: "HandleRequest b = Some (if bhN b dvd bhRequests b + 1 then Probing else Blocked,
      b\<lparr>bhRequests := bhRequests b + 1\<rparr>)"
    using Suc.prems a m by (simp add: HandleRequest_def Let_def)
  show ?case using Suc.prems h Suc.IH [of "b\<lparr>bhRequests := bhRequests b + 1\<rparr>" "i - 1"]
    by (cases i) (auto simp: ac_simps)
qed simp


text \<open>C34: A blocked detector keeps probing: of the next N requests exactly one is let through as a
  probe, the one that \<open>nextProbeAfter\<close> announces, so a protocol that works again is noticed.\<close>

theorem blocked_probes_once:
  assumes "bhState b = Blocked" "0 < bhN b" "0 \<le> bhRequests b" "bhRequests b + bhN b < 2 ^ 63"
  shows "\<exists>k. nextProbeAfter b = Some k \<and> 1 \<le> k \<and> k \<le> bhN b
    \<and> (\<forall>i < nat (bhN b). requests (nat (bhN b)) b ! i = (if int i + 1 = k then Probing else Blocked))"
proof -
  let ?n = "bhN b" and ?q = "bhRequests b"
  have s: "?q smod ?n = ?q mod ?n" using assms(2,3) by (simp add: smod_int_alt_def sgn_if)
  have k: "nextProbeAfter b = Some (?n - ?q mod ?n)"
    using assms s pos_mod_bound [OF assms(2), of ?q] pos_mod_sign [OF assms(2), of ?q]
    by (simp add: nextProbeAfter_def sub64_exact int64_range_def)
  have "?n dvd ?q + int i + 1 \<longleftrightarrow> int i + 1 = ?n - ?q mod ?n" if "i < nat ?n" for i
  proof -
    define j where "j = int i + 1"
    have j: "1 \<le> j" "j \<le> ?n" using that by (auto simp: j_def)
    have "?n dvd ?q + j \<longleftrightarrow> ?n dvd ?q mod ?n + j" by (simp add: dvd_eq_mod_eq_0 mod_add_left_eq)
    also have "\<dots> \<longleftrightarrow> ?q mod ?n + j = ?n"
    proof
      assume d: "?n dvd ?q mod ?n + j"
      have "0 < ?q mod ?n + j" "?q mod ?n + j < 2 * ?n"
        using j pos_mod_bound [OF assms(2), of ?q] pos_mod_sign [OF assms(2), of ?q] by linarith+
      then show "?q mod ?n + j = ?n" using d assms(2) by (auto elim!: dvdE simp: zero_less_mult_iff)
    qed simp
    finally show ?thesis by (auto simp: j_def algebra_simps)
  qed
  then have "\<forall>i < nat ?n. requests (nat ?n) b ! i = (if int i + 1 = ?n - ?q mod ?n then Probing else Blocked)"
    using requests_blocked [OF assms(1-3)] assms(2,4) by simp
  moreover have "1 \<le> ?n - ?q mod ?n" "?n - ?q mod ?n \<le> ?n"
    using pos_mod_bound [OF assms(2), of ?q] pos_mod_sign [OF assms(2), of ?q] by linarith+
  ultimately show ?thesis using k by blast
qed


theorem blocked_probes_once_witness:
  "\<exists>k. nextProbeAfter \<lparr>bhN = 3, bhMinSuccesses = 1, bhRequests = 1, bhDialResults = [False, False, False],
      bhSuccesses = 0, bhState = Blocked\<rparr> = Some k \<and> 1 \<le> k \<and> k \<le> 3
    \<and> requests 3 \<lparr>bhN = 3, bhMinSuccesses = 1, bhRequests = 1, bhDialResults = [False, False, False],
      bhSuccesses = 0, bhState = Blocked\<rparr> ! 1 = (if 2 = k then Probing else Blocked)"
  using blocked_probes_once [of "\<lparr>bhN = 3, bhMinSuccesses = 1, bhRequests = 1,
      bhDialResults = [False, False, False], bhSuccesses = 0, bhState = Blocked\<rparr>"]
  by fastforce

section \<open>Filtering\<close>

definition classified :: "registry \<Rightarrow> Multiaddr \<Rightarrow> bool" where
  "classified r a \<longleftrightarrow> (\<exists>pub u v. IsPublicAddr r a = Some pub \<and> isProtocolAddr r a P_UDP = Some u
     \<and> isProtocolAddr r a P_IP6 = Some v)"

lemma walk_total: "(\<And>st c. \<exists>x. cb st c = Some x) \<Longrightarrow> \<exists>st'. walk cb st cs = Some st'"
proof (induction cs arbitrary: st)
  case (Cons c cs)
  obtain go st' where "cb st c = Some (go, st')" using Cons.prems by (metis surj_pair)
  then show ?case using Cons by simp
qed simp

lemma validated_classified:
  assumes "lawful r" "NewMultiaddrBytes r b = Inr m"
  shows "classified r m"
proof -
  have r: "wf_registry r" using assms(1) by (simp add: lawful_def)
  obtain cs where cs: "m = MA (items_bytes cs)" "valid_items r cs"
    using assms(2) NewMultiaddrBytes_iff [OF r] by auto
  note w = for_loop_walk [OF r valid_known [OF cs(2)]]
  have "\<exists>x. isProtocolAddr r m p = Some x" for p
    unfolding isProtocolAddr_def ForEach_def cs(1) option.case Multiaddr.case w by (rule walk_total) auto
  moreover have "\<exists>x. IsPublicAddr r m = Some x"
    using public_private_walk [OF assms(1) cs(2)] by (auto simp: IsPublicAddr_def ForEach_def cs(1) w)
  ultimately show ?thesis by (auto simp: classified_def)
qed

definition dropped :: "registry \<Rightarrow> BlackHoleState \<Rightarrow> BlackHoleState \<Rightarrow> Multiaddr \<Rightarrow> bool" where
  "dropped r udpRes ipv6Res a \<longleftrightarrow> IsPublicAddr r a = Some True
     \<and> \<not> (udpRes = Probing \<and> isProtocolAddr r a P_UDP = Some True)
     \<and> \<not> (ipv6Res = Probing \<and> isProtocolAddr r a P_IP6 = Some True)
     \<and> (udpRes = Blocked \<and> isProtocolAddr r a P_UDP = Some True
        \<or> ipv6Res = Blocked \<and> isProtocolAddr r a P_IP6 = Some True)"

lemma keep_addr_dropped:
  "classified r a \<Longrightarrow> keep_addr r x y bh a =
     Some (\<not> dropped r x y a, if dropped r x y a then bh @ [a] else bh)"
  by (auto simp: classified_def keep_addr_def dropped_def)

lemma FilterAddrs_dropped:
  "list_all (classified r) addrs \<Longrightarrow> FilterAddrs [keep_addr r x y] bh addrs =
     Some (filter (\<lambda>a. \<not> dropped r x y a) addrs, bh @ filter (dropped r x y) addrs)"
  by (induction addrs arbitrary: bh) (auto simp: keep_addr_dropped)

lemma scan_addrs_total: "list_all (classified r) addrs \<Longrightarrow> \<exists>u v. scan_addrs r (x, y) addrs = Some (u, v)"
proof (induction addrs arbitrary: x y)
  case (Cons a addrs)
  then obtain pub u v where "IsPublicAddr r a = Some pub" "isProtocolAddr r a P_UDP = Some u" "isProtocolAddr r a P_IP6 = Some v"
    by (auto simp: classified_def)
  then show ?case using Cons by (cases pub) auto
qed simp

lemma query_counter_state:
  assumes "\<And>c. f = Some c \<Longrightarrow> bhN c \<noteq> 0"
  shows "\<exists>res f'. query_counter d f has = Some (res, f') \<and> (bhReadOnly d \<longrightarrow> f' = f)
    \<and> (res \<noteq> Allowed \<longrightarrow> (\<exists>c. f = Some c \<and> bhState c \<noteq> Allowed))"
proof (cases f)
  case None
  then show ?thesis by (simp add: query_counter_def)
next
  case (Some c)
  then have "bhN c \<noteq> 0" using assms by simp
  then show ?thesis using Some
    by (auto simp: query_counter_def getFilterState_def HandleRequest_def Let_def)
qed

text \<open>C35: Filtering splits the addresses of a peer in two, in order: an address is only taken out when it
  is public and over UDP or IPv6 with a detector for that protocol that is not in the allowed state; a
  read-only detector does not change.\<close>

theorem filter_splits:
  assumes "lawful r" "\<And>a. a \<in> set addrs \<Longrightarrow> \<exists>b. NewMultiaddrBytes r b = Inr a"
    and "\<And>c. bhUdp d = Some c \<or> bhIpv6 d = Some c \<Longrightarrow> bhN c \<noteq> 0"
  shows "\<exists>P d'. detector_FilterAddrs r d addrs = Some (filter (\<lambda>a. \<not> P a) addrs, filter P addrs, d')
    \<and> (\<forall>a. P a \<longrightarrow> IsPublicAddr r a = Some True
        \<and> (isProtocolAddr r a P_UDP = Some True \<and> (\<exists>c. bhUdp d = Some c \<and> bhState c \<noteq> Allowed)
           \<or> isProtocolAddr r a P_IP6 = Some True \<and> (\<exists>c. bhIpv6 d = Some c \<and> bhState c \<noteq> Allowed)))
    \<and> (bhReadOnly d \<longrightarrow> d' = d)"
proof -
  have c: "list_all (classified r) addrs"
    using assms(2) validated_classified [OF assms(1)] by (auto simp: list_all_iff)
  obtain u v where s: "scan_addrs r (False, False) addrs = Some (u, v)" using scan_addrs_total [OF c] by blast
  obtain x f where x: "query_counter d (bhUdp d) u = Some (x, f)" "bhReadOnly d \<longrightarrow> f = bhUdp d"
    "x \<noteq> Allowed \<longrightarrow> (\<exists>c. bhUdp d = Some c \<and> bhState c \<noteq> Allowed)"
    using query_counter_state [of "bhUdp d" d u] assms(3) by blast
  obtain y g where y: "query_counter d (bhIpv6 d) v = Some (y, g)" "bhReadOnly d \<longrightarrow> g = bhIpv6 d"
    "y \<noteq> Allowed \<longrightarrow> (\<exists>c. bhIpv6 d = Some c \<and> bhState c \<noteq> Allowed)"
    using query_counter_state [of "bhIpv6 d" d v] assms(3) by blast
  have "detector_FilterAddrs r d addrs = Some (filter (\<lambda>a. \<not> dropped r x y a) addrs,
      filter (dropped r x y) addrs, d\<lparr>bhUdp := f, bhIpv6 := g\<rparr>)"
    using s x(1) y(1) FilterAddrs_dropped [OF c, of x y "[]"] by (simp add: detector_FilterAddrs_def)
  moreover have "bhReadOnly d \<longrightarrow> d\<lparr>bhUdp := f, bhIpv6 := g\<rparr> = d" using x(2) y(2) by simp
  ultimately show ?thesis using x(3) y(3) by (intro exI [of _ "dropped r x y"] exI conjI) (auto simp: dropped_def)
qed

theorem filter_splits_witness:
  "\<exists>P d'. detector_FilterAddrs std_registry \<lparr>bhUdp = Some (new_counter 100 5), bhIpv6 = None, bhReadOnly = True\<rparr>
      [MA [53, 1, 97]] = Some (filter (\<lambda>a. \<not> P a) [MA [53, 1, 97]], filter P [MA [53, 1, 97]], d')"
proof -
  let ?d = "\<lparr>bhUdp = Some (new_counter 100 5), bhIpv6 = None, bhReadOnly = True\<rparr>"
  have "\<And>a. a \<in> set [MA [53, 1, 97]] \<Longrightarrow> \<exists>b. NewMultiaddrBytes std_registry b = Inr a"
    using witness_dns by auto
  moreover have "\<And>c. bhUdp ?d = Some c \<or> bhIpv6 ?d = Some c \<Longrightarrow> bhN c \<noteq> 0" by (auto simp: new_counter_def)
  ultimately show ?thesis using filter_splits [OF std_registry_lawful, of "[MA [53, 1, 97]]" ?d] by blast
qed

end
