(* ===== verification/Dial_Limiter.thy ===== *)
theory Dial_Limiter
  imports Net_Addr
begin

text \<open>
  The dial limiter of the swarm (p2p/net/swarm/limiter.go): a dial runs when it holds a token of
  its peer and, where its transport needs a file descriptor, a descriptor token; otherwise it
  waits in the queue of the token it lacks.  The goroutines that the limiter starts are a field of
  the state, \<open>dlRunning\<close>; each ends by a call of \<open>finishedDial\<close>.  Whether a context is cancelled
  when a call asks is an argument of the operation.  The map of waiting jobs is an association list.
\<close>

section \<open>Which addresses need a descriptor\<close>

definition has_value :: "registry \<Rightarrow> Multiaddr \<Rightarrow> int \<Rightarrow> bool option" where
  "has_value r m code =
    map_option (\<lambda>res. case res of Inl err \<Rightarrow> False | Inr v \<Rightarrow> True) (ValueForProtocol r m code)"

definition isFdConsumingAddr :: "registry \<Rightarrow> Multiaddr \<Rightarrow> bool option" where
  "isFdConsumingAddr r addr =
    do { (first, _) \<leftarrow> SplitFunc r (Some addr) (\<lambda>c. pCode (cProtocol c) = P_CIRCUIT);
         case first of
           None \<Rightarrow> Some True
         | Some first \<Rightarrow>
             do { tcp \<leftarrow> has_value r first P_TCP; unix \<leftarrow> has_value r first P_UNIX; Some (tcp \<or> unix) } }"

definition shouldConsumeFd :: "registry \<Rightarrow> Multiaddr \<Rightarrow> bool option" where
  "shouldConsumeFd r addr =
    do { isRelay \<leftarrow> has_value r addr P_CIRCUIT;
         if isRelay then Some False else isFdConsumingAddr r addr }"

text \<open>The limiter asks about validated addresses, where the test returns.\<close>

definition needsFd :: "registry \<Rightarrow> Multiaddr \<Rightarrow> bool" where
  "needsFd r addr \<longleftrightarrow> shouldConsumeFd r addr = Some True"

lemma split_loop_boundary:
  assumes r: "wf_registry r"
  shows "list_all (known r) ds \<Longrightarrow>
    \<exists>xs ys. ds = xs @ ys \<and> split_loop r cb (items_bytes (cs @ ds)) (length (items_bytes cs)) = Some (length (items_bytes (cs @ xs)))"
proof (induction ds arbitrary: cs)
  case Nil
  then show ?case by (subst split_loop.simps) simp
next
  case (Cons d ds)
  obtain q w where d: "d = (q, w)" by (cases d)
  have rd: "readComponent r (items_bytes (d # ds)) = Inr (length (comp_bytes q w), mk_comp q w)"
    using readComponent_mk [OF r, of q w "items_bytes ds"] Cons.prems d by simp
  have "comp_bytes q w \<noteq> []" using comp_bytes_nonempty [OF r] Cons.prems d by simp
  then have s: "split_loop r cb (items_bytes (cs @ d # ds)) (length (items_bytes cs)) =
      (if cb (mk_comp q w) then Some (length (items_bytes cs))
       else split_loop r cb (items_bytes ((cs @ [d]) @ ds)) (length (items_bytes (cs @ [d]))))"
    using rd d by (subst split_loop.simps) simp
  show ?case
  proof (cases "cb (mk_comp q w)")
    case True
    then show ?thesis using s by (intro exI [of _ "[]"] exI [of _ "d # ds"]) simp
  next
    case False
    obtain xs ys where "ds = xs @ ys"
      "split_loop r cb (items_bytes ((cs @ [d]) @ ds)) (length (items_bytes (cs @ [d]))) = Some (length (items_bytes ((cs @ [d]) @ xs)))"
      using Cons.IH [of "cs @ [d]"] Cons.prems by auto
    then show ?thesis using s False by (intro exI [of _ "d # xs"] exI [of _ ys]) simp
  qed
qed

lemma valid_items_prefix: "valid_items r (xs @ ys) \<Longrightarrow> valid_items r xs"
  by (induction xs) auto

lemma has_value_total:
  assumes "lawful r" "valid_items r cs"
  shows "\<exists>x. has_value r (MA (items_bytes cs)) code = Some x"
proof -
  have r: "wf_registry r" using assms(1) by (simp add: lawful_def)
  let ?cb = "\<lambda>res c. if pCode (cProtocol c) = code then map_option (\<lambda>v. (False, Inr v)) (cValue c) else Some (True, res)"
  have "\<exists>x. walk ?cb st (parts cs) = Some x" for st :: "maddr_error + string"
    using assms(2)
  proof (induction cs arbitrary: st)
    case (Cons c cs)
    obtain p v where c: "c = (p, v)" by (cases c)
    obtain s where "cValue (mk_comp p v) = Some s" using cValue_total [OF assms(1), of p v] Cons.prems c by auto
    then show ?case using Cons c by simp
  qed simp
  then show ?thesis
    by (simp add: has_value_def ValueForProtocol_def ForEach_def for_loop_walk [OF r valid_known [OF assms(2)]])
qed

lemma shouldConsumeFd_total:
  assumes "lawful r" "NewMultiaddrBytes r b = Inr m"
  shows "\<exists>x. shouldConsumeFd r m = Some x"
proof -
  have r: "wf_registry r" using assms(1) by (simp add: lawful_def)
  obtain cs where cs: "m = MA (items_bytes cs)" "valid_items r cs" "cs \<noteq> []"
    using assms(2) NewMultiaddrBytes_iff [OF r] by auto
  have k: "list_all (known r) cs" by (rule valid_known [OF cs(2)])
  have ne: "items_bytes cs \<noteq> []" using items_bytes_empty [OF r k] cs(3) by simp
  let ?cb = "\<lambda>c. pCode (cProtocol c) = P_CIRCUIT"
  obtain xs ys where xs: "cs = xs @ ys" "split_loop r ?cb (items_bytes cs) 0 = Some (length (items_bytes xs))"
    using split_loop_boundary [OF r k, of ?cb "[]"] by auto
  have "\<exists>f. isFdConsumingAddr r m = Some f"
  proof (cases "items_bytes xs = []")
    case True
    then show ?thesis using xs ne by (auto simp: isFdConsumingAddr_def SplitFunc_def cs(1))
  next
    case False
    obtain y where y: "SplitFunc r (Some m) ?cb = Some (Some (MA (items_bytes xs)), y)"
      using xs ne False by (cases "items_bytes ys = []") (auto simp: SplitFunc_def cs(1))
    have "\<exists>x. has_value r (MA (items_bytes xs)) code = Some x" for code
      using has_value_total [OF assms(1)] valid_items_prefix cs(2) xs(1) by blast
    then obtain t u where "has_value r (MA (items_bytes xs)) P_TCP = Some t" "has_value r (MA (items_bytes xs)) P_UNIX = Some u"
      by blast
    then show ?thesis using y by (simp add: isFdConsumingAddr_def)
  qed
  then show ?thesis using has_value_total [OF assms(1) cs(2), of P_CIRCUIT] cs(1)
    by (auto simp: shouldConsumeFd_def)
qed

section \<open>The limiter\<close>

record dialJob =
  jAddr :: Multiaddr
  jPeer :: string
  jCtx :: nat

record dialLimiter =
  fdConsuming :: int
  fdLimit :: int
  waitingOnFd :: "dialJob list"
  activePerPeer :: "string \<rightharpoonup> int"
  perPeerLimit :: int
  waitingOnPeerLimit :: "(string \<times> dialJob list) list"
  dlRunning :: "dialJob list"

definition newDialLimiterWithParams :: "int \<Rightarrow> int \<Rightarrow> dialLimiter" where
  "newDialLimiterWithParams fdLim peerLim =
    \<lparr>fdConsuming = 0, fdLimit = fdLim, waitingOnFd = [], activePerPeer = Map.empty, perPeerLimit = peerLim,
      waitingOnPeerLimit = [], dlRunning = []\<rparr>"

definition activeOf :: "dialLimiter \<Rightarrow> string \<Rightarrow> int" where
  "activeOf dl p = (case activePerPeer dl p of None \<Rightarrow> 0 | Some n \<Rightarrow> n)"

definition waitersOf :: "dialLimiter \<Rightarrow> string \<Rightarrow> dialJob list" where
  "waitersOf dl p = (case map_of (waitingOnPeerLimit dl) p of None \<Rightarrow> [] | Some l \<Rightarrow> l)"

definition cancelled :: "(nat \<Rightarrow> bool) \<Rightarrow> dialJob \<Rightarrow> bool" where
  "cancelled cx dj = cx (jCtx dj)"

definition go_executeDial :: "dialLimiter \<Rightarrow> dialJob \<Rightarrow> dialLimiter" where
  "go_executeDial dl dj = dl\<lparr>dlRunning := dlRunning dl @ [dj]\<rparr>"

definition addCheckFdLimit :: "registry \<Rightarrow> dialLimiter \<Rightarrow> dialJob \<Rightarrow> dialLimiter" where
  "addCheckFdLimit r dl dj =
    (if needsFd r (jAddr dj) then
       if fdConsuming dl \<ge> fdLimit dl then dl\<lparr>waitingOnFd := waitingOnFd dl @ [dj]\<rparr>
       else go_executeDial (dl\<lparr>fdConsuming := fdConsuming dl + 1\<rparr>) dj
     else go_executeDial dl dj)"

fun peer_loop :: "registry \<Rightarrow> (nat \<Rightarrow> bool) \<Rightarrow> dialLimiter \<Rightarrow> dialJob list \<Rightarrow> dialLimiter" where
  "peer_loop r cx dl [] = dl"
| "peer_loop r cx dl (next # waitlist) =
    (let dl = dl\<lparr>waitingOnPeerLimit :=
           if waitlist = [] then AList.delete (jPeer next) (waitingOnPeerLimit dl)
           else AList.update (jPeer next) waitlist (waitingOnPeerLimit dl)\<rparr>
     in if cancelled cx next then peer_loop r cx dl waitlist
        else addCheckFdLimit r
          (dl\<lparr>activePerPeer := (activePerPeer dl)(jPeer next \<mapsto> activeOf dl (jPeer next) + 1)\<rparr>) next)"

definition freePeerToken :: "registry \<Rightarrow> (nat \<Rightarrow> bool) \<Rightarrow> dialLimiter \<Rightarrow> dialJob \<Rightarrow> dialLimiter" where
  "freePeerToken r cx dl dj =
    (let n = activeOf dl (jPeer dj) - 1;
         dl = dl\<lparr>activePerPeer := (activePerPeer dl)(jPeer dj := if n = 0 then None else Some n)\<rparr>
     in peer_loop r cx dl (waitersOf dl (jPeer dj)))"

text \<open>How many jobs wait: what ends the loop of \<open>freeFDToken\<close>.\<close>

definition waiting_total :: "dialLimiter \<Rightarrow> nat" where
  "waiting_total dl = length (waitingOnFd dl) + (\<Sum>(p, l) \<leftarrow> waitingOnPeerLimit dl. length l)"

lemma sum_update:
  "map_of xs k = Some l \<Longrightarrow> (\<Sum>(p, l) \<leftarrow> AList.update k m xs. length l) + length l
    = (\<Sum>(p, l) \<leftarrow> xs. length l) + length m"
  by (induction xs) auto

lemma sum_delete:
  "map_of xs k = Some l \<Longrightarrow> (\<Sum>(p, l) \<leftarrow> AList.delete k xs. length l) + length l \<le> (\<Sum>(p, l) \<leftarrow> xs. length l)"
proof (induction xs)
  case (Cons x xs)
  have "(\<Sum>(p, l) \<leftarrow> AList.delete k xs. length l) \<le> (\<Sum>(p, l) \<leftarrow> xs. length l)" for xs :: "(_ \<times> _ list) list"
    by (induction xs) auto
  then show ?case using Cons by (cases x) (auto simp: AList.delete_eq)
qed simp

partial_function (option) fd_loop :: "registry \<Rightarrow> (nat \<Rightarrow> bool) \<Rightarrow> dialLimiter \<Rightarrow> dialLimiter option" where
  "fd_loop r cx dl =
    (case waitingOnFd dl of
       [] \<Rightarrow> Some dl
     | next # rest \<Rightarrow>
       let dl = dl\<lparr>waitingOnFd := rest\<rparr> in
       if cancelled cx next then fd_loop r cx (freePeerToken r cx dl next)
       else Some (go_executeDial (dl\<lparr>fdConsuming := fdConsuming dl + 1\<rparr>) next))"

definition freeFDToken :: "registry \<Rightarrow> (nat \<Rightarrow> bool) \<Rightarrow> dialLimiter \<Rightarrow> dialLimiter option" where
  "freeFDToken r cx dl = fd_loop r cx (dl\<lparr>fdConsuming := fdConsuming dl - 1\<rparr>)"

text \<open>The goroutine of the job is over when its \<open>finishedDial\<close> is.\<close>

definition finishedDial :: "registry \<Rightarrow> (nat \<Rightarrow> bool) \<Rightarrow> dialLimiter \<Rightarrow> dialJob \<Rightarrow> dialLimiter option" where
  "finishedDial r cx dl dj =
    do { let dl = dl\<lparr>dlRunning := remove1 dj (dlRunning dl)\<rparr>;
         dl \<leftarrow> (if needsFd r (jAddr dj) then freeFDToken r cx dl else Some dl);
         Some (freePeerToken r cx dl dj) }"

definition addCheckPeerLimit :: "registry \<Rightarrow> dialLimiter \<Rightarrow> dialJob \<Rightarrow> dialLimiter" where
  "addCheckPeerLimit r dl dj =
    (if activeOf dl (jPeer dj) \<ge> perPeerLimit dl then
       dl\<lparr>waitingOnPeerLimit := AList.update (jPeer dj) (waitersOf dl (jPeer dj) @ [dj]) (waitingOnPeerLimit dl)\<rparr>
     else addCheckFdLimit r
       (dl\<lparr>activePerPeer := (activePerPeer dl)(jPeer dj \<mapsto> activeOf dl (jPeer dj) + 1)\<rparr>) dj)"

definition AddDialJob :: "registry \<Rightarrow> dialLimiter \<Rightarrow> dialJob \<Rightarrow> dialLimiter" where
  "AddDialJob r dl dj = addCheckPeerLimit r dl dj"

definition clearAllPeerDials :: "dialLimiter \<Rightarrow> string \<Rightarrow> dialLimiter" where
  "clearAllPeerDials dl p = dl\<lparr>waitingOnPeerLimit := AList.delete p (waitingOnPeerLimit dl)\<rparr>"

section \<open>The tokens\<close>

definition cnt :: "(dialJob \<Rightarrow> bool) \<Rightarrow> dialJob list \<Rightarrow> int" where
  "cnt f js = int (length (filter f js))"

lemma cnt_simps [simp]:
  "cnt f [] = 0" "cnt f (j # js) = (if f j then 1 else 0) + cnt f js" "cnt f (js @ ks) = cnt f js + cnt f ks"
  by (simp_all add: cnt_def)

lemma cnt_remove1: "j \<in> set js \<Longrightarrow> cnt f (remove1 j js) = cnt f js - (if f j then 1 else 0)"
  by (induction js) auto

text \<open>
  Every descriptor token is held by a running dial (but for \<open>f\<close> tokens being given back), and every
  peer token by a dial that runs, waits for a descriptor, or is in \<open>held\<close>.
\<close>

definition dl_base :: "registry \<Rightarrow> dialJob list \<Rightarrow> int \<Rightarrow> dialLimiter \<Rightarrow> bool" where
  "dl_base r held f dl \<longleftrightarrow>
     fdConsuming dl = cnt (\<lambda>j. needsFd r (jAddr j)) (dlRunning dl) + f
     \<and> (\<forall>p. activeOf dl p = cnt (\<lambda>j. jPeer j = p) (dlRunning dl @ waitingOnFd dl @ held))
     \<and> (\<forall>p. activeOf dl p \<le> perPeerLimit dl)
     \<and> (\<forall>j \<in> set (waitingOnFd dl). needsFd r (jAddr j))
     \<and> (\<forall>p l. map_of (waitingOnPeerLimit dl) p = Some l \<longrightarrow> l \<noteq> [] \<and> (\<forall>j \<in> set l. jPeer j = p))"

text \<open>A dial only waits for a token of its peer when they are all taken, save for the peer \<open>q\<close>.\<close>

definition peers_full :: "string option \<Rightarrow> dialLimiter \<Rightarrow> bool" where
  "peers_full q dl \<longleftrightarrow> (\<forall>p. q \<noteq> Some p \<longrightarrow> waitersOf dl p \<noteq> [] \<longrightarrow> activeOf dl p = perPeerLimit dl)"

definition fd_full :: "int \<Rightarrow> dialLimiter \<Rightarrow> bool" where
  "fd_full c dl \<longleftrightarrow> (waitingOnFd dl \<noteq> [] \<longrightarrow> c \<le> fdConsuming dl)"

text \<open>What one step of the limiter does to the descriptor tokens.\<close>

definition fd_step :: "dialLimiter \<Rightarrow> dialLimiter \<Rightarrow> bool" where
  "fd_step dl dl' \<longleftrightarrow> fdLimit dl' = fdLimit dl \<and> perPeerLimit dl' = perPeerLimit dl
     \<and> fdConsuming dl \<le> fdConsuming dl' \<and> fdConsuming dl' \<le> max (fdConsuming dl) (fdLimit dl)
     \<and> (\<forall>c \<le> fdLimit dl. fd_full c dl \<longrightarrow> fd_full c dl')"

lemma dl_baseD:
  assumes "dl_base r held f dl"
  shows "fdConsuming dl = cnt (\<lambda>j. needsFd r (jAddr j)) (dlRunning dl) + f"
    "activeOf dl p = cnt (\<lambda>j. jPeer j = p) (dlRunning dl @ waitingOnFd dl @ held)"
    "activeOf dl p \<le> perPeerLimit dl"
    "j \<in> set (waitingOnFd dl) \<Longrightarrow> needsFd r (jAddr j)"
    "map_of (waitingOnPeerLimit dl) p = Some l \<Longrightarrow> l \<noteq> []"
    "map_of (waitingOnPeerLimit dl) p = Some l \<Longrightarrow> j \<in> set l \<Longrightarrow> jPeer j = p"
  using assms unfolding dl_base_def by blast+

lemma dl_baseI:
  assumes "fdConsuming dl = cnt (\<lambda>j. needsFd r (jAddr j)) (dlRunning dl) + f"
    "\<And>p. activeOf dl p = cnt (\<lambda>j. jPeer j = p) (dlRunning dl @ waitingOnFd dl @ held)"
    "\<And>p. activeOf dl p \<le> perPeerLimit dl"
    "\<And>j. j \<in> set (waitingOnFd dl) \<Longrightarrow> needsFd r (jAddr j)"
    "\<And>p l. map_of (waitingOnPeerLimit dl) p = Some l \<Longrightarrow> l \<noteq> [] \<and> (\<forall>j \<in> set l. jPeer j = p)"
  shows "dl_base r held f dl"
  using assms unfolding dl_base_def by blast

lemma activeOf_simps [simp]:
  "activeOf (dl\<lparr>waitingOnFd := x\<rparr>) p = activeOf dl p" "activeOf (dl\<lparr>fdConsuming := y\<rparr>) p = activeOf dl p"
  "activeOf (dl\<lparr>dlRunning := z\<rparr>) p = activeOf dl p" "activeOf (dl\<lparr>waitingOnPeerLimit := w\<rparr>) p = activeOf dl p"
  "activeOf (dl\<lparr>activePerPeer := (activePerPeer dl)(q \<mapsto> n)\<rparr>) p = (if p = q then n else activeOf dl p)"
  "activeOf (dl\<lparr>activePerPeer := (activePerPeer dl)(q := None)\<rparr>) p = (if p = q then 0 else activeOf dl p)"
  by (simp_all add: activeOf_def)

lemma waitersOf_simps [simp]:
  "waitersOf (dl\<lparr>waitingOnFd := x\<rparr>) p = waitersOf dl p" "waitersOf (dl\<lparr>fdConsuming := y\<rparr>) p = waitersOf dl p"
  "waitersOf (dl\<lparr>dlRunning := z\<rparr>) p = waitersOf dl p" "waitersOf (dl\<lparr>activePerPeer := a\<rparr>) p = waitersOf dl p"
  by (simp_all add: waitersOf_def)

lemma addCheckFdLimit_same [simp]:
  "activeOf (addCheckFdLimit r dl j) p = activeOf dl p"
  "waitersOf (addCheckFdLimit r dl j) p = waitersOf dl p"
  "waitingOnPeerLimit (addCheckFdLimit r dl j) = waitingOnPeerLimit dl"
  "perPeerLimit (addCheckFdLimit r dl j) = perPeerLimit dl"
  by (simp_all add: addCheckFdLimit_def go_executeDial_def activeOf_def waitersOf_def)

lemma addCheckFdLimit_base:
  assumes "dl_base r (j # held) f dl"
  shows "dl_base r held f (addCheckFdLimit r dl j)"
proof (rule dl_baseI)
  note d = dl_baseD [OF assms]
  show "fdConsuming (addCheckFdLimit r dl j) = cnt (\<lambda>j. needsFd r (jAddr j)) (dlRunning (addCheckFdLimit r dl j)) + f"
    using d(1) by (auto simp: addCheckFdLimit_def go_executeDial_def)
  show "activeOf (addCheckFdLimit r dl j) p = cnt (\<lambda>j. jPeer j = p)
      (dlRunning (addCheckFdLimit r dl j) @ waitingOnFd (addCheckFdLimit r dl j) @ held)" for p
    using d(2) [of p] by (auto simp: addCheckFdLimit_def go_executeDial_def)
  show "activeOf (addCheckFdLimit r dl j) p \<le> perPeerLimit (addCheckFdLimit r dl j)" for p
    using d(3) [of p] by simp
  show "i \<in> set (waitingOnFd (addCheckFdLimit r dl j)) \<Longrightarrow> needsFd r (jAddr i)" for i
    using d(4) [of i] by (auto simp: addCheckFdLimit_def go_executeDial_def split: if_splits)
  show "map_of (waitingOnPeerLimit (addCheckFdLimit r dl j)) p = Some l \<Longrightarrow> l \<noteq> [] \<and> (\<forall>j \<in> set l. jPeer j = p)" for p l
    using d(5,6) [of p l] by simp
qed

lemma addCheckFdLimit_fd: "fd_step dl (addCheckFdLimit r dl j)"
  by (auto simp: fd_step_def fd_full_def addCheckFdLimit_def go_executeDial_def)

lemma addCheckFdLimit_total: "waiting_total (addCheckFdLimit r dl j) \<le> Suc (waiting_total dl)"
  by (simp add: waiting_total_def addCheckFdLimit_def go_executeDial_def)

lemma waiters_Some: "waitersOf dl p = j # ws \<Longrightarrow> map_of (waitingOnPeerLimit dl) p = Some (j # ws)"
  by (simp add: waitersOf_def split: option.splits)

lemma fd_step_refl [simp]: "fd_step dl dl"
  by (simp add: fd_step_def)

lemma fd_step_trans: "fd_step dl dl' \<Longrightarrow> fd_step dl' dl'' \<Longrightarrow> fd_step dl dl''"
  by (auto simp: fd_step_def)

definition pop_waiter :: "dialLimiter \<Rightarrow> string \<Rightarrow> dialJob list \<Rightarrow> dialLimiter" where
  "pop_waiter dl p ws = dl\<lparr>waitingOnPeerLimit :=
     if ws = [] then AList.delete p (waitingOnPeerLimit dl) else AList.update p ws (waitingOnPeerLimit dl)\<rparr>"

lemma map_of_pop:
  "map_of (waitingOnPeerLimit (pop_waiter dl p ws)) q =
    (if q = p then (if ws = [] then None else Some ws) else map_of (waitingOnPeerLimit dl) q)"
  by (simp add: pop_waiter_def AList.delete_conv' AList.update_conv')

lemma pop_waiter_facts:
  assumes "waitersOf dl p = j # ws"
  shows "waitersOf (pop_waiter dl p ws) q = (if q = p then ws else waitersOf dl q)"
    "Suc (waiting_total (pop_waiter dl p ws)) \<le> waiting_total dl"
    "dl_base r held f dl \<Longrightarrow> dl_base r held f (pop_waiter dl p ws)"
    "peers_full (Some p) dl \<Longrightarrow> peers_full (Some p) (pop_waiter dl p ws)"
    "fd_step dl (pop_waiter dl p ws)" "activeOf (pop_waiter dl p ws) q = activeOf dl q"
    "perPeerLimit (pop_waiter dl p ws) = perPeerLimit dl"
proof -
  note m = waiters_Some [OF assms]
  show w: "waitersOf (pop_waiter dl p ws) q = (if q = p then ws else waitersOf dl q)" for q
    unfolding waitersOf_def map_of_pop by simp
  show "Suc (waiting_total (pop_waiter dl p ws)) \<le> waiting_total dl"
    using sum_update [OF m, of ws] sum_delete [OF m] by (auto simp: waiting_total_def pop_waiter_def)
  show a: "activeOf (pop_waiter dl p ws) q = activeOf dl q" for q by (simp add: pop_waiter_def)
  show l: "perPeerLimit (pop_waiter dl p ws) = perPeerLimit dl" by (simp add: pop_waiter_def)
  show "fd_step dl (pop_waiter dl p ws)" by (simp add: fd_step_def fd_full_def pop_waiter_def)
  show "peers_full (Some p) (pop_waiter dl p ws)" if "peers_full (Some p) dl"
    using that unfolding peers_full_def w a l by auto
  show "dl_base r held f (pop_waiter dl p ws)" if b: "dl_base r held f dl"
  proof (rule dl_baseI)
    note d = dl_baseD [OF b]
    show "map_of (waitingOnPeerLimit (pop_waiter dl p ws)) q = Some l \<Longrightarrow> l \<noteq> [] \<and> (\<forall>j \<in> set l. jPeer j = q)" for q l
      using d(5,6) [of q l] d(6) [OF m] unfolding map_of_pop by (auto split: if_splits)
  qed (use dl_baseD [OF b] in \<open>simp_all add: pop_waiter_def\<close>)
qed

lemma peer_loop_facts:
  "waitersOf dl p = ws \<Longrightarrow> dl_base r held f dl \<Longrightarrow> peers_full (Some p) dl \<Longrightarrow>
   (ws \<noteq> [] \<Longrightarrow> activeOf dl p + 1 = perPeerLimit dl) \<Longrightarrow>
   dl_base r held f (peer_loop r cx dl ws) \<and> peers_full None (peer_loop r cx dl ws)
   \<and> fd_step dl (peer_loop r cx dl ws) \<and> waiting_total (peer_loop r cx dl ws) \<le> waiting_total dl"
proof (induction ws arbitrary: dl)
  case Nil
  then show ?case by (auto simp: peers_full_def)
next
  case (Cons j ws)
  let ?dl = "pop_waiter dl p ws"
  note m = waiters_Some [OF Cons.prems(1)] and f = pop_waiter_facts [OF Cons.prems(1)]
  have j: "jPeer j = p" using dl_baseD(6) [OF Cons.prems(2) m] by simp
  have pl: "peer_loop r cx dl (j # ws) = (if cancelled cx j then peer_loop r cx ?dl ws
      else addCheckFdLimit r (?dl\<lparr>activePerPeer := (activePerPeer ?dl)(p \<mapsto> activeOf ?dl p + 1)\<rparr>) j)"
    by (simp add: j pop_waiter_def Let_def)
  show ?case
  proof (cases "cancelled cx j")
    case True
    have "activeOf ?dl p + 1 = perPeerLimit ?dl" using Cons.prems(4) f(6,7) by simp
    then have "dl_base r held f (peer_loop r cx ?dl ws) \<and> peers_full None (peer_loop r cx ?dl ws)
       \<and> fd_step ?dl (peer_loop r cx ?dl ws) \<and> waiting_total (peer_loop r cx ?dl ws) \<le> waiting_total ?dl"
      using Cons.IH [of ?dl] f(1) [of p] f(3) [OF Cons.prems(2)] f(4) [OF Cons.prems(3)] by simp
    then show ?thesis using True pl f(2,5) fd_step_trans by auto
  next
    case False
    let ?d2 = "?dl\<lparr>activePerPeer := (activePerPeer ?dl)(p \<mapsto> activeOf ?dl p + 1)\<rparr>"
    have a: "activeOf ?d2 q = (if q = p then perPeerLimit dl else activeOf dl q)" for q
      using Cons.prems(4) f(6) by simp
    have b: "dl_base r (j # held) f ?d2"
    proof (rule dl_baseI)
      note d = dl_baseD [OF f(3) [OF Cons.prems(2)]]
      show "activeOf ?d2 q = cnt (\<lambda>j. jPeer j = q) (dlRunning ?d2 @ waitingOnFd ?d2 @ j # held)" for q
        using d(2) [of q] j by auto
      show "activeOf ?d2 q \<le> perPeerLimit ?d2" for q
        using a [of q] dl_baseD(3) [OF Cons.prems(2), of q] f(7) by auto
    qed (use dl_baseD [OF f(3) [OF Cons.prems(2)]] in simp_all)
    have "peers_full None ?d2"
      using f(4) [OF Cons.prems(3)] a f(1,6,7) by (auto simp: peers_full_def split: if_splits)
    then have "peers_full None (addCheckFdLimit r ?d2 j)" by (simp add: peers_full_def)
    moreover have "fd_step dl ?d2" using f(5) by (simp add: fd_step_def fd_full_def)
    moreover have "waiting_total ?d2 = waiting_total ?dl" by (simp add: waiting_total_def)
    ultimately show ?thesis
      using addCheckFdLimit_base [OF b] fd_step_trans [OF _ addCheckFdLimit_fd] addCheckFdLimit_total [of r ?d2 j] f(2)
        False pl by auto
  qed
qed

lemma freePeerToken_facts:
  assumes b: "dl_base r (dj # held) f dl" and pf: "peers_full None dl"
  shows "dl_base r held f (freePeerToken r cx dl dj)" "peers_full None (freePeerToken r cx dl dj)"
    "fd_step dl (freePeerToken r cx dl dj)" "waiting_total (freePeerToken r cx dl dj) \<le> waiting_total dl"
proof -
  let ?p = "jPeer dj"
  let ?n = "activeOf dl ?p - 1"
  let ?dl = "dl\<lparr>activePerPeer := (activePerPeer dl)(?p := if ?n = 0 then None else Some ?n)\<rparr>"
  have a: "activeOf ?dl q = (if q = ?p then ?n else activeOf dl q)" for q
    by (cases "?n = 0") auto
  have "dl_base r held f ?dl"
  proof (rule dl_baseI)
    show "activeOf ?dl q = cnt (\<lambda>j. jPeer j = q) (dlRunning ?dl @ waitingOnFd ?dl @ held)" for q
      using dl_baseD(2) [OF b, of q] unfolding a by auto
    show "activeOf ?dl q \<le> perPeerLimit ?dl" for q
      using dl_baseD(3) [OF b, of q] unfolding a by auto
  qed (use dl_baseD [OF b] in simp_all)
  moreover have "peers_full (Some ?p) ?dl" using pf unfolding peers_full_def a by auto
  moreover have "waitersOf ?dl ?p \<noteq> [] \<Longrightarrow> activeOf ?dl ?p + 1 = perPeerLimit ?dl"
    using pf unfolding peers_full_def a by auto
  ultimately have "dl_base r held f (peer_loop r cx ?dl (waitersOf ?dl ?p)) \<and> peers_full None (peer_loop r cx ?dl (waitersOf ?dl ?p))
   \<and> fd_step ?dl (peer_loop r cx ?dl (waitersOf ?dl ?p)) \<and> waiting_total (peer_loop r cx ?dl (waitersOf ?dl ?p)) \<le> waiting_total ?dl"
    by (rule peer_loop_facts [OF refl])
  moreover have "freePeerToken r cx dl dj = peer_loop r cx ?dl (waitersOf ?dl ?p)"
    by (simp add: freePeerToken_def Let_def)
  moreover have "fd_step dl ?dl" "waiting_total ?dl = waiting_total dl"
    by (simp_all add: fd_step_def fd_full_def waiting_total_def)
  ultimately show "dl_base r held f (freePeerToken r cx dl dj)" "peers_full None (freePeerToken r cx dl dj)"
    "fd_step dl (freePeerToken r cx dl dj)" "waiting_total (freePeerToken r cx dl dj) \<le> waiting_total dl"
    using fd_step_trans by auto
qed

lemma fd_loop_facts:
  "dl_base r held f dl \<Longrightarrow> peers_full None dl \<Longrightarrow> fd_full (fdLimit dl - 1) dl \<Longrightarrow> fdConsuming dl \<le> fdLimit dl \<Longrightarrow>
   \<exists>dl'. fd_loop r cx dl = Some dl' \<and> dl_base r held f dl' \<and> peers_full None dl' \<and> fd_full (fdLimit dl) dl'
     \<and> fdConsuming dl' \<le> fdLimit dl + 1 \<and> fdLimit dl' = fdLimit dl \<and> perPeerLimit dl' = perPeerLimit dl"
proof (induction "waiting_total dl" arbitrary: dl rule: less_induct)
  case less
  show ?case
  proof (cases "waitingOnFd dl")
    case Nil
    then show ?thesis using less.prems by (simp add: fd_loop.simps [of r cx dl] fd_full_def)
  next
    case (Cons j rest)
    let ?dl = "dl\<lparr>waitingOnFd := rest\<rparr>"
    have j: "needsFd r (jAddr j)" using dl_baseD(4) [OF less.prems(1)] Cons by simp
    have b: "dl_base r (j # held) f ?dl"
    proof (rule dl_baseI)
      show "activeOf ?dl q = cnt (\<lambda>j. jPeer j = q) (dlRunning ?dl @ waitingOnFd ?dl @ j # held)" for q
        using dl_baseD(2) [OF less.prems(1), of q] Cons by auto
    qed (use dl_baseD [OF less.prems(1)] Cons in simp_all)
    have pf: "peers_full None ?dl" using less.prems(2) by (simp add: peers_full_def)
    have c: "fdLimit dl - 1 \<le> fdConsuming dl" using less.prems(3) Cons by (simp add: fd_full_def)
    show ?thesis
    proof (cases "cancelled cx j")
      case True
      note fp = freePeerToken_facts [OF b pf, of cx]
      let ?d2 = "freePeerToken r cx ?dl j"
      have lt: "waiting_total ?d2 < waiting_total dl"
        using fp(4) Cons by (simp add: waiting_total_def)
      have l: "fdLimit ?d2 = fdLimit dl" "perPeerLimit ?d2 = perPeerLimit dl" "fdConsuming ?d2 \<le> fdLimit dl"
        using fp(3) less.prems(4) by (auto simp: fd_step_def)
      have "fd_full (fdLimit dl - 1) ?dl" using c by (simp add: fd_full_def)
      then have "fd_full (fdLimit ?d2 - 1) ?d2" using fp(3) l(1) by (auto simp: fd_step_def)
      then have "\<exists>dl'. fd_loop r cx ?d2 = Some dl' \<and> dl_base r held f dl' \<and> peers_full None dl' \<and> fd_full (fdLimit ?d2) dl'
          \<and> fdConsuming dl' \<le> fdLimit ?d2 + 1 \<and> fdLimit dl' = fdLimit ?d2 \<and> perPeerLimit dl' = perPeerLimit ?d2"
        using less.hyps [OF lt fp(1,2)] l by simp
      then show ?thesis using True Cons l by (subst fd_loop.simps) (simp add: Let_def)
    next
      case False
      let ?d2 = "go_executeDial (?dl\<lparr>fdConsuming := fdConsuming ?dl + 1\<rparr>) j"
      have "dl_base r held f ?d2"
      proof (rule dl_baseI)
        show "fdConsuming ?d2 = cnt (\<lambda>j. needsFd r (jAddr j)) (dlRunning ?d2) + f"
          using dl_baseD(1) [OF b] j by (simp add: go_executeDial_def)
        show "activeOf ?d2 q = cnt (\<lambda>j. jPeer j = q) (dlRunning ?d2 @ waitingOnFd ?d2 @ held)" for q
          using dl_baseD(2) [OF b, of q] by (auto simp: go_executeDial_def)
      qed (use dl_baseD [OF b] in \<open>simp_all add: go_executeDial_def\<close>)
      moreover have "peers_full None ?d2" using pf by (simp add: peers_full_def go_executeDial_def)
      moreover have "fd_full (fdLimit dl) ?d2" using c by (simp add: fd_full_def go_executeDial_def)
      ultimately show ?thesis using False Cons less.prems(4)
        by (subst fd_loop.simps) (simp add: Let_def go_executeDial_def)
    qed
  qed
qed

definition dl_inv :: "registry \<Rightarrow> dialLimiter \<Rightarrow> bool" where
  "dl_inv r dl \<longleftrightarrow> dl_base r [] 0 dl \<and> peers_full None dl \<and> fd_full (fdLimit dl) dl
     \<and> fdConsuming dl \<le> fdLimit dl + 1"

lemma new_inv: "0 \<le> fdLim \<Longrightarrow> 0 \<le> peerLim \<Longrightarrow> dl_inv r (newDialLimiterWithParams fdLim peerLim)"
  by (simp add: dl_inv_def dl_base_def peers_full_def fd_full_def newDialLimiterWithParams_def activeOf_def waitersOf_def)

lemma finishedDial_inv:
  assumes i: "dl_inv r dl" and j: "dj \<in> set (dlRunning dl)"
  shows "\<exists>dl'. finishedDial r cx dl dj = Some dl' \<and> dl_inv r dl' \<and> fdLimit dl' = fdLimit dl \<and> perPeerLimit dl' = perPeerLimit dl"
proof -
  let ?dl = "dl\<lparr>dlRunning := remove1 dj (dlRunning dl)\<rparr>"
  let ?f = "if needsFd r (jAddr dj) then 1 else 0 :: int"
  have b0: "dl_base r [] 0 dl" and pf0: "peers_full None dl" and ff0: "fd_full (fdLimit dl) dl"
    and lim: "fdConsuming dl \<le> fdLimit dl + 1" using i by (auto simp: dl_inv_def)
  have b: "dl_base r [dj] ?f ?dl"
  proof (rule dl_baseI)
    show "fdConsuming ?dl = cnt (\<lambda>j. needsFd r (jAddr j)) (dlRunning ?dl) + ?f"
      using dl_baseD(1) [OF b0] j by (simp add: cnt_remove1)
    show "activeOf ?dl q = cnt (\<lambda>j. jPeer j = q) (dlRunning ?dl @ waitingOnFd ?dl @ [dj])" for q
      using dl_baseD(2) [OF b0, of q] j by (simp add: cnt_remove1)
  qed (use dl_baseD [OF b0] in simp_all)
  have pf: "peers_full None ?dl" using pf0 by (simp add: peers_full_def)
  have "\<exists>d2. (if needsFd r (jAddr dj) then freeFDToken r cx ?dl else Some ?dl) = Some d2 \<and> dl_base r [dj] 0 d2
      \<and> peers_full None d2 \<and> fd_full (fdLimit dl) d2 \<and> fdConsuming d2 \<le> fdLimit dl + 1
      \<and> fdLimit d2 = fdLimit dl \<and> perPeerLimit d2 = perPeerLimit dl"
  proof (cases "needsFd r (jAddr dj)")
    case True
    let ?d1 = "?dl\<lparr>fdConsuming := fdConsuming ?dl - 1\<rparr>"
    have "dl_base r [dj] 0 ?d1"
    proof (rule dl_baseI)
      show "fdConsuming ?d1 = cnt (\<lambda>j. needsFd r (jAddr j)) (dlRunning ?d1) + 0"
        using dl_baseD(1) [OF b] True by simp
    qed (use dl_baseD [OF b] in simp_all)
    moreover have "peers_full None ?d1" using pf by (simp add: peers_full_def)
    moreover have "fd_full (fdLimit ?d1 - 1) ?d1" using ff0 by (auto simp: fd_full_def)
    ultimately have "\<exists>dl'. fd_loop r cx ?d1 = Some dl' \<and> dl_base r [dj] 0 dl' \<and> peers_full None dl' \<and> fd_full (fdLimit ?d1) dl'
     \<and> fdConsuming dl' \<le> fdLimit ?d1 + 1 \<and> fdLimit dl' = fdLimit ?d1 \<and> perPeerLimit dl' = perPeerLimit ?d1"
      using lim by (intro fd_loop_facts) auto
    then show ?thesis using True by (simp add: freeFDToken_def)
  next
    case False
    then show ?thesis using b pf ff0 lim by (simp add: fd_full_def)
  qed
  then obtain d2 where d2: "(if needsFd r (jAddr dj) then freeFDToken r cx ?dl else Some ?dl) = Some d2" "dl_base r [dj] 0 d2"
    "peers_full None d2" "fd_full (fdLimit dl) d2" "fdConsuming d2 \<le> fdLimit dl + 1"
    "fdLimit d2 = fdLimit dl" "perPeerLimit d2 = perPeerLimit dl" by blast
  note fp = freePeerToken_facts [OF d2(2,3), of cx]
  let ?d3 = "freePeerToken r cx d2 dj"
  have "fdConsuming ?d3 \<le> fdLimit dl + 1" "fdLimit ?d3 = fdLimit dl" "perPeerLimit ?d3 = perPeerLimit dl"
    "fd_full (fdLimit dl) ?d3"
    using fp(3) d2(4-7) by (auto simp: fd_step_def)
  then show ?thesis using fp(1,2) d2(1) by (simp add: finishedDial_def dl_inv_def Let_def)
qed

lemma AddDialJob_inv:
  assumes i: "dl_inv r dl"
  shows "dl_inv r (AddDialJob r dl dj)" "fdLimit (AddDialJob r dl dj) = fdLimit dl"
    "perPeerLimit (AddDialJob r dl dj) = perPeerLimit dl"
proof -
  have b0: "dl_base r [] 0 dl" and pf0: "peers_full None dl" and ff0: "fd_full (fdLimit dl) dl"
    and lim: "fdConsuming dl \<le> fdLimit dl + 1" using i by (auto simp: dl_inv_def)
  let ?p = "jPeer dj"
  have "dl_inv r (AddDialJob r dl dj) \<and> fdLimit (AddDialJob r dl dj) = fdLimit dl
    \<and> perPeerLimit (AddDialJob r dl dj) = perPeerLimit dl"
  proof (cases "activeOf dl ?p \<ge> perPeerLimit dl")
    case True
    let ?dl = "dl\<lparr>waitingOnPeerLimit := AList.update ?p (waitersOf dl ?p @ [dj]) (waitingOnPeerLimit dl)\<rparr>"
    have m: "map_of (waitingOnPeerLimit ?dl) q = (if q = ?p then Some (waitersOf dl ?p @ [dj]) else map_of (waitingOnPeerLimit dl) q)" for q
      by (simp add: AList.update_conv')
    have w: "\<forall>j \<in> set (waitersOf dl q). jPeer j = q" for q
    proof (cases "map_of (waitingOnPeerLimit dl) q")
      case None
      then show ?thesis by (simp add: waitersOf_def)
    next
      case (Some l)
      then show ?thesis using dl_baseD(6) [OF b0 Some] by (simp add: waitersOf_def)
    qed
    have "dl_base r [] 0 ?dl"
    proof (rule dl_baseI)
      show "l \<noteq> [] \<and> (\<forall>j \<in> set l. jPeer j = q)" if l: "map_of (waitingOnPeerLimit ?dl) q = Some l" for q l
      proof (cases "q = ?p")
        case True
        then have "l = waitersOf dl ?p @ [dj]" using l unfolding m by simp
        then show ?thesis using w [of ?p] True by auto
      next
        case False
        then show ?thesis using l dl_baseD(5,6) [OF b0, of q l] unfolding m by auto
      qed
    qed (use dl_baseD [OF b0] in simp_all)
    moreover have "peers_full None ?dl"
    proof -
      have "waitersOf ?dl q = (if q = ?p then waitersOf dl ?p @ [dj] else waitersOf dl q)" for q
        unfolding waitersOf_def [of ?dl] m by (simp add: waitersOf_def)
      then show ?thesis using pf0 True dl_baseD(3) [OF b0, of ?p] by (simp add: peers_full_def)
    qed
    ultimately show ?thesis using True ff0 lim
      by (simp add: AddDialJob_def addCheckPeerLimit_def dl_inv_def fd_full_def)
  next
    case False
    let ?dl = "dl\<lparr>activePerPeer := (activePerPeer dl)(?p \<mapsto> activeOf dl ?p + 1)\<rparr>"
    have b: "dl_base r [dj] 0 ?dl"
    proof (rule dl_baseI)
      show "activeOf ?dl q = cnt (\<lambda>j. jPeer j = q) (dlRunning ?dl @ waitingOnFd ?dl @ [dj])" for q
        using dl_baseD(2) [OF b0, of q] by auto
      show "activeOf ?dl q \<le> perPeerLimit ?dl" for q using dl_baseD(3) [OF b0, of q] False by auto
    qed (use dl_baseD [OF b0] in simp_all)
    have "waitersOf dl ?p = []" using pf0 False by (auto simp: peers_full_def)
    then have "peers_full None (addCheckFdLimit r ?dl dj)" using pf0 by (simp add: peers_full_def)
    moreover have "fd_step dl (addCheckFdLimit r ?dl dj)"
      using fd_step_trans [OF _ addCheckFdLimit_fd, of dl ?dl r dj] by (simp add: fd_step_def fd_full_def)
    ultimately show ?thesis using addCheckFdLimit_base [OF b] False ff0 lim
      by (auto simp: AddDialJob_def addCheckPeerLimit_def dl_inv_def fd_step_def)
  qed
  then show "dl_inv r (AddDialJob r dl dj)" "fdLimit (AddDialJob r dl dj) = fdLimit dl"
    "perPeerLimit (AddDialJob r dl dj) = perPeerLimit dl" by auto
qed

lemma clearAllPeerDials_inv:
  assumes i: "dl_inv r dl"
  shows "dl_inv r (clearAllPeerDials dl p)"
proof -
  have b0: "dl_base r [] 0 dl" and pf0: "peers_full None dl" using i by (auto simp: dl_inv_def)
  let ?dl = "clearAllPeerDials dl p"
  have m: "map_of (waitingOnPeerLimit ?dl) q = (if q = p then None else map_of (waitingOnPeerLimit dl) q)" for q
    by (simp add: clearAllPeerDials_def AList.delete_conv')
  have a: "activeOf ?dl q = activeOf dl q" "perPeerLimit ?dl = perPeerLimit dl" for q
    by (simp_all add: clearAllPeerDials_def)
  have "dl_base r [] 0 ?dl"
  proof (rule dl_baseI)
    show "map_of (waitingOnPeerLimit ?dl) q = Some l \<Longrightarrow> l \<noteq> [] \<and> (\<forall>j \<in> set l. jPeer j = q)" for q l
      using dl_baseD(5,6) [OF b0, of q l] unfolding m by (auto split: if_splits)
  qed (use dl_baseD [OF b0] a in \<open>simp_all add: clearAllPeerDials_def\<close>)
  moreover have "peers_full None ?dl"
    using pf0 unfolding peers_full_def waitersOf_def m a by (auto split: if_splits)
  ultimately show ?thesis using i by (simp add: dl_inv_def fd_full_def clearAllPeerDials_def)
qed


section \<open>Reachable states\<close>

inductive dl_step :: "registry \<Rightarrow> (nat \<Rightarrow> bool) \<Rightarrow> dialLimiter \<Rightarrow> dialLimiter \<Rightarrow> bool" for r cx where
  add: "dl_step r cx dl (AddDialJob r dl dj)"
| finish: "dj \<in> set (dlRunning dl) \<Longrightarrow> finishedDial r cx dl dj = Some dl' \<Longrightarrow> dl_step r cx dl dl'"
| clear: "dl_step r cx dl (clearAllPeerDials dl p)"

text \<open>Contexts may be cancelled between steps, so each step has its own answer.\<close>

inductive dl_reach :: "registry \<Rightarrow> int \<Rightarrow> int \<Rightarrow> dialLimiter \<Rightarrow> bool" for r fdLim peerLim where
  start: "dl_reach r fdLim peerLim (newDialLimiterWithParams fdLim peerLim)"
| step: "dl_reach r fdLim peerLim dl \<Longrightarrow> dl_step r cx dl dl' \<Longrightarrow> dl_reach r fdLim peerLim dl'"

lemma dl_step_inv:
  assumes "dl_step r cx dl dl'" "dl_inv r dl"
  shows "dl_inv r dl' \<and> fdLimit dl' = fdLimit dl \<and> perPeerLimit dl' = perPeerLimit dl"
  using assms
proof (cases rule: dl_step.cases)
  case (add dj)
  then show ?thesis using AddDialJob_inv [OF assms(2)] by simp
next
  case (finish dj)
  then show ?thesis using finishedDial_inv [OF assms(2) finish(1), of cx] by auto
next
  case (clear p)
  then show ?thesis using clearAllPeerDials_inv [OF assms(2), of p] by (simp add: clearAllPeerDials_def)
qed

lemma dl_reach_inv:
  assumes "dl_reach r fdLim peerLim dl" "0 \<le> fdLim" "0 \<le> peerLim"
  shows "dl_inv r dl \<and> fdLimit dl = fdLim \<and> perPeerLimit dl = peerLim"
  using assms
proof (induction rule: dl_reach.induct)
  case start
  then show ?case using new_inv by (simp add: newDialLimiterWithParams_def)
next
  case (step dl cx dl')
  then show ?case using dl_step_inv by blast
qed

lemma cnt_nonneg: "0 \<le> cnt f js"
  by (simp add: cnt_def)

text \<open>C36: The tokens of the limiter are exact in every reachable state: the descriptor count is the
  number of running dials that use one, and a peer never has more dials running than its limit.  The
  descriptor limit is exceeded by at most one.\<close>

theorem limiter_tokens_exact:
  assumes "dl_reach r fdLim peerLim dl" "0 \<le> fdLim" "0 \<le> peerLim"
  shows "fdConsuming dl = cnt (\<lambda>j. needsFd r (jAddr j)) (dlRunning dl)
    \<and> fdConsuming dl \<le> fdLim + 1 \<and> (\<forall>p. cnt (\<lambda>j. jPeer j = p) (dlRunning dl) \<le> peerLim)"
proof -
  have i: "dl_base r [] 0 dl" "fdConsuming dl \<le> fdLimit dl + 1" "fdLimit dl = fdLim" "perPeerLimit dl = peerLim"
    using dl_reach_inv [OF assms] by (auto simp: dl_inv_def)
  have "cnt (\<lambda>j. jPeer j = p) (dlRunning dl) \<le> peerLim" for p
    using dl_baseD(2,3) [OF i(1), of p] i(4) cnt_nonneg [of "\<lambda>j. jPeer j = p" "waitingOnFd dl"] by simp
  then show ?thesis using dl_baseD(1) [OF i(1)] i by simp
qed

text \<open>C37: No dial waits without a reason, and every call returns: a dial in the descriptor queue means
  that the descriptor limit is reached, a dial in the queue of its peer means that the peer's limit is
  reached, and the end of a running dial hands its tokens on in finitely many steps.\<close>

theorem limiter_work_conserving:
  assumes "dl_reach r fdLim peerLim dl" "0 \<le> fdLim" "0 \<le> peerLim"
  shows "(waitingOnFd dl \<noteq> [] \<longrightarrow> fdLim \<le> fdConsuming dl)
    \<and> (waitersOf dl p \<noteq> [] \<longrightarrow> activeOf dl p = peerLim)
    \<and> (\<forall>dj \<in> set (dlRunning dl). \<forall>cx. \<exists>dl'. finishedDial r cx dl dj = Some dl')"
proof -
  have i: "dl_inv r dl" and l: "fdLimit dl = fdLim" "perPeerLimit dl = peerLim" using dl_reach_inv [OF assms] by auto
  have "\<exists>dl'. finishedDial r cx dl dj = Some dl'" if "dj \<in> set (dlRunning dl)" for dj cx
    using finishedDial_inv [OF i that, of cx] by auto
  then show ?thesis using i l by (auto simp: dl_inv_def fd_full_def peers_full_def)
qed

section \<open>The descriptor limit\<close>

lemma walk_first:
  "walk (\<lambda>res c. if pCode (cProtocol c) = code then map_option (\<lambda>v. (False, Inr v)) (cValue c) else Some (True, res)) res [c] =
    (if pCode (cProtocol c) = code then map_option Inr (cValue c) else Some res)"
  by (auto split: option.splits)

lemma witness_needsFd: "needsFd std_registry (MA [6, 0, 80])"
proof -
  let ?c = "mk_comp protoTCP [0, 80]"
  have k: "list_all (known std_registry) [(protoTCP, [0, 80])]" using valid_known [OF witness_known(2)] .
  have b: "[6, 0, 80] = items_bytes [(protoTCP, [0, 80])]" using witness_items(2) by simp
  have code: "pCode protoTCP = P_TCP" by (simp add: proto_defs new_protocol_def P_TCP_def)
  obtain s where s: "cValue ?c = Some s"
    using cValue_total [OF std_registry_lawful, of protoTCP "[0, 80]"] witness_known(2) by auto
  have v: "ValueForProtocol std_registry (MA [6, 0, 80]) x = (if P_TCP = x then Some (Inr s) else Some (Inl ProtocolNotFound))" for x
    unfolding ValueForProtocol_def ForEach_def Multiaddr.case option.case b for_loop_walk [OF std_registry_wf k]
      parts_simps walk_first using s code by simp
  have "readComponent std_registry [6, 0, 80] = Inr (3, ?c)"
    using readComponent_mk [OF std_registry_wf, of protoTCP "[0, 80]" "[]"] k witness_items(2) by simp
  then have "split_loop std_registry (\<lambda>c. pCode (cProtocol c) = P_CIRCUIT) [6, 0, 80] 0 = Some 3"
    using code by (subst split_loop.simps, simp) (subst split_loop.simps, simp add: P_CIRCUIT_def P_TCP_def)
  then have "SplitFunc std_registry (Some (MA [6, 0, 80])) (\<lambda>c. pCode (cProtocol c) = P_CIRCUIT) = Some (Some (MA [6, 0, 80]), None)"
    by (simp add: SplitFunc_def)
  then show ?thesis
    by (simp add: needsFd_def shouldConsumeFd_def isFdConsumingAddr_def has_value_def v P_TCP_def P_CIRCUIT_def P_UNIX_def)
qed

text \<open>Four dials over TCP with one descriptor and one token a peer.\<close>

definition tcp_job :: "string \<Rightarrow> nat \<Rightarrow> dialJob" where
  "tcp_job p ctx = \<lparr>jAddr = MA [6, 0, 80], jPeer = p, jCtx = ctx\<rparr>"

lemma tcp_job_simps [simp]: "jAddr (tcp_job p ctx) = MA [6, 0, 80]" "jPeer (tcp_job p ctx) = p" "jCtx (tcp_job p ctx) = ctx"
  by (simp_all add: tcp_job_def)

definition crowded :: dialLimiter where
  "crowded = foldl (AddDialJob std_registry) (newDialLimiterWithParams 1 1)
     [tcp_job ''A'' 1, tcp_job ''B'' 2, tcp_job ''B'' 3, tcp_job ''C'' 4]"

lemma crowded_reach: "dl_reach std_registry 1 1 crowded"
  unfolding crowded_def by (simp, intro dl_reach.step [OF _ dl_step.add [of _ "\<lambda>_. False"]] dl_reach.start)

lemma crowded_state:
  "dlRunning crowded = [tcp_job ''A'' 1]" "waitingOnFd crowded = [tcp_job ''B'' 2, tcp_job ''C'' 4]"
  "waitingOnPeerLimit crowded = [(''B'', [tcp_job ''B'' 3])]" "fdConsuming crowded = 1" "fdLimit crowded = 1"
  "perPeerLimit crowded = 1" "activePerPeer crowded = [''A'' \<mapsto> 1, ''B'' \<mapsto> 1, ''C'' \<mapsto> 1]"
  by (simp_all add: crowded_def AddDialJob_def addCheckPeerLimit_def addCheckFdLimit_def go_executeDial_def
      newDialLimiterWithParams_def activeOf_def waitersOf_def witness_needsFd)

theorem limiter_tokens_exact_witness:
  "fdConsuming crowded = cnt (\<lambda>j. needsFd std_registry (jAddr j)) (dlRunning crowded)
    \<and> fdConsuming crowded \<le> 1 + 1 \<and> (\<forall>p. cnt (\<lambda>j. jPeer j = p) (dlRunning crowded) \<le> 1)"
  by (rule limiter_tokens_exact [OF crowded_reach]) simp_all

theorem limiter_work_conserving_witness:
  "1 \<le> fdConsuming crowded \<and> activeOf crowded ''B'' = 1
    \<and> (\<exists>dl'. finishedDial std_registry (\<lambda>ctx. ctx = 2) crowded (tcp_job ''A'' 1) = Some dl')"
proof -
  have "waitingOnFd crowded \<noteq> []" "waitersOf crowded ''B'' \<noteq> []" "tcp_job ''A'' 1 \<in> set (dlRunning crowded)"
    by (simp_all add: crowded_state waitersOf_def)
  then show ?thesis using limiter_work_conserving [OF crowded_reach, of "''B''"] by simp
qed

lemma crowded_overrun:
  "\<exists>dl. finishedDial std_registry (\<lambda>ctx. ctx = 2) crowded (tcp_job ''A'' 1) = Some dl \<and> fdConsuming dl = 2"
proof -
  note c = crowded_state
  let ?dl = "crowded\<lparr>dlRunning := [], fdConsuming := 0, waitingOnFd := [tcp_job ''C'' 4]\<rparr>"
  have 1: "freePeerToken std_registry (\<lambda>ctx. ctx = 2) ?dl (tcp_job ''B'' 2) =
      crowded\<lparr>dlRunning := [tcp_job ''B'' 3], fdConsuming := 1, waitingOnFd := [tcp_job ''C'' 4],
        waitingOnPeerLimit := [], activePerPeer := [''A'' \<mapsto> 1, ''B'' \<mapsto> 1, ''C'' \<mapsto> 1]\<rparr>"
    by (simp add: freePeerToken_def c Let_def waitersOf_def activeOf_def cancelled_def addCheckFdLimit_def
        go_executeDial_def witness_needsFd fun_upd_twist)
  have "fd_loop std_registry (\<lambda>ctx. ctx = 2) (crowded\<lparr>dlRunning := [], fdConsuming := 0\<rparr>) =
      Some (crowded\<lparr>dlRunning := [tcp_job ''B'' 3, tcp_job ''C'' 4], fdConsuming := 2, waitingOnFd := [],
        waitingOnPeerLimit := [], activePerPeer := [''A'' \<mapsto> 1, ''B'' \<mapsto> 1, ''C'' \<mapsto> 1]\<rparr>)"
    by (subst fd_loop.simps, simp add: c cancelled_def 1)
      (subst fd_loop.simps, simp add: c cancelled_def go_executeDial_def)
  then show ?thesis
    by (simp add: finishedDial_def c witness_needsFd freeFDToken_def freePeerToken_def Let_def waitersOf_def activeOf_def)
qed

text \<open>C38: The descriptor limit can be exceeded.  When a running dial ends and the dial at the head of the
  descriptor queue has been cancelled, the cancelled dial's peer token lets another dial of that peer take
  the free descriptor, and the loop then starts the next queued dial as well, without looking at the limit:
  with a limit of one, two dials run.\<close>

theorem fd_limit_exceeded:
  "\<exists>dl. dl_reach std_registry 1 1 dl \<and> fdConsuming dl = fdLimit dl + 1
     \<and> cnt (\<lambda>j. needsFd std_registry (jAddr j)) (dlRunning dl) = 2"
proof -
  obtain dl where dl: "finishedDial std_registry (\<lambda>ctx. ctx = 2) crowded (tcp_job ''A'' 1) = Some dl" "fdConsuming dl = 2"
    using crowded_overrun by blast
  have r: "dl_reach std_registry 1 1 dl"
    by (rule dl_reach.step [OF crowded_reach dl_step.finish [OF _ dl(1)]]) (simp add: crowded_state)
  have "dl_inv std_registry dl" "fdLimit dl = 1" using dl_reach_inv [OF r] by auto
  then show ?thesis using r dl(2) dl_baseD(1) [of std_registry "[]" 0 dl] by (auto simp: dl_inv_def)
qed









end
