(* ===== verification/Spec2Isabelle.thy ===== *)
theory Spec2Isabelle
  imports Manager_Runs Scaling Black_Hole Dial_Limiter
begin

text \<open>
  This library models parts of the Go repository dep2p/libp2p under src/ and proves what makes
  them correct.  It has three groups.

  \<^bold>\<open>The resource manager\<close> (p2p/host/resource-manager) accounts for the memory, streams,
  connections and file descriptors of a node.  A \<open>scope\<close> counts what is used under it against
  a limit; scopes form a graph, in which a reservation on a connection, stream or span is
  charged to the scopes above it.  The manager creates the scopes for the system, peers,
  protocols, services, connections and streams, moves connections and streams between them as
  more is learnt about them, and collects the ones nobody uses.  A limiter per subnet and an
  allowlist decide about new connections.

  \<^item> \<open>Limits\<close> (limit.go, limit\_defaults.go): limit records, partial configurations and their
    layers, the fixed limiter.  \<open>Scaling\<close> (limit\_defaults.go): limits scaled by memory and
    descriptors, with the float64 share written out.
  \<^item> \<open>Resources\<close> (the \<open>resources\<close> struct of scope.go): the counters of one scope, 64-bit arithmetic
    with overflow.  \<open>Scope\<close> (scope.go): scopes in a store, a pointer being an index, and every
    operation on them.  \<open>Scope_Contract\<close>: an acquisition charges all the scopes it concerns or none,
    a release undoes it.  \<open>Accounting\<close> and \<open>Graph_Steps\<close>: the books of the whole graph, and how
    each step moves them.
  \<^item> \<open>Conn_Limiter\<close> (conn\_limiter.go): connections per network prefix and subnet, refined to a
    multiset of live connections.  \<open>Allow_List\<close> (allowlist.go).
  \<^item> \<open>Manager\<close> (rcmgr.go): the manager's state and every operation on it.  \<open>Manager_Inv\<close> and
    \<open>Manager_Moves\<close>: the shape of its scope graph, and that looking up shared scopes and moving a
    connection to its peer keep the shape and the books.

  \<^bold>\<open>Addresses\<close> (multiformats).

  \<^item> \<open>Varint\<close> (varint/varint.go): the encoding and its exact inverse.
  \<^item> \<open>Multiaddr\<close> (multiaddr: protocol.go, codec.go, component.go, multiaddr.go, util.go, varint.go):
    the registry, both forms of an address, and the operations on addresses.  \<open>Multiaddr_Codec\<close>: a
    valid address is a sequence of components; taking it apart never panics; text and bytes are
    inverse when each transcoder satisfies the contract \<open>transcoder\<close>.  \<open>Transcoders\<close>
    (transcoders.go, protocols.go): the transcoders that satisfy it, and the table of protocols.
  \<^item> \<open>Net_Addr\<close> (multiaddr/net/private.go): public and private addresses.

  \<^bold>\<open>Dialling\<close> (p2p/net/swarm).

  \<^item> \<open>Black_Hole\<close> (black\_hole\_detector.go): detection of protocols whose dials all fail.
  \<^item> \<open>Dial_Limiter\<close> (limiter.go): tokens for running dials, their queues, and the limits they keep.

  Conventions.  Go's \<open>int\<close> and \<open>int64\<close> are integers with the wrap-around of each operation
  written out (\<open>Prelude\<close>); addresses and bytes are words.  A mutex makes an exported method one
  step.  An error is the left of a sum or an option, as the code returns it.  \<open>None\<close> as the result
  of a call is a panic or a call that does not return; the theorems that say a call succeeds
  show that this does not happen.  Loops are recursive functions with their termination proofs; the
  loop of \<open>freeFDToken\<close>, whose end depends on the invariant, and the walks along owners are partial
  functions, with lemmas that they return.  No fuel is used.  Where Go iterates over a map, the
  order is an argument.

  Not modelled: the tracing, metrics and JSON forms of the resource manager; the transcoders of IP
  addresses, peer IDs, onion, garlic and HTTP path values and certificate hashes; everything that
  is a protocol over network streams (identify, relay, hole punching, AutoNAT, ping), a transport,
  a security handshake or a muxer; peerstores, discovery, hosts, the event bus and the connection
  manager, which run on timers, channels and datastores; and generated code.
\<close>

end
